(* ===== verification/Prelude.thy ===== *)
theory Prelude
  imports Main "HOL-Library.Word" "HOL-Library.Code_Target_Numeral"
begin

text \<open>
  What the components share.

  \<^item> The machine types of the C++ code: \<open>int\<close>, \<open>unsigned\<close> and \<open>size_t\<close> at their widths.
  \<^item> The ways an operation can end other than by returning: a C++ exception, a
    \<open>std::abort()\<close>, or behaviour the language leaves undefined.
  \<^item> A state monad over such outcomes, in which the methods of the components are written,
    with \<open>try_catch\<close> for the code's \<open>try\<close> blocks.
  \<^item> The object representation of integers (little endian), which the code sends as it is.
\<close>

section \<open>Machine types\<close>

type_synonym i32 = "32 word" \<comment> \<open>\<open>int\<close>, read with \<open>sint\<close>\<close>
type_synonym u32 = "32 word" \<comment> \<open>\<open>unsigned\<close>\<close>
type_synonym u64 = "64 word" \<comment> \<open>\<open>size_t\<close>\<close>
type_synonym u16 = "16 word" \<comment> \<open>\<open>unsigned short\<close>, a port number\<close>

text \<open>The conversion of a byte count (\<open>size_t\<close>) to the \<open>int\<close> a method returns.\<close>

definition to_int :: "nat \<Rightarrow> int" where
  "to_int n = sint (word_of_nat n :: i32)"

section \<open>Outcomes\<close>

datatype exn =
    LogicError \<comment> \<open>\<open>std::string\<close> built from a null pointer\<close>
  | LengthError \<comment> \<open>\<open>vector::reserve\<close> beyond \<open>max_size\<close>\<close>
  | BadAlloc \<comment> \<open>\<open>new\<close> fails\<close>
  | SystemError \<comment> \<open>\<open>boost::system::system_error\<close>\<close>

datatype ub =
    NullDeref
  | SignedOverflow
  | OutOfBounds
  | HeapOverrun
  | UninitRead
  | StackOverflow
  | BadIterator
  | DivByZero

datatype fault =
    Throw exn \<comment> \<open>an exception: \<open>catch\<close> stops it\<close>
  | Undefined ub \<comment> \<open>undefined behaviour: nothing stops it\<close>
  | Aborted \<comment> \<open>\<open>std::abort()\<close>\<close>

type_synonym ('st, 'a) sm = "'st \<Rightarrow> (fault + 'a) \<times> 'st"

definition ret :: "'a \<Rightarrow> ('st, 'a) sm" where
  "ret x = (\<lambda>st. (Inr x, st))"

definition fail :: "fault \<Rightarrow> ('st, 'a) sm" where
  "fail e = (\<lambda>st. (Inl e, st))"

definition bind_sm :: "('st, 'a) sm \<Rightarrow> ('a \<Rightarrow> ('st, 'b) sm) \<Rightarrow> ('st, 'b) sm" where
  "bind_sm m f = (\<lambda>st. case m st of (Inl e, st') \<Rightarrow> (Inl e, st') | (Inr x, st') \<Rightarrow> f x st')"

definition try_catch :: "('st, 'a) sm \<Rightarrow> (exn \<Rightarrow> ('st, 'a) sm) \<Rightarrow> ('st, 'a) sm" where
  "try_catch m h = (\<lambda>st. case m st of
       (Inl (Throw e), st') \<Rightarrow> h e st'
     | (Inl (Undefined u), st') \<Rightarrow> (Inl (Undefined u), st')
     | (Inl Aborted, st') \<Rightarrow> (Inl Aborted, st')
     | (Inr x, st') \<Rightarrow> (Inr x, st'))"

definition modify :: "('st \<Rightarrow> 'st) \<Rightarrow> ('st, unit) sm" where
  "modify f = (\<lambda>st. (Inr (), f st))"

text \<open>
  Methods that use an object and a socket run on a pair: the object's fields, and the pointer
  to the socket (\<open>None\<close> for \<open>NULL\<close>). \<open>zoom\<close> runs a method on a part of the object.
\<close>

type_synonym ('o, 's, 'a) io = "('o \<times> 's option, 'a) sm"

definition zoom :: "('o \<Rightarrow> 'p) \<Rightarrow> ('p \<Rightarrow> 'o \<Rightarrow> 'o) \<Rightarrow> ('p, 's, 'a) io \<Rightarrow> ('o, 's, 'a) io" where
  "zoom get put m = (\<lambda>(ob, p). case m (get ob, p) of (r, (x, p')) \<Rightarrow> (r, (put x ob, p')))"

text \<open>Computations that keep no state.\<close>

definition bind_sum :: "fault + 'a \<Rightarrow> ('a \<Rightarrow> fault + 'b) \<Rightarrow> fault + 'b" where
  "bind_sum r f = (case r of Inl e \<Rightarrow> Inl e | Inr x \<Rightarrow> f x)"

definition with_obj :: "('o \<Rightarrow> ('o, 's, 'a) io) \<Rightarrow> ('o, 's, 'a) io" where
  "with_obj f = (\<lambda>(ob, p). f ob (ob, p))"

named_theorems sm_simps \<open>the state monad, unfolded on a given state\<close>

lemma ret_run [sm_simps]: "ret x st = (Inr x, st)"
  by (simp add: ret_def)

lemma fail_run [sm_simps]: "fail e st = (Inl e, st)"
  by (simp add: fail_def)

lemma bind_sm_run [sm_simps]:
  "bind_sm m f st = (case m st of (Inl e, st') \<Rightarrow> (Inl e, st') | (Inr x, st') \<Rightarrow> f x st')"
  by (simp add: bind_sm_def)

lemma modify_run [sm_simps]: "modify f st = (Inr (), f st)"
  by (simp add: modify_def)

lemma zoom_run [sm_simps]:
  "zoom get put m (ob, p) = (case m (get ob, p) of (r, (x, p')) \<Rightarrow> (r, (put x ob, p')))"
  by (simp add: zoom_def)

lemma with_obj_run [sm_simps]: "with_obj f (ob, p) = f ob (ob, p)"
  by (simp add: with_obj_def)

lemma bind_sum_simps [simp]: "bind_sum (Inl e) f = Inl e" "bind_sum (Inr x) f = f x"
  by (simp_all add: bind_sum_def)

lemma bind_sum_eq_Inr: "bind_sum r f = Inr y \<longleftrightarrow> (\<exists>x. r = Inr x \<and> f x = Inr y)"
  by (cases r) auto

lemma bind_sm_assoc:
  "bind_sm (bind_sm m f) g = bind_sm m (\<lambda>x. bind_sm (f x) g)"
  by (auto simp: bind_sm_def fun_eq_iff split: prod.splits sum.splits)

lemma try_catch_run [sm_simps]:
  "try_catch m h st = (case m st of
       (Inl (Throw e), st') \<Rightarrow> h e st'
     | (Inl (Undefined u), st') \<Rightarrow> (Inl (Undefined u), st')
     | (Inl Aborted, st') \<Rightarrow> (Inl Aborted, st')
     | (Inr x, st') \<Rightarrow> (Inr x, st'))"
  by (simp add: try_catch_def)

section \<open>Integers as the code does arithmetic on them\<close>

text \<open>\<open>int\<close> addition: overflow is undefined.\<close>

definition add_i32 :: "i32 \<Rightarrow> i32 \<Rightarrow> fault + i32" where
  "add_i32 a b = (if - (2 ^ 31) \<le> sint a + sint b \<and> sint a + sint b < 2 ^ 31
                  then Inr (a + b) else Inl (Undefined SignedOverflow))"

text \<open>Lifting a computation that keeps no state.\<close>

definition lift_sum :: "fault + 'a \<Rightarrow> ('st, 'a) sm" where
  "lift_sum r = (\<lambda>st. (r, st))"

lemma lift_sum_run [sm_simps]: "lift_sum r st = (r, st)"
  by (simp add: lift_sum_def)

lemma add_i32_Inr: "add_i32 a b = Inr c \<Longrightarrow> sint c = sint a + sint b"
  by (auto simp: add_i32_def sint_word_ariths signed_take_bit_int_eq_self split: if_splits)

lemma add_i32_ok:
  "- (2 ^ 31) \<le> sint a + sint b \<Longrightarrow> sint a + sint b < 2 ^ 31 \<Longrightarrow> add_i32 a b = Inr (a + b)"
  by (simp add: add_i32_def)

lemma unat_i32: "n < 2 ^ 32 \<Longrightarrow> unat (word_of_nat n :: i32) = n"
  by (simp add: unsigned_of_nat take_bit_nat_eq_self)

lemma sint_i32: "n < 2 ^ 31 \<Longrightarrow> sint (word_of_nat n :: i32) = int n"
  by (simp add: signed_of_nat signed_take_bit_int_eq_self)

lemma unat_u64: "n < 2 ^ 64 \<Longrightarrow> unat (word_of_nat n :: u64) = n"
  by (simp add: unsigned_of_nat take_bit_nat_eq_self)

section \<open>Object representation\<close>

text \<open>
  \<open>(const char*)&x\<close> with \<open>sizeof x = n\<close>: the bytes of \<open>x\<close>, least significant first, and the
  value a buffer of bytes has when it is read back through a pointer to the integer.
\<close>

fun nat_bytes :: "nat \<Rightarrow> nat \<Rightarrow> string" where
  "nat_bytes 0 x = []"
| "nat_bytes (Suc n) x = char_of x # nat_bytes n (x div 256)"

fun bytes_nat :: "string \<Rightarrow> nat" where
  "bytes_nat [] = 0"
| "bytes_nat (c # cs) = of_char c + 256 * bytes_nat cs"

definition i32_bytes :: "i32 \<Rightarrow> string" where
  "i32_bytes x = nat_bytes 4 (unat x)"

definition u64_bytes :: "u64 \<Rightarrow> string" where
  "u64_bytes x = nat_bytes 8 (unat x)"

definition i32_of_bytes :: "string \<Rightarrow> i32" where
  "i32_of_bytes bs = word_of_nat (bytes_nat bs)"

definition u64_of_bytes :: "string \<Rightarrow> u64" where
  "u64_of_bytes bs = word_of_nat (bytes_nat bs)"

lemma length_nat_bytes [simp]: "length (nat_bytes n x) = n"
  by (induction n arbitrary: x) simp_all

lemma of_char_char_of_nat: "(of_char (char_of (x::nat)) :: nat) = x mod 256"
  by simp

lemma bytes_nat_nat_bytes: "bytes_nat (nat_bytes n x) = x mod 256 ^ n"
proof (induction n arbitrary: x)
  case 0
  then show ?case by simp
next
  case (Suc n)
  have "bytes_nat (nat_bytes (Suc n) x) = x mod 256 + 256 * (x div 256 mod 256 ^ n)"
    using Suc by simp
  also have "\<dots> = x mod (256 * 256 ^ n)"
    by (simp add: mod_mult2_eq)
  finally show ?case by simp
qed

lemma of_char_nat_less: "(of_char c :: nat) < 256"
proof -
  have "(of_char c :: nat) = of_char (char_of (of_char c :: nat))" by simp
  also have "\<dots> = of_char c mod 256" by (simp only: of_char_of)
  finally show ?thesis by (metis mod_less_divisor zero_less_numeral)
qed

lemma bytes_nat_less: "bytes_nat bs < 256 ^ length bs"
proof (induction bs)
  case Nil
  then show ?case by simp
next
  case (Cons c cs)
  have step: "x < 256 \<Longrightarrow> b < p \<Longrightarrow> x + 256 * b < 256 * p" for x b p :: nat
    by linarith
  from step [OF of_char_nat_less Cons.IH] show ?case by simp
qed

lemma nat_bytes_bytes_nat: "nat_bytes (length bs) (bytes_nat bs) = bs"
proof (induction bs)
  case Nil
  then show ?case by simp
next
  case (Cons c cs)
  have lt: "(of_char c :: nat) < 256" by (rule of_char_nat_less)
  have "char_of (of_char c + 256 * bytes_nat cs) = c"
  proof -
    have "char_of (of_char c + 256 * bytes_nat cs) = (char_of ((of_char c + 256 * bytes_nat cs) mod 256) :: char)"
      by (rule char_of_mod_256 [symmetric])
    also have "(of_char c + 256 * bytes_nat cs) mod 256 = of_char c" using lt by simp
    also have "char_of (of_char c :: nat) = c" by simp
    finally show ?thesis .
  qed
  moreover have "(of_char c + 256 * bytes_nat cs) div 256 = bytes_nat cs"
    using lt by simp
  ultimately show ?case using Cons by simp
qed

lemma length_i32_bytes [simp]: "length (i32_bytes x) = 4"
  by (simp add: i32_bytes_def)

lemma length_u64_bytes [simp]: "length (u64_bytes x) = 8"
  by (simp add: u64_bytes_def)

lemma i32_of_bytes_i32_bytes [simp]: "i32_of_bytes (i32_bytes x) = x"
proof -
  have "unat x < 256 ^ 4" using unsigned_less [of x] by simp
  then show ?thesis by (simp add: i32_of_bytes_def i32_bytes_def bytes_nat_nat_bytes)
qed

lemma u64_of_bytes_u64_bytes [simp]: "u64_of_bytes (u64_bytes x) = x"
proof -
  have "unat x < 256 ^ 8" using unsigned_less [of x] by simp
  then show ?thesis by (simp add: u64_of_bytes_def u64_bytes_def bytes_nat_nat_bytes)
qed

lemma i32_bytes_i32_of_bytes: "length bs = 4 \<Longrightarrow> i32_bytes (i32_of_bytes bs) = bs"
  using bytes_nat_less [of bs] nat_bytes_bytes_nat [of bs]
  by (simp add: i32_of_bytes_def i32_bytes_def unat_of_nat)

lemma u64_bytes_u64_of_bytes: "length bs = 8 \<Longrightarrow> u64_bytes (u64_of_bytes bs) = bs"
  using bytes_nat_less [of bs] nat_bytes_bytes_nat [of bs]
  by (simp add: u64_of_bytes_def u64_bytes_def unat_of_nat)

section \<open>Characters and C strings\<close>

text \<open>
  \<open>std::string\<close> built from a \<open>char*\<close> stops at the first NUL; a \<open>char\<close> used as an \<open>int\<close> is
  sign extended (\<open>char\<close> is signed on the target).
\<close>

definition c_str :: "string \<Rightarrow> string" where
  "c_str bs = takeWhile (\<lambda>c. c \<noteq> CHR 0x00) bs"

definition char_to_int :: "char \<Rightarrow> i32" where
  "char_to_int c = scast (word_of_nat (of_char c) :: 8 word)"

lemma c_str_id_iff: "c_str bs = bs \<longleftrightarrow> CHR 0x00 \<notin> set bs"
  by (auto simp: c_str_def takeWhile_eq_all_conv)

end
