(* ===== verification/Platform.thy ===== *)
theory Platform
  imports Prelude
begin

text \<open>
  What the program gets from outside: blocking TCP sockets (Boost.Asio) and the heap.

  The operations of Boost.Asio are fields of a record that every definition using them takes
  as an argument, on an abstract type \<open>'s\<close> of socket states. Their documented behaviour is
  the hypothesis \<open>duplex P rx tx\<close>: a socket is a pair of byte streams, \<open>rx s\<close> the bytes the
  peer sends before it closes that have not been read yet, and \<open>tx s\<close> the bytes handed to the
  connection so far.

  \<open>machine\<close> is the machine of that contract: its sockets are pairs of lists of bytes.
  A method written over any platform satisfying the contract behaves as it does over the
  machine of the contract (\<open>sim\<close>, with one rule per construct), so its properties are
  proved there, where it computes, and carried over to every platform.
\<close>

section \<open>Sockets and heap\<close>

record endpoint =
  ep_address :: u32
  ep_port :: u16

record 's platform =
  asio_read :: "'s \<Rightarrow> nat \<Rightarrow> string option \<times> 's" \<comment> \<open>\<open>boost::asio::read\<close>: \<open>None\<close> throws\<close>
  asio_write :: "'s \<Rightarrow> string \<Rightarrow> nat option \<times> 's" \<comment> \<open>\<open>boost::asio::write\<close>\<close>
  asio_write_some :: "'s \<Rightarrow> string \<Rightarrow> nat option \<times> 's" \<comment> \<open>\<open>tcp::socket::write_some\<close>\<close>
  asio_close :: "'s \<Rightarrow> 's" \<comment> \<open>\<open>tcp::socket::close\<close>\<close>
  asio_socket :: 's \<comment> \<open>a new \<open>tcp::socket\<close>, not connected\<close>
  asio_connect :: "'s \<Rightarrow> endpoint \<Rightarrow> bool \<times> 's" \<comment> \<open>\<open>tcp::socket::connect\<close>: \<open>False\<close> throws\<close>
  address_to_string :: "u32 \<Rightarrow> string" \<comment> \<open>\<open>ip::address::to_string\<close>\<close>
  max_alloc :: nat \<comment> \<open>the largest array \<open>new\<close> can allocate, in bytes\<close>

definition sock_read :: "'s platform \<Rightarrow> nat \<Rightarrow> ('o, 's, string) io" where
  "sock_read P n = (\<lambda>(ob, p). case p of
       None \<Rightarrow> (Inl (Undefined NullDeref), (ob, None))
     | Some s \<Rightarrow> (case asio_read P s n of
           (None, s') \<Rightarrow> (Inl (Throw SystemError), (ob, Some s'))
         | (Some bs, s') \<Rightarrow> (Inr bs, (ob, Some s'))))"

definition sock_write :: "'s platform \<Rightarrow> string \<Rightarrow> ('o, 's, nat) io" where
  "sock_write P bs = (\<lambda>(ob, p). case p of
       None \<Rightarrow> (Inl (Undefined NullDeref), (ob, None))
     | Some s \<Rightarrow> (case asio_write P s bs of
           (None, s') \<Rightarrow> (Inl (Throw SystemError), (ob, Some s'))
         | (Some n, s') \<Rightarrow> (Inr n, (ob, Some s'))))"

definition sock_write_some :: "'s platform \<Rightarrow> string \<Rightarrow> ('o, 's, nat) io" where
  "sock_write_some P bs = (\<lambda>(ob, p). case p of
       None \<Rightarrow> (Inl (Undefined NullDeref), (ob, None))
     | Some s \<Rightarrow> (case asio_write_some P s bs of
           (None, s') \<Rightarrow> (Inl (Throw SystemError), (ob, Some s'))
         | (Some n, s') \<Rightarrow> (Inr n, (ob, Some s'))))"

definition new_array :: "'s platform \<Rightarrow> nat \<Rightarrow> ('st, unit) sm" where
  "new_array P n = (if n \<le> max_alloc P then ret () else fail (Throw BadAlloc))"

text \<open>\<open>if (sock == NULL) ...\<close>\<close>

definition if_null :: "('o, 's, 'a) io \<Rightarrow> ('o, 's, 'a) io \<Rightarrow> ('o, 's, 'a) io" where
  "if_null m m' = (\<lambda>(ob, p). case p of None \<Rightarrow> m (ob, p) | Some s \<Rightarrow> m' (ob, p))"

definition modify_obj :: "('o \<Rightarrow> 'o) \<Rightarrow> ('o, 's, unit) io" where
  "modify_obj f = (\<lambda>(ob, p). (Inr (), (f ob, p)))"

section \<open>The documented behaviour\<close>

definition duplex :: "'s platform \<Rightarrow> ('s \<Rightarrow> string) \<Rightarrow> ('s \<Rightarrow> string) \<Rightarrow> bool" where
  "duplex P rx tx \<longleftrightarrow>
     (\<forall>s n. tx (snd (asio_read P s n)) = tx s \<and>
        (if n \<le> length (rx s)
         then fst (asio_read P s n) = Some (take n (rx s)) \<and> rx (snd (asio_read P s n)) = drop n (rx s)
         else fst (asio_read P s n) = None \<and> rx (snd (asio_read P s n)) = [])) \<and>
     (\<forall>s bs. fst (asio_write P s bs) = Some (length bs) \<and>
        tx (snd (asio_write P s bs)) = tx s @ bs \<and> rx (snd (asio_write P s bs)) = rx s)"

text \<open>\<open>write_some\<close> sends a non-empty prefix of a non-empty buffer, how much is not determined.\<close>

definition sends_some :: "'s platform \<Rightarrow> ('s \<Rightarrow> string) \<Rightarrow> ('s \<Rightarrow> string) \<Rightarrow> bool" where
  "sends_some P rx tx \<longleftrightarrow>
     (\<forall>s bs. bs \<noteq> [] \<longrightarrow> (\<exists>n s'. asio_write_some P s bs = (Some n, s') \<and> 0 < n \<and> n \<le> length bs \<and>
        tx s' = tx s @ take n bs \<and> rx s' = rx s))"

text \<open>A socket whose \<open>write_some\<close> always takes the whole buffer.\<close>

definition sends_all :: "'s platform \<Rightarrow> bool" where
  "sends_all P \<longleftrightarrow> (\<forall>s bs. fst (asio_write_some P s bs) = Some (length bs))"

text \<open>Closing a socket sends nothing.\<close>

definition close_silent :: "'s platform \<Rightarrow> ('s \<Rightarrow> string) \<Rightarrow> bool" where
  "close_silent P tx \<longleftrightarrow> (\<forall>s. tx (asio_close P s) = tx s)"

section \<open>The machine of the contract\<close>

type_synonym wire = "string \<times> string"

definition machine :: "nat \<Rightarrow> wire platform" where
  "machine M = \<lparr>
     asio_read = (\<lambda>(i, out) n. if n \<le> length i then (Some (take n i), (drop n i, out)) else (None, ([], out))),
     asio_write = (\<lambda>(i, out) bs. (Some (length bs), (i, out @ bs))),
     asio_write_some = (\<lambda>(i, out) bs. (Some (length bs), (i, out @ bs))),
     asio_close = (\<lambda>s. s),
     asio_socket = ([], []),
     asio_connect = (\<lambda>s e. (True, s)),
     address_to_string = (\<lambda>a. ''127.0.0.1''),
     max_alloc = M\<rparr>"

definition stream_platform :: "'s platform \<Rightarrow> wire platform" where
  "stream_platform P = (machine (max_alloc P))\<lparr>address_to_string := address_to_string P\<rparr>"

lemma duplex_machine: "duplex (machine M) fst snd"
  by (auto simp: duplex_def machine_def)

lemma sends_some_machine: "sends_some (machine M) fst snd"
  by (auto simp: sends_some_def machine_def)

lemma sends_all_machine: "sends_all (machine M)"
  by (auto simp: sends_all_def machine_def)

lemma close_silent_machine: "close_silent (machine M) tx"
  by (auto simp: close_silent_def machine_def)

lemma max_alloc_machine [simp]: "max_alloc (machine M) = M"
  by (simp add: machine_def)

lemma duplex_stream: "duplex (stream_platform P) fst snd"
  by (auto simp: duplex_def stream_platform_def machine_def)

lemma stream_max_alloc [simp]: "max_alloc (stream_platform P) = max_alloc P"
  by (simp add: stream_platform_def)

lemma stream_address_to_string [simp]:
  "address_to_string (stream_platform P) = address_to_string P"
  by (simp add: stream_platform_def)

lemma sock_read_stream [sm_simps]:
  "sock_read (stream_platform P) n (ob, Some (i, out)) =
     (if n \<le> length i then (Inr (take n i), (ob, Some (drop n i, out)))
      else (Inl (Throw SystemError), (ob, Some ([], out))))"
  by (simp add: sock_read_def stream_platform_def machine_def)

lemma sock_write_stream [sm_simps]:
  "sock_write (stream_platform P) bs (ob, Some (i, out)) = (Inr (length bs), (ob, Some (i, out @ bs)))"
  by (simp add: sock_write_def stream_platform_def machine_def)

lemma sock_read_null [sm_simps]: "sock_read P n (ob, None) = (Inl (Undefined NullDeref), (ob, None))"
  by (simp add: sock_read_def)

lemma sock_write_null [sm_simps]: "sock_write P bs (ob, None) = (Inl (Undefined NullDeref), (ob, None))"
  by (simp add: sock_write_def)

lemma new_array_run [sm_simps]:
  "new_array P n st = (if n \<le> max_alloc P then (Inr (), st) else (Inl (Throw BadAlloc), st))"
  by (simp add: new_array_def sm_simps)

lemma if_null_Some [sm_simps]: "if_null m m' (ob, Some s) = m' (ob, Some s)"
  by (simp add: if_null_def)

lemma if_null_None [sm_simps]: "if_null m m' (ob, None) = m (ob, None)"
  by (simp add: if_null_def)

lemma modify_obj_run [sm_simps]: "modify_obj f (ob, p) = (Inr (), (f ob, p))"
  by (simp add: modify_obj_def)

text \<open>A machine whose \<open>write_some\<close> takes one byte at a time.\<close>

definition slow_machine :: "nat \<Rightarrow> wire platform" where
  "slow_machine M = (machine M)\<lparr>asio_write_some := (\<lambda>(i, out) bs. (Some (min 1 (length bs)), (i, out @ take 1 bs)))\<rparr>"

lemma duplex_slow_machine: "duplex (slow_machine M) fst snd"
  by (auto simp: duplex_def slow_machine_def machine_def)

lemma sends_some_slow_machine: "sends_some (slow_machine M) fst snd"
  by (auto simp: sends_some_def slow_machine_def machine_def min_def Suc_le_eq)

lemma close_silent_slow_machine: "close_silent (slow_machine M) tx"
  by (auto simp: close_silent_def slow_machine_def machine_def)

section \<open>Refinement of the machine\<close>

text \<open>\<open>sim rx tx m m'\<close>: through the streams, \<open>m\<close> does what \<open>m'\<close> does.\<close>

definition view :: "('s \<Rightarrow> string) \<Rightarrow> ('s \<Rightarrow> string) \<Rightarrow> 's option \<Rightarrow> wire option" where
  "view rx tx p = map_option (\<lambda>s. (rx s, tx s)) p"

definition sim :: "('s \<Rightarrow> string) \<Rightarrow> ('s \<Rightarrow> string) \<Rightarrow> ('o, 's, 'a) io \<Rightarrow> ('o, wire, 'a) io \<Rightarrow> bool" where
  "sim rx tx m m' \<longleftrightarrow>
     (\<forall>ob p. m' (ob, view rx tx p) = (case m (ob, p) of (r, (ob', p')) \<Rightarrow> (r, (ob', view rx tx p'))))"

named_theorems sim_intros \<open>how the constructs of a method refine the machine\<close>

lemma view_None [simp]: "view rx tx None = None"
  by (simp add: view_def)

lemma view_Some [simp]: "view rx tx (Some s) = Some (rx s, tx s)"
  by (simp add: view_def)

lemma simI: "(\<And>ob p. m' (ob, view rx tx p) = (case m (ob, p) of (r, (ob', p')) \<Rightarrow> (r, (ob', view rx tx p'))))
   \<Longrightarrow> sim rx tx m m'"
  by (simp add: sim_def)

lemma simD: "sim rx tx m m' \<Longrightarrow> m (ob, p) = (r, (ob', p')) \<Longrightarrow> m' (ob, view rx tx p) = (r, (ob', view rx tx p'))"
  by (simp add: sim_def)

lemma sim_ret [sim_intros]: "sim rx tx (ret x) (ret x)"
  by (rule simI) (simp add: sm_simps)

lemma sim_fail [sim_intros]: "sim rx tx (fail e) (fail e)"
  by (rule simI) (simp add: sm_simps)

lemma sim_lift_sum [sim_intros]: "sim rx tx (lift_sum r) (lift_sum r)"
  by (rule simI) (simp add: sm_simps)

lemma sim_modify_obj [sim_intros]: "sim rx tx (modify_obj f) (modify_obj f)"
  by (rule simI) (simp add: sm_simps)

lemma sim_bind [sim_intros]:
  assumes m: "sim rx tx m m'" and f: "\<And>x. sim rx tx (f x) (f' x)"
  shows "sim rx tx (bind_sm m f) (bind_sm m' f')"
proof (rule simI)
  fix ob p
  obtain r ob1 p1 where run: "m (ob, p) = (r, (ob1, p1))" by (metis prod.exhaust)
  have run': "m' (ob, view rx tx p) = (r, (ob1, view rx tx p1))" using simD [OF m run] .
  show "bind_sm m' f' (ob, view rx tx p) =
      (case bind_sm m f (ob, p) of (r, ob', p') \<Rightarrow> (r, ob', view rx tx p'))"
    using f by (cases r) (auto simp: bind_sm_run run run' sim_def)
qed

lemma sim_try_catch [sim_intros]:
  assumes m: "sim rx tx m m'" and h: "\<And>e. sim rx tx (h e) (h' e)"
  shows "sim rx tx (try_catch m h) (try_catch m' h')"
proof (rule simI)
  fix ob p
  obtain r ob1 p1 where run: "m (ob, p) = (r, (ob1, p1))" by (metis prod.exhaust)
  have run': "m' (ob, view rx tx p) = (r, (ob1, view rx tx p1))" using simD [OF m run] .
  show "try_catch m' h' (ob, view rx tx p) =
      (case try_catch m h (ob, p) of (r, ob', p') \<Rightarrow> (r, ob', view rx tx p'))"
    using h by (auto simp: try_catch_run run run' sim_def split: sum.splits fault.splits)
qed

lemma sim_if_null [sim_intros]:
  assumes "sim rx tx m1 m1'" and "sim rx tx m2 m2'"
  shows "sim rx tx (if_null m1 m2) (if_null m1' m2')"
proof (rule simI)
  fix ob p
  show "if_null m1' m2' (ob, view rx tx p) =
      (case if_null m1 m2 (ob, p) of (r, ob', p') \<Rightarrow> (r, ob', view rx tx p'))"
    using assms [unfolded sim_def, THEN spec, of ob, THEN spec, of p]
    by (cases p) (simp_all add: sm_simps)
qed

lemma sim_with_obj [sim_intros]:
  assumes "\<And>ob. sim rx tx (f ob) (f' ob)"
  shows "sim rx tx (with_obj f) (with_obj f')"
  using assms by (simp add: sim_def sm_simps)

lemma sim_zoom [sim_intros]:
  assumes m: "sim rx tx m m'"
  shows "sim rx tx (zoom get put m) (zoom get put m')"
proof (rule simI)
  fix ob p
  obtain r x p1 where run: "m (get ob, p) = (r, (x, p1))" by (metis prod.exhaust)
  show "zoom get put m' (ob, view rx tx p) =
      (case zoom get put m (ob, p) of (r, ob', p') \<Rightarrow> (r, ob', view rx tx p'))"
    using simD [OF m run] by (simp add: zoom_run run)
qed

lemma sim_if [sim_intros]:
  "sim rx tx m1 m1' \<Longrightarrow> sim rx tx m2 m2' \<Longrightarrow> sim rx tx (if b then m1 else m2) (if b then m1' else m2')"
  by simp

lemma sim_new_array [sim_intros]: "sim rx tx (new_array P n) (new_array (stream_platform P) n)"
  unfolding new_array_def stream_max_alloc by (intro sim_intros)

lemma sim_sock_read [sim_intros]:
  assumes P: "duplex P rx tx"
  shows "sim rx tx (sock_read P n) (sock_read (stream_platform P) n)"
proof (rule simI)
  fix ob p
  show "sock_read (stream_platform P) n (ob, view rx tx p) =
      (case sock_read P n (ob, p) of (r, ob', p') \<Rightarrow> (r, ob', view rx tx p'))"
  proof (cases p)
    case None
    then show ?thesis by (simp add: sm_simps)
  next
    case (Some s)
    obtain r s' where run: "asio_read P s n = (r, s')" by (cases "asio_read P s n")
    from P have "tx s' = tx s \<and> (if n \<le> length (rx s) then r = Some (take n (rx s)) \<and> rx s' = drop n (rx s)
        else r = None \<and> rx s' = [])"
      unfolding duplex_def by (metis run fst_conv snd_conv)
    then show ?thesis by (auto simp: Some sm_simps sock_read_def [of P] run split: if_splits)
  qed
qed

lemma sim_sock_write [sim_intros]:
  assumes P: "duplex P rx tx"
  shows "sim rx tx (sock_write P bs) (sock_write (stream_platform P) bs)"
proof (rule simI)
  fix ob p
  show "sock_write (stream_platform P) bs (ob, view rx tx p) =
      (case sock_write P bs (ob, p) of (r, ob', p') \<Rightarrow> (r, ob', view rx tx p'))"
  proof (cases p)
    case None
    then show ?thesis by (simp add: sm_simps)
  next
    case (Some s)
    obtain r s' where run: "asio_write P s bs = (r, s')" by (cases "asio_write P s bs")
    from P have "r = Some (length bs) \<and> tx s' = tx s @ bs \<and> rx s' = rx s"
      unfolding duplex_def by (metis run fst_conv snd_conv)
    then show ?thesis by (auto simp: Some sm_simps sock_write_def [of P] run)
  qed
qed

text \<open>What a method does on a socket of any platform, from what it does on the machine.\<close>

lemma sim_run:
  assumes "sim rx tx m m'" and "m' (ob, Some (rx s, tx s)) = (r, (ob', Some (i, out)))"
  shows "\<exists>s'. m (ob, Some s) = (r, (ob', Some s')) \<and> rx s' = i \<and> tx s' = out"
proof -
  obtain r1 ob1 p1 where run: "m (ob, Some s) = (r1, (ob1, p1))" by (metis prod.exhaust)
  from simD [OF assms(1) run] assms(2) have "r1 = r \<and> ob1 = ob' \<and> view rx tx p1 = Some (i, out)"
    by simp
  then show ?thesis using run by (cases p1) auto
qed

end
