(* ===== verification/Writables.thy ===== *)
theory Writables
  imports Platform
begin

text \<open>
  The serialisable values (\<open>src/Writable.cpp\<close>, \<open>src/IntWritable.cpp\<close>, \<open>src/MethodWritable.cpp\<close>,
  \<open>Method::getNewInstance\<close>): the class hierarchy as a datatype with one constructor per class,
  its virtual methods as functions by cases on the constructor.

  A \<open>vector<shared_ptr<Writable>>\<close> is a list of values: the program never stores a null pointer
  in one (\<open>Invocation::getParams\<close> dereferences each pointer before the vector is used, and
  \<open>getNewInstance\<close> returns none). An \<open>IntWritable\<close> whose \<open>_value\<close> has not been set carries \<open>None\<close>.
\<close>

section \<open>Values\<close>

datatype writable =
    Writable
  | IntWritable "i32 option"
  | MethodWritable string string "writable list"

fun get_class :: "writable \<Rightarrow> string" where
  "get_class Writable = ''Writable''"
| "get_class (IntWritable v) = ''IntWritable''"
| "get_class (MethodWritable c m ps) = ''MethodWritable''"

definition get_new_instance :: "string \<Rightarrow> writable" where
  "get_new_instance cls =
     (if cls = ''IntWritable'' then IntWritable None
      else if cls = ''MethodWritable'' then MethodWritable [] [] []
      else Writable)"

section \<open>Strings on the wire\<close>

definition write_string :: "'s platform \<Rightarrow> string \<Rightarrow> ('o, 's, int) io" where
  "write_string P str =
     if_null (ret 0)
       (let len = (word_of_nat (length str) :: i32) in
        if len = 0 then ret 0
        else bind_sm (sock_write P (i32_bytes len)) (\<lambda>_.
             bind_sm (sock_write P str) (\<lambda>send_length.
             ret (to_int send_length))))"

definition read_string :: "'s platform \<Rightarrow> ('o, 's, string) io" where
  "read_string P =
     if_null (fail (Throw LogicError))
       (bind_sm (sock_read P 4) (\<lambda>lb.
        let len = i32_of_bytes lb in
        if 0 < sint len then
          bind_sm (lift_sum (add_i32 len 1)) (\<lambda>n.
          bind_sm (new_array P (nat (sint n))) (\<lambda>_.
          bind_sm (sock_read P (nat (sint len))) (\<lambda>char_str.
          if 0 < length char_str then ret (c_str char_str)
          else fail (Throw LogicError))))
        else fail (Throw LogicError)))"

section \<open>IntWritable\<close>

definition int_read_fields :: "'s platform \<Rightarrow> (i32 option, 's, int) io" where
  "int_read_fields P =
     if_null (ret (- 1))
       (bind_sm (sock_read P 8) (\<lambda>lb.
        let len = u64_of_bytes lb in
        bind_sm (new_array P (unat (len + 1))) (\<lambda>_.
        bind_sm (if unat len \<le> unat (len + 1) then sock_read P (unat len)
                 else fail (Undefined HeapOverrun)) (\<lambda>buf.
        if length buf \<noteq> unat len then ret (- 1)
        else bind_sm (modify_obj (\<lambda>_. Some (char_to_int (hd (buf @ [CHR 0x00]))))) (\<lambda>_.
             ret (to_int (length buf)))))))"

definition int_write :: "'s platform \<Rightarrow> i32 option \<Rightarrow> ('o, 's, int) io" where
  "int_write P v =
     if_null (ret (- 1))
       (bind_sm (sock_write P (u64_bytes 4)) (\<lambda>_.
        case v of
          None \<Rightarrow> fail (Undefined UninitRead)
        | Some x \<Rightarrow>
            bind_sm (sock_write P (i32_bytes x)) (\<lambda>l.
            if l \<noteq> 4 then ret (- 1) else ret (to_int l))))"

section \<open>MethodWritable\<close>

text \<open>The fields of a \<open>MethodWritable\<close>: \<open>_class_name\<close>, \<open>_method_name\<close>, \<open>_params\<close>.\<close>

type_synonym method_obj = "string \<times> string \<times> writable list"

definition put_class :: "string \<Rightarrow> method_obj \<Rightarrow> method_obj" where
  "put_class c ob = (c, snd ob)"

definition put_method :: "string \<Rightarrow> method_obj \<Rightarrow> method_obj" where
  "put_method m ob = (fst ob, m, snd (snd ob))"

definition put_params :: "writable list \<Rightarrow> method_obj \<Rightarrow> method_obj" where
  "put_params ps ob = (fst ob, fst (snd ob), ps)"

text \<open>\<open>vector<shared_ptr<Writable>>::reserve\<close> on an empty vector: 16 bytes an element.\<close>

definition vector_max_size :: nat where
  "vector_max_size = 2 ^ 59 - 1"

definition reserve :: "'s platform \<Rightarrow> nat \<Rightarrow> ('st, unit) sm" where
  "reserve P n =
     (if vector_max_size < n then fail (Throw LengthError) else new_array P (16 * n))"

text \<open>\<open>_params[i]->readFields(sock)\<close>\<close>

definition at_index :: "nat \<Rightarrow> (writable, 's, int) io \<Rightarrow> (writable list, 's, int) io" where
  "at_index i rf = (\<lambda>(ps, p).
     if i < length ps then (case rf (ps ! i, p) of (r, (w, p')) \<Rightarrow> (r, (ps[i := w], p')))
     else (Inl (Undefined OutOfBounds), (ps, p)))"

text \<open>The loop over the parameters, from index \<open>i\<close>, \<open>k\<close> of them left.\<close>

primrec read_params :: "'s platform \<Rightarrow> (writable, 's, int) io \<Rightarrow> nat \<Rightarrow> nat \<Rightarrow> (writable list, 's, unit) io" where
  "read_params P rf 0 i = ret ()"
| "read_params P rf (Suc k) i =
     bind_sm (read_string P) (\<lambda>param_class.
     bind_sm (modify_obj (\<lambda>ps. ps @ [get_new_instance param_class])) (\<lambda>_.
     bind_sm (at_index i rf) (\<lambda>_.
     read_params P rf k (Suc i))))"

definition method_read_fields :: "'s platform \<Rightarrow> (writable, 's, int) io \<Rightarrow> (method_obj, 's, int) io" where
  "method_read_fields P rf =
     if_null (ret (- 1))
       (try_catch
         (bind_sm (read_string P) (\<lambda>c.
          bind_sm (modify_obj (put_class c)) (\<lambda>_.
          bind_sm (read_string P) (\<lambda>m.
          bind_sm (modify_obj (put_method m)) (\<lambda>_.
          bind_sm (sock_read P 8) (\<lambda>sb.
          if length sb = 0 then ret (- 1)
          else
            let size = unat (u64_of_bytes sb) in
            bind_sm (reserve P size) (\<lambda>_.
            bind_sm (zoom (\<lambda>ob. snd (snd ob)) put_params (read_params P rf size 0)) (\<lambda>_.
            ret 0))))))))
         (\<lambda>_. ret (- 1)))"

text \<open>
  \<open>Writable::readFields\<close>, virtual. A \<open>MethodWritable\<close> among the parameters makes it recursive,
  as deep as the bytes received say; \<open>d\<close> is the number of calls the stack can hold.
\<close>

definition as_int :: "writable \<Rightarrow> i32 option" where
  "as_int w = (case w of IntWritable v \<Rightarrow> v | _ \<Rightarrow> None)"

definition as_method :: "writable \<Rightarrow> method_obj" where
  "as_method w = (case w of MethodWritable c m ps \<Rightarrow> (c, m, ps) | _ \<Rightarrow> ([], [], []))"

definition method_of :: "method_obj \<Rightarrow> writable" where
  "method_of ob = MethodWritable (fst ob) (fst (snd ob)) (snd (snd ob))"

primrec read_fields :: "'s platform \<Rightarrow> nat \<Rightarrow> (writable, 's, int) io" where
  "read_fields P 0 = fail (Undefined StackOverflow)"
| "read_fields P (Suc d) = with_obj (\<lambda>w.
     case w of
       Writable \<Rightarrow> ret 0
     | IntWritable v \<Rightarrow> zoom as_int (\<lambda>v' _. IntWritable v') (int_read_fields P)
     | MethodWritable c m ps \<Rightarrow>
         zoom as_method (\<lambda>ob _. method_of ob) (method_read_fields P (read_fields P d)))"

fun write_fields :: "'s platform \<Rightarrow> writable \<Rightarrow> ('o, 's, int) io"
  and write_params :: "'s platform \<Rightarrow> writable list \<Rightarrow> ('o, 's, unit) io" where
  "write_fields P Writable = ret 0"
| "write_fields P (IntWritable v) = int_write P v"
| "write_fields P (MethodWritable c m ps) =
     if_null (ret (- 1))
       (try_catch
         (bind_sm (write_string P c) (\<lambda>_.
          bind_sm (write_string P m) (\<lambda>_.
          bind_sm (sock_write P (u64_bytes (word_of_nat (length ps)))) (\<lambda>l.
          if l = 0 then ret (- 1)
          else bind_sm (write_params P ps) (\<lambda>_. ret 0)))))
         (\<lambda>_. ret (- 1)))"
| "write_params P [] = ret ()"
| "write_params P (w # ws) =
     bind_sm (write_string P (get_class w)) (\<lambda>_.
     bind_sm (write_fields P w) (\<lambda>_.
     write_params P ws))"

section \<open>Texts\<close>

text \<open>\<open>std::to_string\<close> of an \<open>int\<close>, and integers inserted into a \<open>stringstream\<close>.\<close>

fun dec_nat :: "nat \<Rightarrow> string" where
  "dec_nat n = (if n < 10 then [char_of (48 + n)] else dec_nat (n div 10) @ [char_of (48 + n mod 10)])"

definition dec_int :: "int \<Rightarrow> string" where
  "dec_int x = (if x < 0 then CHR ''-'' # dec_nat (nat (- x)) else dec_nat (nat x))"

text \<open>\<open>toString\<close> and \<open>printToString\<close>; a method that returns \<open>NULL\<close> as a string throws.\<close>

definition to_string :: "writable \<Rightarrow> fault + string" where
  "to_string w = (case w of
       IntWritable (Some x) \<Rightarrow> Inr (i32_bytes x)
     | IntWritable None \<Rightarrow> Inl (Undefined UninitRead)
     | _ \<Rightarrow> Inl (Throw LogicError))"

definition print_to_string :: "writable \<Rightarrow> fault + string" where
  "print_to_string w = (case w of
       IntWritable (Some x) \<Rightarrow> Inr (dec_int (sint x))
     | IntWritable None \<Rightarrow> Inl (Undefined UninitRead)
     | MethodWritable c m ps \<Rightarrow> Inr (''class : '' @ c @ '' , method : '' @ m)
     | Writable \<Rightarrow> Inl (Throw LogicError))"

section \<open>The methods refine the machine of byte streams\<close>

declare dec_nat.simps [simp del]

lemma sim_write_string [sim_intros]:
  "duplex P rx tx \<Longrightarrow> sim rx tx (write_string P str) (write_string (stream_platform P) str)"
  unfolding write_string_def Let_def by (intro sim_intros)

lemma sim_read_string [sim_intros]:
  "duplex P rx tx \<Longrightarrow> sim rx tx (read_string P) (read_string (stream_platform P))"
  unfolding read_string_def Let_def by (intro sim_intros)

lemma sim_int_read_fields [sim_intros]:
  "duplex P rx tx \<Longrightarrow> sim rx tx (int_read_fields P) (int_read_fields (stream_platform P))"
  unfolding int_read_fields_def Let_def by (intro sim_intros)

lemma sim_int_write [sim_intros]:
  assumes "duplex P rx tx"
  shows "sim rx tx (int_write P v) (int_write (stream_platform P) v)"
  unfolding int_write_def using assms by (cases v) (auto intro!: sim_intros)

lemma sim_at_index [sim_intros]:
  assumes rf: "sim rx tx rf rf'"
  shows "sim rx tx (at_index i rf) (at_index i rf')"
proof (rule simI)
  fix ps :: "writable list" and p
  obtain r w p1 where run: "rf (ps ! i, p) = (r, (w, p1))" by (metis prod.exhaust)
  show "at_index i rf' (ps, view rx tx p) =
      (case at_index i rf (ps, p) of (r, ob', p') \<Rightarrow> (r, ob', view rx tx p'))"
    using simD [OF rf run] by (simp add: at_index_def run)
qed

lemma sim_reserve [sim_intros]: "sim rx tx (reserve P n) (reserve (stream_platform P) n)"
  unfolding reserve_def by (intro sim_intros)

lemma sim_read_params [sim_intros]:
  assumes "duplex P rx tx" and "sim rx tx rf rf'"
  shows "sim rx tx (read_params P rf k i) (read_params (stream_platform P) rf' k i)"
  by (induction k arbitrary: i) (auto intro!: sim_intros assms)

lemma sim_method_read_fields [sim_intros]:
  assumes "duplex P rx tx" and "sim rx tx rf rf'"
  shows "sim rx tx (method_read_fields P rf) (method_read_fields (stream_platform P) rf')"
  unfolding method_read_fields_def Let_def by (intro sim_intros assms)

lemma sim_read_fields [sim_intros]:
  assumes P: "duplex P rx tx"
  shows "sim rx tx (read_fields P d) (read_fields (stream_platform P) d)"
proof (induction d)
  case 0
  then show ?case by (auto intro: sim_intros)
next
  case (Suc d)
  show ?case unfolding read_fields.simps
    by (rule sim_with_obj) (auto split: writable.split intro!: sim_intros P Suc)
qed

lemma sim_write_params_all:
  assumes P: "duplex P rx tx"
    and each: "\<And>w. w \<in> set ws \<Longrightarrow> sim rx tx (write_fields P w :: ('o, 's, int) io) (write_fields (stream_platform P) w)"
  shows "sim rx tx (write_params P ws :: ('o, 's, unit) io) (write_params (stream_platform P) ws)"
  using each
proof (induction ws)
  case Nil
  show ?case by (simp add: sim_intros)
next
  case (Cons w ws)
  then show ?case unfolding write_params.simps by (intro sim_intros P) simp_all
qed

lemma sim_write_fields [sim_intros]:
  assumes P: "duplex P rx tx"
  shows "sim rx tx (write_fields P w) (write_fields (stream_platform P) w)"
  by (induction w) (auto intro!: sim_intros P sim_write_params_all)

lemma sim_write_params [sim_intros]:
  "duplex P rx tx \<Longrightarrow> sim rx tx (write_params P ws) (write_params (stream_platform P) ws)"
  by (intro sim_write_params_all sim_write_fields)

end
