(* ===== verification/Wire_Format.thy ===== *)
theory Wire_Format
  imports Writables
begin

text \<open>
  The wire format as a specification, and what writing and reading do to it.

  \<open>enc w\<close> is the bytes of a value. Writing a value appends exactly these bytes to the outgoing
  stream, and reading them back gives \<open>wire_image w\<close>: the value with each string cut at its
  first NUL and each integer cut to its lowest byte. The values of \<open>wire_exact\<close> are those that
  come back unchanged.
\<close>

section \<open>Specification\<close>

definition enc_string :: "string \<Rightarrow> string" where
  "enc_string str =
     (let len = (word_of_nat (length str) :: i32) in if len = 0 then [] else i32_bytes len @ str)"

fun enc :: "writable \<Rightarrow> string"
  and enc_params :: "writable list \<Rightarrow> string" where
  "enc Writable = []"
| "enc (IntWritable v) = u64_bytes 4 @ (case v of None \<Rightarrow> [] | Some x \<Rightarrow> i32_bytes x)"
| "enc (MethodWritable c m ps) =
     enc_string c @ enc_string m @ u64_bytes (word_of_nat (length ps)) @ enc_params ps"
| "enc_params [] = []"
| "enc_params (w # ws) = enc_string (get_class w) @ enc w @ enc_params ws"

definition trunc8 :: "i32 \<Rightarrow> i32" where
  "trunc8 x = scast (ucast x :: 8 word)"

fun wire_image :: "writable \<Rightarrow> writable" where
  "wire_image Writable = Writable"
| "wire_image (IntWritable v) = IntWritable (map_option trunc8 v)"
| "wire_image (MethodWritable c m ps) = MethodWritable (c_str c) (c_str m) (map wire_image ps)"

text \<open>Which values can be written, and which messages can be read, on a heap of \<open>M\<close> bytes.\<close>

fun initialised :: "writable \<Rightarrow> bool" where
  "initialised Writable = True"
| "initialised (IntWritable v) = (v \<noteq> None)"
| "initialised (MethodWritable c m ps) = list_all initialised ps"

definition str_ok :: "nat \<Rightarrow> string \<Rightarrow> bool" where
  "str_ok M str \<longleftrightarrow> str \<noteq> [] \<and> length str < 2 ^ 31 - 1 \<and> length str + 1 \<le> M"

fun wire_ok :: "nat \<Rightarrow> writable \<Rightarrow> bool" where
  "wire_ok M Writable = True"
| "wire_ok M (IntWritable v) = (v \<noteq> None \<and> 5 \<le> M)"
| "wire_ok M (MethodWritable c m ps) =
     (str_ok M c \<and> str_ok M m \<and> length ps \<le> vector_max_size \<and> 16 * length ps \<le> M \<and>
      list_all (\<lambda>w. str_ok M (get_class w) \<and> wire_ok M w) ps)"

fun wire_exact :: "writable \<Rightarrow> bool" where
  "wire_exact Writable = True"
| "wire_exact (IntWritable v) = (case v of None \<Rightarrow> True | Some x \<Rightarrow> - 128 \<le> sint x \<and> sint x < 128)"
| "wire_exact (MethodWritable c m ps) =
     (CHR 0x00 \<notin> set c \<and> CHR 0x00 \<notin> set m \<and> list_all wire_exact ps)"

text \<open>How deep the calls of \<open>readFields\<close> nest, and what the outermost one returns.\<close>

fun nest :: "writable \<Rightarrow> nat" where
  "nest Writable = 1"
| "nest (IntWritable v) = 1"
| "nest (MethodWritable c m ps) = Suc (foldr (\<lambda>w. max (nest w)) ps 0)"

fun rw_code :: "writable \<Rightarrow> int" where
  "rw_code Writable = 0"
| "rw_code (IntWritable v) = 4"
| "rw_code (MethodWritable c m ps) = 0"

section \<open>Integers cut to a byte\<close>

lemma i32_bytes_Cons: "i32_bytes x = char_of (unat x) # nat_bytes 3 (unat x div 256)"
  unfolding i32_bytes_def using nat_bytes.simps(2) [of 3 "unat x"] by simp

lemma char_to_int_low_byte: "char_to_int (char_of (unat x)) = trunc8 x"
proof -
  have "(word_of_nat (unat x mod 256) :: 8 word) = ucast x"
    by (rule unsigned_word_eqI [where 'a = nat])
      (simp add: unsigned_of_nat unsigned_ucast_eq take_bit_eq_mod)
  then show ?thesis by (simp add: char_to_int_def trunc8_def)
qed

lemma sint_trunc8: "sint (trunc8 x) = signed_take_bit 7 (sint x)"
proof -
  have "sint (trunc8 x) = signed_take_bit 31 (sint (ucast x :: 8 word))"
    unfolding trunc8_def by (rule signed_scast_eq [of "ucast x :: 8 word", where 'c = 32, simplified])
  also have "sint (ucast x :: 8 word) = signed_take_bit 7 (uint x)"
    by (rule signed_ucast_eq [of x, where 'c = 8, simplified])
  finally show ?thesis by (simp add: sint_uint)
qed

lemma sint_trunc8_bounds: "- 128 \<le> sint (trunc8 x)" "sint (trunc8 x) < 128"
  using signed_take_bit_int_greater_eq_minus_exp [of 7 "sint x"]
    signed_take_bit_int_less_exp [of 7 "sint x"]
  by (simp_all add: sint_trunc8)

lemma trunc8_id_iff: "trunc8 x = x \<longleftrightarrow> - 128 \<le> sint x \<and> sint x < 128"
proof
  assume "trunc8 x = x"
  then show "- 128 \<le> sint x \<and> sint x < 128" using sint_trunc8_bounds [of x] by simp
next
  assume "- 128 \<le> sint x \<and> sint x < 128"
  then have "sint (trunc8 x) = sint x"
    by (simp add: sint_trunc8 signed_take_bit_int_eq_self)
  then show "trunc8 x = x" by (rule signed_word_eqI)
qed

section \<open>Writing\<close>

lemma to_int_small: "n < 2 ^ 31 \<Longrightarrow> to_int n = int n"
  by (simp add: to_int_def signed_of_nat signed_take_bit_int_eq_self)

lemma write_string_stream:
  "write_string (stream_platform P) str (ob, Some (i, out)) =
     (Inr (if (word_of_nat (length str) :: i32) = 0 then 0 else to_int (length str)),
      (ob, Some (i, out @ enc_string str)))"
  by (simp add: write_string_def enc_string_def Let_def sm_simps)

lemma int_write_stream:
  "int_write (stream_platform P) (Some x) (ob, Some (i, out)) =
     (Inr 4, (ob, Some (i, out @ enc (IntWritable (Some x)))))"
  by (simp add: int_write_def sm_simps to_int_small)

lemma write_params_stream_all:
  assumes "\<And>w i out. w \<in> set ws \<Longrightarrow>
     write_fields (stream_platform P) w (ob, Some (i, out)) = (Inr (rw_code w), (ob, Some (i, out @ enc w)))"
  shows "write_params (stream_platform P) ws (ob, Some (i, out)) = (Inr (), (ob, Some (i, out @ enc_params ws)))"
  using assms
proof (induction ws arbitrary: out)
  case Nil
  then show ?case by (simp add: sm_simps)
next
  case (Cons w ws)
  then show ?case by (simp add: sm_simps write_string_stream)
qed

lemma write_fields_stream:
  "initialised w \<Longrightarrow>
   write_fields (stream_platform P) w (ob, Some (i, out)) = (Inr (rw_code w), (ob, Some (i, out @ enc w)))"
proof (induction w arbitrary: i out)
  case Writable
  then show ?case by (simp add: sm_simps)
next
  case (IntWritable v)
  then show ?case by (auto simp: int_write_stream)
next
  case (MethodWritable c m ps)
  have 3: "write_params (stream_platform P) ps (ob, Some (i, out')) =
      (Inr (), (ob, Some (i, out' @ enc_params ps)))" for out'
    using MethodWritable by (intro write_params_stream_all) (auto simp: list_all_iff)
  show ?case by (simp add: sm_simps write_string_stream 3)
qed

section \<open>Reading\<close>

lemma take_drop_prefix: "length bs = n \<Longrightarrow> take n (bs @ rest) = bs \<and> drop n (bs @ rest) = rest"
  by auto

lemma sint_small_nat: "n < 2 ^ 31 \<Longrightarrow> sint (word_of_nat n :: i32) = int n"
  by (simp add: signed_of_nat signed_take_bit_int_eq_self)

lemma read_string_stream:
  assumes "str_ok (max_alloc P) str"
  shows "read_string (stream_platform P) (ob, Some (enc_string str @ rest, out)) =
     (Inr (c_str str), (ob, Some (rest, out)))"
proof -
  let ?len = "word_of_nat (length str) :: i32"
  have bounds: "0 < length str" "length str < 2 ^ 31 - 1" "length str + 1 \<le> max_alloc P"
    using assms by (auto simp: str_ok_def)
  then have s: "sint ?len = int (length str)" by (intro sint_small_nat) simp
  with bounds have nz: "?len \<noteq> 0" by auto
  have e: "enc_string str = i32_bytes ?len @ str" using nz by (simp add: enc_string_def Let_def)
  have add: "add_i32 ?len 1 = Inr (?len + 1)"
    using bounds s by (intro add_i32_ok) simp_all
  have n: "nat (sint (?len + 1)) = length str + 1"
    using add_i32_Inr [OF add] s by simp
  show ?thesis
    using bounds by (simp add: read_string_def Let_def sm_simps e s add n)
qed

lemma int_read_fields_stream:
  assumes "5 \<le> max_alloc P"
  shows "int_read_fields (stream_platform P) (v, Some (u64_bytes 4 @ i32_bytes x @ rest, out)) =
     (Inr 4, (Some (trunc8 x), Some (rest, out)))"
  using assms
  by (simp add: int_read_fields_def Let_def sm_simps to_int_small i32_bytes_Cons char_to_int_low_byte)

lemma u64_bytes_not_Nil [simp]: "u64_bytes x \<noteq> []"
  using length_u64_bytes [of x] by (metis length_0_conv zero_neq_numeral)

lemma as_int_IntWritable [simp]: "as_int (IntWritable v) = v"
  by (simp add: as_int_def)

lemma as_method_MethodWritable [simp]: "as_method (MethodWritable c m ps) = (c, m, ps)"
  by (simp add: as_method_def)

lemma method_of_simp [simp]: "method_of (c, m, ps) = MethodWritable c m ps"
  by (simp add: method_of_def)

lemma get_new_instance_simps [simp]:
  "get_new_instance ''Writable'' = Writable"
  "get_new_instance ''IntWritable'' = IntWritable None"
  "get_new_instance ''MethodWritable'' = MethodWritable [] [] []"
  by (simp_all add: get_new_instance_def)

lemma c_str_get_class [simp]: "c_str (get_class w) = get_class w"
  by (cases w) (simp_all add: c_str_def)

text \<open>The loop: a parameter list read back element by element.\<close>

lemma read_params_stream_all:
  assumes "\<And>w i out. w \<in> set ws \<Longrightarrow>
      rf (get_new_instance (get_class w), Some (enc w @ i, out)) = (Inr (rw_code w), (wire_image w, Some (i, out)))"
    and "\<And>w. w \<in> set ws \<Longrightarrow> str_ok (max_alloc P) (get_class w)"
  shows "read_params (stream_platform P) rf (length ws) (length ps) (ps, Some (enc_params ws @ rest, out)) =
     (Inr (), (ps @ map wire_image ws, Some (rest, out)))"
  using assms
proof (induction ws arbitrary: ps)
  case Nil
  then show ?case by (simp add: sm_simps)
next
  case (Cons w ws)
  have 1: "read_string (stream_platform P) (ps, Some (enc_string (get_class w) @ enc w @ enc_params ws @ rest, out)) =
      (Inr (get_class w), (ps, Some (enc w @ enc_params ws @ rest, out)))"
    using Cons.prems(2) by (simp add: read_string_stream)
  have 2: "at_index (length ps) rf (ps @ [get_new_instance (get_class w)], Some (enc w @ enc_params ws @ rest, out)) =
      (Inr (rw_code w), (ps @ [wire_image w], Some (enc_params ws @ rest, out)))"
    using Cons.prems(1) [of w] by (simp add: at_index_def)
  have 3: "read_params (stream_platform P) rf (length ws) (length (ps @ [wire_image w]))
      (ps @ [wire_image w], Some (enc_params ws @ rest, out)) =
      (Inr (), ((ps @ [wire_image w]) @ map wire_image ws, Some (rest, out)))"
    using Cons.prems by (intro Cons.IH) auto
  show ?case using 3 by (simp add: sm_simps 1 2)
qed

lemma nest_le_foldr: "w \<in> set ps \<Longrightarrow> nest w \<le> foldr (\<lambda>w. max (nest w)) ps 0"
  by (induction ps) auto

lemma unat_size: "n \<le> vector_max_size \<Longrightarrow> unat (word_of_nat n :: u64) = n"
  by (simp add: unsigned_of_nat vector_max_size_def take_bit_nat_eq_self)

lemma read_fields_stream:
  "nest w \<le> d \<Longrightarrow> wire_ok (max_alloc P) w \<Longrightarrow>
   read_fields (stream_platform P) d (get_new_instance (get_class w), Some (enc w @ rest, out)) =
     (Inr (rw_code w), (wire_image w, Some (rest, out)))"
proof (induction w arbitrary: d rest out)
  case Writable
  then show ?case by (cases d) (simp_all add: sm_simps)
next
  case (IntWritable v)
  then show ?case
    by (cases d) (auto simp: sm_simps int_read_fields_stream)
next
  case (MethodWritable c m ps)
  from MethodWritable.prems(1) obtain d' where d: "d = Suc d'"
    by (cases d) auto
  have each: "read_fields (stream_platform P) d' (get_new_instance (get_class w), Some (enc w @ i, out)) =
      (Inr (rw_code w), (wire_image w, Some (i, out)))" if "w \<in> set ps" for w i out
    using MethodWritable.prems that nest_le_foldr [OF that]
    by (intro MethodWritable.IH) (auto simp: d list_all_iff)
  have params: "read_params (stream_platform P) (read_fields (stream_platform P) d') (length ps) 0
      ([], Some (enc_params ps @ rest, out)) = (Inr (), (map wire_image ps, Some (rest, out)))"
    using MethodWritable.prems each
    read_params_stream_all [of ps "read_fields (stream_platform P) d'" P "[]" rest out]
    by (auto simp: list_all_iff)
  have size: "unat (word_of_nat (length ps) :: u64) = length ps"
    using MethodWritable.prems by (intro unat_size) simp
  show ?case
    using MethodWritable.prems
    by (simp add: d sm_simps method_read_fields_def Let_def read_string_stream put_class_def
        put_method_def put_params_def size reserve_def params)
qed

section \<open>The round trip\<close>

lemma wire_ok_initialised: "wire_ok M w \<Longrightarrow> initialised w"
  by (induction w) (auto simp: list_all_iff)

text \<open>On any platform: what a write sends, and what reading exactly that gives.\<close>

lemma write_fields_sends:
  assumes "duplex P rx tx" and "initialised w"
  shows "\<exists>s'. write_fields P w (ob, Some s) = (Inr (rw_code w), (ob, Some s')) \<and>
     rx s' = rx s \<and> tx s' = tx s @ enc w"
  using sim_run [OF sim_write_fields [OF assms(1)] write_fields_stream [OF assms(2)]] .

lemma read_fields_receives:
  assumes "duplex P rx tx" and "nest w \<le> d" and "wire_ok (max_alloc P) w" and "rx t = enc w @ rest"
  shows "\<exists>t'. read_fields P d (get_new_instance (get_class w), Some t) =
     (Inr (rw_code w), (wire_image w, Some t')) \<and> rx t' = rest \<and> tx t' = tx t"
  using sim_run [OF sim_read_fields [OF assms(1)], of d "get_new_instance (get_class w)" t]
    read_fields_stream [OF assms(2,3)] assms(4) by simp

text \<open>
  C17. A value written to one socket and received over another is read back, by a fresh object
  of the class it announces, as its wire image, and the reader stops exactly at its end: for
  every platform that satisfies the socket contract, every value whose strings are non-empty
  and fit in the heap, and every stack deep enough for the nesting of the value.
\<close>

theorem writable_roundtrip:
  assumes "duplex P rx tx" and "wire_ok (max_alloc P) w" and "nest w \<le> d"
    and "write_fields P w ((), Some s) = (r, ((), Some s'))"
    and "tx s' = tx s @ bs" and "rx t = bs @ rest"
  shows "\<exists>t'. read_fields P d (get_new_instance (get_class w), Some t) =
     (r, (wire_image w, Some t')) \<and> rx t' = rest"
proof -
  from write_fields_sends [OF assms(1) wire_ok_initialised [OF assms(2)], of "()" s] assms(4,5)
  have "r = Inr (rw_code w)" and "bs = enc w" by auto
  with read_fields_receives [OF assms(1,3,2), of t rest] assms(6) show ?thesis by auto
qed

text \<open>A call as \<open>DataNodeProtocol::create\<close> sends it, for the witnesses.\<close>

definition sample_call :: writable where
  "sample_call = MethodWritable ''NameNode'' ''create''
     [IntWritable (Some 12), IntWritable (Some 23), IntWritable (Some 34), IntWritable (Some 45)]"

theorem writable_roundtrip_witness:
  "\<exists>t'. read_fields (machine 100) 2 (MethodWritable [] [] [], Some (enc sample_call @ ''rest'', [])) =
     (Inr 0, (sample_call, Some t')) \<and> fst t' = ''rest''"
proof -
  have "wire_ok (max_alloc (machine 100)) sample_call" and "nest sample_call \<le> 2"
    and "write_fields (machine 100) sample_call ((), Some ([], [])) = (Inr 0, ((), Some ([], enc sample_call)))"
    and "wire_image sample_call = sample_call"
    and "get_new_instance (get_class sample_call) = MethodWritable [] [] []"
    by code_simp+
  with writable_roundtrip [OF duplex_machine this(1,2,3), of "enc sample_call" "(enc sample_call @ ''rest'', [])" "''rest''"]
  show ?thesis by simp
qed


end
