(* ===== verification/Wire_Safety.thy ===== *)
theory Wire_Safety
  imports Wire_Format
begin

text \<open>
  What the readers do on bytes nobody has checked: how much of the stream they take, when the
  recursion of \<open>MethodWritable::readFields\<close> exhausts the stack, which integers they can
  produce, and how the length fields lead out of the language.
\<close>

section \<open>Consumption, and depth of recursion\<close>

text \<open>
  \<open>eats k m\<close>: on the machine, \<open>m\<close> never puts bytes back, sends nothing, and takes at least \<open>k\<close> of them when it
  succeeds. \<open>no_overflow n m\<close>: on fewer than \<open>n\<close> bytes it does not run out of stack.
\<close>

definition eats :: "nat \<Rightarrow> ('o, wire, 'a) io \<Rightarrow> bool" where
  "eats k m \<longleftrightarrow> (\<forall>ob i out. \<exists>r ob' i'. m (ob, Some (i, out)) = (r, (ob', Some (i', out))) \<and>
     length i' \<le> length i \<and> (\<forall>x. r = Inr x \<longrightarrow> length i' + k \<le> length i))"

definition no_overflow :: "nat \<Rightarrow> ('o, wire, 'a) io \<Rightarrow> bool" where
  "no_overflow n m \<longleftrightarrow>
     (\<forall>ob i out. length i < n \<longrightarrow> fst (m (ob, Some (i, out))) \<noteq> Inl (Undefined StackOverflow))"

named_theorems eats_intros \<open>what the constructs of a method take from the stream\<close>
named_theorems no_overflow_intros \<open>when the constructs of a method stay within the stack\<close>

lemma eatsE:
  assumes "eats k m"
  obtains r ob' i' where "m (ob, Some (i, out)) = (r, (ob', Some (i', out)))"
    "length i' \<le> length i" "\<And>x. r = Inr x \<Longrightarrow> length i' + k \<le> length i"
  using assms unfolding eats_def by metis

lemma eats_ret [eats_intros]: "eats 0 (ret x)"
  by (simp add: eats_def sm_simps)

lemma eats_fail [eats_intros]: "eats k (fail e)"
  by (simp add: eats_def sm_simps)

lemma eats_lift_sum [eats_intros]: "eats 0 (lift_sum r)"
  by (simp add: eats_def sm_simps)

lemma eats_modify_obj [eats_intros]: "eats 0 (modify_obj f)"
  by (simp add: eats_def sm_simps)

lemma eats_new_array [eats_intros]: "eats 0 (new_array P n)"
  by (simp add: eats_def sm_simps)

lemma eats_sock_read [eats_intros]: "eats n (sock_read (stream_platform P) n)"
  by (auto simp: eats_def sm_simps)

lemma eats_weaken: "eats k m \<Longrightarrow> j \<le> k \<Longrightarrow> eats j m"
  unfolding eats_def by (meson add_le_mono le_refl order_trans)

lemma eats_bind [eats_intros]:
  assumes m: "eats k m" and f: "\<And>x. eats j (f x)"
  shows "eats (k + j) (bind_sm m f)"
  unfolding eats_def
proof (intro allI)
  fix ob i out
  obtain r ob1 i1 where 1: "m (ob, Some (i, out)) = (r, (ob1, Some (i1, out)))"
    "length i1 \<le> length i" "\<And>x. r = Inr x \<Longrightarrow> length i1 + k \<le> length i"
    using eatsE [OF m, of ob i out] by metis
  show "\<exists>r ob' i'. bind_sm m f (ob, Some (i, out)) = (r, (ob', Some (i', out))) \<and>
      length i' \<le> length i \<and> (\<forall>x. r = Inr x \<longrightarrow> length i' + (k + j) \<le> length i)"
  proof (cases r)
    case (Inl e)
    with 1 show ?thesis by (simp add: sm_simps)
  next
    case (Inr x)
    obtain r2 ob2 i2 where 2: "f x (ob1, Some (i1, out)) = (r2, (ob2, Some (i2, out)))"
      "length i2 \<le> length i1" "\<And>x. r2 = Inr x \<Longrightarrow> length i2 + j \<le> length i1"
      using eatsE [OF f [of x], of ob1 i1 out] by metis
    from 1(3) [OF Inr] 2 show ?thesis by (fastforce simp: sm_simps 1(1) Inr)
  qed
qed

lemma eats_bind0: "eats k m \<Longrightarrow> (\<And>x. eats 0 (f x)) \<Longrightarrow> eats 0 (bind_sm m f)"
  using eats_bind eats_weaken zero_le by metis

lemma eats_try_catch [eats_intros]:
  assumes m: "eats k m" and h: "\<And>e. eats 0 (h e)"
  shows "eats 0 (try_catch m h)"
  unfolding eats_def
proof (intro allI)
  fix ob i out
  obtain r ob1 i1 where 1: "m (ob, Some (i, out)) = (r, (ob1, Some (i1, out)))" "length i1 \<le> length i"
    using eatsE [OF m, of ob i out] by metis
  show "\<exists>r ob' i'. try_catch m h (ob, Some (i, out)) = (r, (ob', Some (i', out))) \<and>
      length i' \<le> length i \<and> (\<forall>x. r = Inr x \<longrightarrow> length i' + 0 \<le> length i)"
  proof (cases "\<exists>e. r = Inl (Throw e)")
    case True
    then obtain e where e: "r = Inl (Throw e)" by blast
    obtain r2 ob2 i2 where "h e (ob1, Some (i1, out)) = (r2, (ob2, Some (i2, out)))" "length i2 \<le> length i1"
      using eatsE [OF h [of e], of ob1 i1 out] by metis
    with 1 show ?thesis by (simp add: sm_simps e)
  next
    case False
    with 1 show ?thesis by (auto simp: sm_simps split: sum.splits fault.splits)
  qed
qed

lemma eats_if_null [eats_intros]: "eats k m' \<Longrightarrow> eats k (if_null m m')"
  by (simp add: eats_def sm_simps)

lemma eats_if [eats_intros]: "eats k m \<Longrightarrow> eats k m' \<Longrightarrow> eats k (if b then m else m')"
  by simp

lemma eats_zoom [eats_intros]:
  assumes "eats k m"
  shows "eats k (zoom get put m)"
  unfolding eats_def
proof (intro allI)
  fix ob i out
  show "\<exists>r ob' i'. zoom get put m (ob, Some (i, out)) = (r, (ob', Some (i', out))) \<and>
      length i' \<le> length i \<and> (\<forall>x. r = Inr x \<longrightarrow> length i' + k \<le> length i)"
    by (rule eatsE [OF assms, of "get ob" i out]) (auto simp: zoom_run)
qed

lemma no_overflow_bind [no_overflow_intros]:
  assumes m: "no_overflow n m" "eats k m" and f: "\<And>x. no_overflow (n - k) (f x)"
  shows "no_overflow n (bind_sm m f)"
  unfolding no_overflow_def
proof (intro allI impI)
  fix ob i out
  assume n: "length (i :: string) < n"
  obtain r ob1 i1 where 1: "m (ob, Some (i, out)) = (r, (ob1, Some (i1, out)))"
    "\<And>x. r = Inr x \<Longrightarrow> length i1 + k \<le> length i"
    using eatsE [OF m(2), of ob i out] by metis
  have r: "r \<noteq> Inl (Undefined StackOverflow)"
    using m(1) n 1(1) unfolding no_overflow_def by (metis fst_conv)
  show "fst (bind_sm m f (ob, Some (i, out))) \<noteq> Inl (Undefined StackOverflow)"
  proof (cases r)
    case (Inl e)
    with 1 r show ?thesis by (simp add: sm_simps)
  next
    case (Inr x)
    from 1(2) [OF Inr] n have "length i1 < n - k" by simp
    with f [of x] show ?thesis by (simp add: no_overflow_def sm_simps 1(1) Inr)
  qed
qed

lemma no_overflow_ret [no_overflow_intros]: "no_overflow n (ret x)"
  by (simp add: no_overflow_def sm_simps)

lemma no_overflow_fail [no_overflow_intros]: "e \<noteq> Undefined StackOverflow \<Longrightarrow> no_overflow n (fail e)"
  by (simp add: no_overflow_def sm_simps)

lemma no_overflow_modify_obj [no_overflow_intros]: "no_overflow n (modify_obj f)"
  by (simp add: no_overflow_def sm_simps)

lemma no_overflow_new_array [no_overflow_intros]: "no_overflow n (new_array P k)"
  by (simp add: no_overflow_def sm_simps)

lemma no_overflow_add [no_overflow_intros]: "no_overflow n (lift_sum (add_i32 a b))"
  by (simp add: no_overflow_def sm_simps add_i32_def)

lemma no_overflow_sock_read [no_overflow_intros]: "no_overflow n (sock_read (stream_platform P) k)"
  by (auto simp: no_overflow_def sm_simps)

lemma no_overflow_try_catch [no_overflow_intros]:
  assumes m: "no_overflow n m" and h: "\<And>e st. fst (h e st) \<noteq> Inl (Undefined StackOverflow)"
  shows "no_overflow n (try_catch m h)"
  unfolding no_overflow_def
proof (intro allI impI)
  fix ob i out
  assume "length (i :: string) < n"
  with m have "fst (m (ob, Some (i, out))) \<noteq> Inl (Undefined StackOverflow)"
    by (simp add: no_overflow_def)
  then show "fst (try_catch m h (ob, Some (i, out))) \<noteq> Inl (Undefined StackOverflow)"
    using h by (auto simp: sm_simps split: prod.splits sum.splits fault.splits)
qed

lemma no_overflow_if_null [no_overflow_intros]: "no_overflow n m' \<Longrightarrow> no_overflow n (if_null m m')"
  by (simp add: no_overflow_def sm_simps)

lemma no_overflow_if [no_overflow_intros]:
  "no_overflow n m \<Longrightarrow> no_overflow n m' \<Longrightarrow> no_overflow n (if b then m else m')"
  by simp

lemma fst_zoom: "fst (zoom get put m (ob, p)) = fst (m (get ob, p))"
  by (simp add: zoom_run split: prod.splits)

lemma no_overflow_zoom [no_overflow_intros]: "no_overflow n m \<Longrightarrow> no_overflow n (zoom get put m)"
  by (simp add: no_overflow_def fst_zoom)

lemma no_overflow_mono: "no_overflow n m \<Longrightarrow> n' \<le> n \<Longrightarrow> no_overflow n' m"
  by (auto simp: no_overflow_def)

section \<open>The readers\<close>

lemma eats_read_string [eats_intros]: "eats 5 (read_string (stream_platform P))"
  by (auto simp: eats_def read_string_def Let_def sm_simps add_i32_def split: if_splits)

lemma no_overflow_read_string [no_overflow_intros]: "no_overflow n (read_string (stream_platform P))"
  by (auto simp: no_overflow_def read_string_def Let_def sm_simps add_i32_def split: if_splits)

lemma eats_int_read_fields [eats_intros]: "eats 0 (int_read_fields (stream_platform P))"
  by (auto simp: eats_def int_read_fields_def Let_def sm_simps split: if_splits)

lemma no_overflow_int_read_fields [no_overflow_intros]: "no_overflow n (int_read_fields (stream_platform P))"
  by (auto simp: no_overflow_def int_read_fields_def Let_def sm_simps split: if_splits)

lemma eats_reserve [eats_intros]: "eats 0 (reserve P n)"
  by (simp add: eats_def reserve_def sm_simps)

lemma no_overflow_reserve [no_overflow_intros]: "no_overflow n (reserve P k)"
  by (simp add: no_overflow_def reserve_def sm_simps)

lemma eats_at_index [eats_intros]:
  assumes "eats 0 rf"
  shows "eats 0 (at_index j rf)"
  unfolding eats_def
proof (intro allI)
  fix ps i out
  show "\<exists>r ob' i'. at_index j rf (ps, Some (i, out)) = (r, (ob', Some (i', out))) \<and>
      length i' \<le> length i \<and> (\<forall>x. r = Inr x \<longrightarrow> length i' + 0 \<le> length i)"
    by (rule eatsE [OF assms, of "ps ! j" i out]) (auto simp: at_index_def)
qed

lemma no_overflow_at_index [no_overflow_intros]: "no_overflow n rf \<Longrightarrow> no_overflow n (at_index j rf)"
  by (auto simp: no_overflow_def at_index_def split: prod.splits) (metis fst_conv)

lemma eats_read_params [eats_intros]:
  assumes "eats 0 rf"
  shows "eats 0 (read_params (stream_platform P) rf k i)"
proof (induction k arbitrary: i)
  case 0
  show ?case by (simp add: eats_intros)
next
  case (Suc k)
  have "eats (5 + (0 + (0 + 0))) (read_params (stream_platform P) rf (Suc k) i)"
    unfolding read_params.simps by (intro eats_intros assms Suc)
  then show ?case by (rule eats_weaken) simp
qed

lemma no_overflow_read_params:
  assumes rf: "no_overflow n rf" "eats 0 rf"
  shows "N \<le> n + 5 \<Longrightarrow> no_overflow N (read_params (stream_platform P) rf k i)"
proof (induction k arbitrary: i N)
  case 0
  show ?case by (simp add: no_overflow_intros)
next
  case (Suc k)
  have rf': "no_overflow (N - 5 - 0) rf" using rf(1) Suc.prems by (auto intro: no_overflow_mono)
  show ?case unfolding read_params.simps
    by (rule no_overflow_bind no_overflow_read_string eats_read_string no_overflow_modify_obj eats_modify_obj
        no_overflow_at_index eats_at_index rf' rf(2) Suc.IH)+ (use Suc.prems in simp)
qed

lemma eats_method_read_fields [eats_intros]:
  assumes "eats 0 rf"
  shows "eats 0 (method_read_fields (stream_platform P) rf)"
proof -
  have params: "eats 0 (zoom get put (read_params (stream_platform P) rf k 0))" for get put k
    by (intro eats_intros assms)
  show ?thesis
    unfolding method_read_fields_def Let_def
    by (rule eats_if_null eats_try_catch eats_bind0 eats_read_string eats_modify_obj eats_sock_read eats_if
        eats_ret eats_reserve params)+
qed

lemma no_overflow_method_read_fields:
  assumes rf: "no_overflow n rf" "eats 0 rf" and N: "N \<le> n + 23"
  shows "no_overflow N (method_read_fields (stream_platform P) rf)"
proof -
  have params: "no_overflow (N - 5 - 0 - 5 - 0 - 8 - 0)
      (zoom get put (read_params (stream_platform P) rf k 0))" for get put k
    by (rule no_overflow_zoom no_overflow_read_params rf)+ (use N in simp)
  have eats_params: "eats 0 (zoom get put (read_params (stream_platform P) rf k 0))" for get put k
    by (intro eats_intros rf(2))
  show ?thesis
    unfolding method_read_fields_def Let_def
    by (rule no_overflow_if_null no_overflow_try_catch no_overflow_bind no_overflow_read_string eats_read_string
        no_overflow_modify_obj eats_modify_obj no_overflow_sock_read eats_sock_read no_overflow_if
        no_overflow_ret no_overflow_reserve eats_reserve params eats_params)+ (simp add: sm_simps)
qed

lemma eats_with_obj [eats_intros]: "(\<And>ob. eats k (f ob)) \<Longrightarrow> eats k (with_obj f)"
  by (simp add: eats_def sm_simps)

lemma no_overflow_with_obj [no_overflow_intros]: "(\<And>ob. no_overflow n (f ob)) \<Longrightarrow> no_overflow n (with_obj f)"
  by (simp add: no_overflow_def sm_simps)

lemma eats_read_fields [eats_intros]: "eats 0 (read_fields (stream_platform P) d)"
  by (induction d) (auto intro!: eats_intros split: writable.split)

lemma no_overflow_read_fields: "n \<le> 23 * d \<Longrightarrow> no_overflow n (read_fields (stream_platform P) d)"
proof (induction d arbitrary: n)
  case 0
  then show ?case by (simp add: no_overflow_def)
next
  case (Suc d)
  then show ?case
    by (auto intro!: no_overflow_intros no_overflow_method_read_fields [OF Suc.IH [OF order_refl] eats_read_fields]
        split: writable.split)
qed

text \<open>
  Messages that nest: each level spends one call of \<open>readFields\<close> and 36 bytes.
\<close>

primrec bomb :: "nat \<Rightarrow> string" where
  "bomb 0 = []"
| "bomb (Suc d) = enc_string ''A'' @ enc_string ''A'' @ u64_bytes 1 @ enc_string ''MethodWritable'' @ bomb d"

lemma length_bomb: "length (bomb d) = 36 * d"
  by (induction d) (simp_all add: enc_string_def)

lemma bomb_overflows:
  assumes M: "16 \<le> max_alloc P"
  shows "fst (read_fields (stream_platform P) d (MethodWritable [] [] [], Some (bomb d, out))) =
     Inl (Undefined StackOverflow)"
proof (induction d)
  case 0
  show ?case by (simp add: sm_simps)
next
  case (Suc d)
  obtain st where run: "read_fields (stream_platform P) d (MethodWritable [] [] [], Some (bomb d, out)) =
      (Inl (Undefined StackOverflow), st)"
    using Suc by (metis prod.collapse)
  have ok: "str_ok (max_alloc P) ''A''" "str_ok (max_alloc P) ''MethodWritable''"
    using M by (simp_all add: str_ok_def)
  have c: "c_str ''A'' = ''A''" "c_str ''MethodWritable'' = ''MethodWritable''" by (simp_all add: c_str_def)
  show ?case
    using M by (cases st) (simp add: sm_simps method_read_fields_def read_string_stream [OF ok(1)]
        read_string_stream [OF ok(2)] c put_class_def put_method_def put_params_def reserve_def
        vector_max_size_def at_index_def run)
qed

section \<open>Integers read from the wire\<close>

text \<open>
  \<open>keeps Q m\<close>: whatever \<open>m\<close> returns or throws, it leaves an object that satisfies \<open>Q\<close> with one
  that does. No property of the platform is needed.
\<close>

definition keeps :: "('o \<Rightarrow> bool) \<Rightarrow> ('o, 's, 'a) io \<Rightarrow> bool" where
  "keeps Q m \<longleftrightarrow> (\<forall>ob p. Q ob \<longrightarrow> Q (fst (snd (m (ob, p)))))"

named_theorems keeps_intros \<open>which constructs keep a property of the object\<close>

lemma keeps_ret [keeps_intros]: "keeps Q (ret x)"
  by (simp add: keeps_def sm_simps)

lemma keeps_fail [keeps_intros]: "keeps Q (fail e)"
  by (simp add: keeps_def sm_simps)

lemma keeps_lift_sum [keeps_intros]: "keeps Q (lift_sum r)"
  by (simp add: keeps_def sm_simps)

lemma keeps_sock_read [keeps_intros]: "keeps Q (sock_read P n)"
  by (auto simp: keeps_def sock_read_def split: option.splits prod.splits)

lemma keeps_new_array [keeps_intros]: "keeps Q (new_array P n)"
  by (simp add: keeps_def sm_simps)

lemma keepsD: "keeps Q m \<Longrightarrow> m st = (r, st') \<Longrightarrow> Q (fst st) \<Longrightarrow> Q (fst st')"
  unfolding keeps_def by (metis prod.collapse snd_conv)

lemma keepsI: "(\<And>st r st'. m st = (r, st') \<Longrightarrow> Q (fst st) \<Longrightarrow> Q (fst st')) \<Longrightarrow> keeps Q m"
  unfolding keeps_def by (metis fst_conv prod.collapse)

lemma keeps_reserve [keeps_intros]: "keeps Q (reserve P n)"
  by (simp add: keeps_def reserve_def sm_simps)

lemma keeps_bind [keeps_intros]:
  assumes "keeps Q m" and "\<And>x. keeps Q (f x)"
  shows "keeps Q (bind_sm m f)"
  by (rule keepsI)
    (auto simp: bind_sm_def split: prod.splits sum.splits dest: keepsD [OF assms(1)] keepsD [OF assms(2)])

lemma keeps_try_catch [keeps_intros]:
  assumes "keeps Q m" and "\<And>e. keeps Q (h e)"
  shows "keeps Q (try_catch m h)"
  by (rule keepsI)
    (auto simp: try_catch_def split: prod.splits sum.splits fault.splits
      dest: keepsD [OF assms(1)] keepsD [OF assms(2)])

lemma keeps_if_null [keeps_intros]: "keeps Q m \<Longrightarrow> keeps Q m' \<Longrightarrow> keeps Q (if_null m m')"
  by (auto simp: keeps_def if_null_def split: option.splits)

lemma keeps_if [keeps_intros]: "keeps Q m \<Longrightarrow> keeps Q m' \<Longrightarrow> keeps Q (if b then m else m')"
  by simp

lemma keeps_with_obj [keeps_intros]:
  "(\<And>ob. keeps Q (f ob)) \<Longrightarrow> keeps Q (with_obj f)"
  by (simp add: keeps_def sm_simps)

lemma keeps_modify_obj: "(\<And>ob. Q ob \<Longrightarrow> Q (f ob)) \<Longrightarrow> keeps Q (modify_obj f)"
  by (simp add: keeps_def sm_simps)

lemma keeps_zoom:
  assumes "keeps R m" and "\<And>ob. Q ob \<Longrightarrow> R (get ob)" and "\<And>ob x. Q ob \<Longrightarrow> R x \<Longrightarrow> Q (put x ob)"
  shows "keeps Q (zoom get put m)"
  using assms unfolding keeps_def by (auto simp: zoom_run split: prod.splits) (metis fst_conv snd_conv)

lemma keeps_read_string [keeps_intros]: "keeps Q (read_string P)"
  unfolding read_string_def Let_def by (intro keeps_intros)

text \<open>Every integer in a value fits in a byte.\<close>

fun int8_tree :: "writable \<Rightarrow> bool" where
  "int8_tree Writable = True"
| "int8_tree (IntWritable v) = (case v of None \<Rightarrow> True | Some x \<Rightarrow> - 128 \<le> sint x \<and> sint x < 128)"
| "int8_tree (MethodWritable c m ps) = list_all int8_tree ps"

definition int8_opt :: "i32 option \<Rightarrow> bool" where
  "int8_opt v \<longleftrightarrow> int8_tree (IntWritable v)"

lemma char_to_int_bounds: "- 128 \<le> sint (char_to_int c)" "sint (char_to_int c) < 128"
proof -
  have "char_to_int c = trunc8 (word_of_nat (of_char c))"
    using char_to_int_low_byte [of "word_of_nat (of_char c)"] of_char_nat_less [of c]
    by (simp add: unsigned_of_nat take_bit_nat_eq_self)
  then show "- 128 \<le> sint (char_to_int c)" "sint (char_to_int c) < 128"
    using sint_trunc8_bounds by simp_all
qed

lemma keeps_int_read_fields: "keeps int8_opt (int_read_fields P)"
  unfolding int_read_fields_def Let_def
  by (intro keeps_intros keeps_modify_obj) (simp add: int8_opt_def char_to_int_bounds)

lemma keeps_at_index: "keeps int8_tree rf \<Longrightarrow> keeps (list_all int8_tree) (at_index i rf)"
  unfolding keeps_def at_index_def
  by (auto simp: list_all_iff split: prod.splits) (metis fst_conv snd_conv nth_mem in_set_conv_nth nth_list_update length_list_update)

lemma int8_get_new_instance [simp]: "int8_tree (get_new_instance c)"
  by (simp add: get_new_instance_def)

lemma keeps_read_params: "keeps int8_tree rf \<Longrightarrow> keeps (list_all int8_tree) (read_params P rf k i)"
  by (induction k arbitrary: i) (auto intro!: keeps_intros keeps_modify_obj keeps_at_index)

lemma keeps_read_fields: "keeps int8_tree (read_fields P d)"
proof (induction d)
  case 0
  show ?case by (simp add: keeps_intros)
next
  case (Suc d)
  let ?params = "\<lambda>ob :: method_obj. list_all int8_tree (snd (snd ob))"
  have fields: "keeps ?params (method_read_fields P (read_fields P d))"
    unfolding method_read_fields_def Let_def
    by (intro keeps_intros keeps_modify_obj keeps_zoom [OF keeps_read_params [OF Suc]])
      (simp_all add: put_class_def put_method_def put_params_def)
  show ?case
    by (auto intro!: keeps_intros keeps_zoom [OF keeps_int_read_fields] keeps_zoom [OF fields]
        simp: int8_opt_def as_int_def as_method_def method_of_def split: writable.splits)
qed

section \<open>Unchecked input on any platform\<close>

text \<open>
  C29. However the bytes nest, a receiver with room for \<open>d\<close> nested calls of \<open>readFields\<close> does not
  exhaust its stack on fewer than \<open>23 * d\<close> bytes.
\<close>

theorem read_fields_stack_safe:
  assumes "duplex P rx tx" and "length (rx s) < 23 * d"
  shows "fst (read_fields P d (w, Some s)) \<noteq> Inl (Undefined StackOverflow)"
proof -
  obtain r w' p' where run: "read_fields P d (w, Some s) = (r, (w', p'))" by (metis prod.exhaust)
  have "fst (read_fields (stream_platform P) d (w, Some (rx s, tx s))) \<noteq> Inl (Undefined StackOverflow)"
    using no_overflow_read_fields [OF order_refl, of d P] assms(2) unfolding no_overflow_def by blast
  then show ?thesis using simD [OF sim_read_fields [OF assms(1)] run] by (simp add: run)
qed

theorem read_fields_stack_safe_witness:
  "length (enc sample_call) < 23 * 7 \<and>
   fst (read_fields (machine 100) 7 (MethodWritable [] [] [], Some (enc sample_call, []))) \<noteq>
     Inl (Undefined StackOverflow)"
proof -
  have "length (enc sample_call) < 23 * 7" by code_simp
  with read_fields_stack_safe [OF duplex_machine, of "(enc sample_call, [])" 7 100] show ?thesis by simp
qed

text \<open>
  C30. The recursion has no other limit than the bytes received: on every platform, for every
  stack size \<open>d\<close> there is a message of \<open>36 * d\<close> bytes that exhausts the stack of the reader.
\<close>

theorem read_fields_stack_exhausted:
  assumes "duplex P rx tx" and "16 \<le> max_alloc P" and "rx s = bomb d"
  shows "length (rx s) = 36 * d \<and>
    fst (read_fields P d (get_new_instance ''MethodWritable'', Some s)) = Inl (Undefined StackOverflow)"
proof -
  obtain r w' p' where run: "read_fields P d (MethodWritable [] [] [], Some s) = (r, (w', p'))"
    by (metis prod.exhaust)
  from simD [OF sim_read_fields [OF assms(1)] run] bomb_overflows [OF assms(2), of d "tx s"] assms(3)
  have "r = Inl (Undefined StackOverflow)" by simp
  then show ?thesis by (simp add: run assms(3) length_bomb)
qed

theorem read_fields_stack_exhausted_witness:
  "fst (read_fields (machine 16) 100 (MethodWritable [] [] [], Some (bomb 100, []))) =
     Inl (Undefined StackOverflow)"
  using read_fields_stack_exhausted [OF duplex_machine, of 16 "(bomb 100, [])" 100] by simp

text \<open>
  C31. Whatever bytes arrive and however the socket behaves, no integer that \<open>readFields\<close> stores
  anywhere in a value lies outside -128..127: only the lowest byte of an \<open>int\<close> is received.
\<close>

theorem read_fields_int8:
  assumes "int8_tree w"
  shows "int8_tree (fst (snd (read_fields P d (w, p))))"
  using keeps_read_fields [of P d] assms by (simp add: keeps_def)

theorem read_fields_int8_witness:
  "fst (snd (read_fields (machine 100) 1 (IntWritable None, Some (enc (IntWritable (Some 300)), [])))) =
     IntWritable (Some 44) \<and> int8_tree (IntWritable (Some 44))"
proof -
  have run: "fst (snd (read_fields (machine 100) 1 (IntWritable None, Some (enc (IntWritable (Some 300)), [])))) =
     IntWritable (Some 44)" by code_simp
  show ?thesis
    using read_fields_int8 [of "IntWritable None" "machine 100" 1 "Some (enc (IntWritable (Some 300)), [])"] run
    by simp
qed

text \<open>
  C35. Two length fields lead out of the language: a string length of \<open>INT_MAX\<close> overflows the
  \<open>int\<close> that sizes its buffer, and an integer length of \<open>SIZE_MAX\<close> makes the buffer empty
  while the read into it is not.
\<close>

theorem malformed_lengths_undefined:
  assumes "duplex P rx tx" and "rx s = i32_bytes 0x7fffffff @ rest" and "rx t = u64_bytes 0xffffffffffffffff @ rest"
  shows "fst (read_string P (ob, Some s)) = Inl (Undefined SignedOverflow) \<and>
    fst (int_read_fields P (v, Some t)) = Inl (Undefined HeapOverrun)"
proof
  obtain r ob' p' where run: "read_string P (ob, Some s) = (r, (ob', p'))" by (metis prod.exhaust)
  have "r = Inl (Undefined SignedOverflow)"
    using simD [OF sim_read_string [OF assms(1)] run] assms(2)
    by (simp add: read_string_def sm_simps add_i32_def)
  then show "fst (read_string P (ob, Some s)) = Inl (Undefined SignedOverflow)" by (simp add: run)
next
  obtain r v' p' where run: "int_read_fields P (v, Some t) = (r, (v', p'))" by (metis prod.exhaust)
  have "r = Inl (Undefined HeapOverrun)"
    using simD [OF sim_int_read_fields [OF assms(1)] run] assms(3)
    by (simp add: int_read_fields_def sm_simps Let_def)
  then show "fst (int_read_fields P (v, Some t)) = Inl (Undefined HeapOverrun)" by (simp add: run)
qed

theorem malformed_lengths_undefined_witness:
  "fst (read_string (machine 100) ((), Some (i32_bytes 0x7fffffff, []))) = Inl (Undefined SignedOverflow) \<and>
   fst (int_read_fields (machine 100) (None, Some (u64_bytes 0xffffffffffffffff, []))) = Inl (Undefined HeapOverrun)"
  using malformed_lengths_undefined [OF duplex_machine, of "(i32_bytes 0x7fffffff, [])" "[]" "(u64_bytes 0xffffffffffffffff, [])"
      100 "()" None] by simp

end
