(* ===== verification/Methods.thy ===== *)
theory Methods
  imports Wire_Safety
begin

text \<open>
  The methods a server offers (\<open>Method::call\<close> of \<open>src/Method.cpp\<close>, \<open>NameNode::create\<close> of
  \<open>include/NameNode.h\<close>): dispatch on the names of class and method, the casts of the parameters,
  and what an unknown name, a missing parameter or one of another class does.
\<close>

section \<open>NameNode\<close>

text \<open>
  \<open>Arg->get()\<close> on a \<open>shared_ptr<IntWritable>\<close>: \<open>None\<close> is the null pointer a failed
  \<open>dynamic_pointer_cast\<close> gives.
\<close>

definition int_get :: "i32 option option \<Rightarrow> fault + i32" where
  "int_get a = (case a of
       None \<Rightarrow> Inl (Undefined NullDeref)
     | Some None \<Rightarrow> Inl (Undefined UninitRead)
     | Some (Some x) \<Rightarrow> Inr x)"

definition name_node_create ::
  "i32 option option \<Rightarrow> i32 option option \<Rightarrow> i32 option option \<Rightarrow> i32 option option \<Rightarrow> fault + writable" where
  "name_node_create a0 a1 a2 a3 =
     bind_sum (int_get a0) (\<lambda>x0.
     bind_sum (int_get a1) (\<lambda>x1.
     bind_sum (add_i32 x0 x1) (\<lambda>s1.
     bind_sum (int_get a2) (\<lambda>x2.
     bind_sum (add_i32 s1 x2) (\<lambda>s2.
     bind_sum (int_get a3) (\<lambda>x3.
     bind_sum (add_i32 s2 x3) (\<lambda>res.
     Inr (IntWritable (Some res)))))))))"

section \<open>Dispatch\<close>

definition cast_int :: "writable \<Rightarrow> i32 option option" where
  "cast_int w = (case w of IntWritable v \<Rightarrow> Some v | _ \<Rightarrow> None)"

definition param :: "writable list \<Rightarrow> nat \<Rightarrow> fault + writable" where
  "param ps i = (if i < length ps then Inr (ps ! i) else Inl (Undefined OutOfBounds))"

text \<open>The result is a pointer: \<open>None\<close> where \<open>Method::call\<close> returns \<open>NULL\<close>.\<close>

definition method_call :: "string \<Rightarrow> string \<Rightarrow> writable list \<Rightarrow> fault + writable option" where
  "method_call c m params =
     (if c = ''FSNameSystem'' then
        (if m = ''create'' then Inr (Some (IntWritable (Some 32))) else Inr None)
      else if c = ''NameNode'' then
        (if m = ''create'' then
           bind_sum (param params 0) (\<lambda>p0.
           bind_sum (param params 1) (\<lambda>p1.
           bind_sum (param params 2) (\<lambda>p2.
           bind_sum (param params 3) (\<lambda>p3.
           bind_sum (name_node_create (cast_int p0) (cast_int p1) (cast_int p2) (cast_int p3)) (\<lambda>w.
           Inr (Some w))))))
         else Inr None)
      else Inr None)"

section \<open>What the methods return\<close>

text \<open>The value of a parameter that is a set \<open>IntWritable\<close>.\<close>

definition int_param :: "writable \<Rightarrow> int option" where
  "int_param w = (case w of IntWritable (Some x) \<Rightarrow> Some (sint x) | _ \<Rightarrow> None)"

lemma int_get_cast: "int_param w = Some v \<Longrightarrow> \<exists>x. int_get (cast_int w) = Inr x \<and> sint x = v"
  by (auto simp: int_param_def cast_int_def int_get_def split: writable.splits option.splits)

lemma int8_param: "int8_tree w \<Longrightarrow> int_param w = Some v \<Longrightarrow> - 128 \<le> v \<and> v < 128"
  by (auto simp: int_param_def split: writable.splits option.splits)

lemma create_sums:
  assumes "list_all int8_tree (p0 # p1 # p2 # p3 # ps)"
    and "int_param p0 = Some v0" "int_param p1 = Some v1" "int_param p2 = Some v2" "int_param p3 = Some v3"
  shows "\<exists>r. method_call ''NameNode'' ''create'' (p0 # p1 # p2 # p3 # ps) = Inr (Some (IntWritable (Some r))) \<and>
    sint r = v0 + v1 + v2 + v3"
proof -
  have b: "- 128 \<le> v0 \<and> v0 < 128" "- 128 \<le> v1 \<and> v1 < 128" "- 128 \<le> v2 \<and> v2 < 128" "- 128 \<le> v3 \<and> v3 < 128"
    using assms int8_param by auto
  obtain x0 x1 x2 x3 where x: "int_get (cast_int p0) = Inr x0" "sint x0 = v0"
    "int_get (cast_int p1) = Inr x1" "sint x1 = v1" "int_get (cast_int p2) = Inr x2" "sint x2 = v2"
    "int_get (cast_int p3) = Inr x3" "sint x3 = v3"
    using assms(2-5) int_get_cast by metis
  have s1: "add_i32 x0 x1 = Inr (x0 + x1)" using b by (intro add_i32_ok) (simp_all add: x)
  note e1 = add_i32_Inr [OF s1]
  have s2: "add_i32 (x0 + x1) x2 = Inr (x0 + x1 + x2)" using b by (intro add_i32_ok) (simp_all add: e1 x)
  note e2 = add_i32_Inr [OF s2]
  have s3: "add_i32 (x0 + x1 + x2) x3 = Inr (x0 + x1 + x2 + x3)"
    using b by (intro add_i32_ok) (simp_all add: e1 e2 x)
  note e3 = add_i32_Inr [OF s3]
  show ?thesis
    by (simp add: method_call_def name_node_create_def param_def x s1 s2 s3 e1 e2 e3)
qed

text \<open>
  C32. \<open>NameNode::create\<close> on parameters that came over the wire returns the exact sum of its
  first four: the additions, whose overflow would be undefined, cannot overflow, because the
  reader leaves only integers of one byte in a call.
\<close>

theorem create_sums_exactly:
  assumes "list_all int8_tree (p0 # p1 # p2 # p3 # ps)"
    and "int_param p0 = Some v0" "int_param p1 = Some v1" "int_param p2 = Some v2" "int_param p3 = Some v3"
  shows "\<exists>r. method_call ''NameNode'' ''create'' (p0 # p1 # p2 # p3 # ps) = Inr (Some (IntWritable (Some r))) \<and>
    sint r = v0 + v1 + v2 + v3"
  by (rule create_sums [OF assms])

theorem create_sums_exactly_witness:
  "\<exists>r. method_call ''NameNode'' ''create'' (map (\<lambda>x. IntWritable (Some x)) [127, 127, 127, 127]) =
     Inr (Some (IntWritable (Some r))) \<and> sint r = 508"
  using create_sums_exactly [of "IntWritable (Some 127)" "IntWritable (Some 127)" "IntWritable (Some 127)"
      "IntWritable (Some 127)" "[]" 127 127 127 127]
  by (simp add: int_param_def)

definition known_method :: "string \<Rightarrow> string \<Rightarrow> bool" where
  "known_method c m \<longleftrightarrow> (c = ''FSNameSystem'' \<or> c = ''NameNode'') \<and> m = ''create''"

lemma name_node_create_cases:
  "(\<exists>x. name_node_create a0 a1 a2 a3 = Inr (IntWritable (Some x))) \<or>
   (\<exists>u. name_node_create a0 a1 a2 a3 = Inl (Undefined u))"
proof -
  have get: "(\<exists>x. int_get a = Inr x) \<or> (\<exists>u. int_get a = Inl (Undefined u))" for a
    by (auto simp: int_get_def split: option.split)
  have add: "(\<exists>x. add_i32 a b = Inr x) \<or> (\<exists>u. add_i32 a b = Inl (Undefined u))" for a b
    by (simp add: add_i32_def)
  have bind: "(\<exists>x. bind_sum r f = Inr (IntWritable (Some x))) \<or> (\<exists>u. bind_sum r f = Inl (Undefined u))"
    if "(\<exists>x :: i32. r = Inr x) \<or> (\<exists>u. r = Inl (Undefined u))"
      and "\<And>x. (\<exists>y. f x = Inr (IntWritable (Some y))) \<or> (\<exists>u. f x = Inl (Undefined u))" for r f
    using that by (metis bind_sum_simps)
  show ?thesis unfolding name_node_create_def
    by (intro bind get add) simp
qed

lemma method_outcome:
  "(method_call c m ps = Inr None \<and> \<not> known_method c m) \<or>
   ((\<exists>x. method_call c m ps = Inr (Some (IntWritable (Some x)))) \<and> known_method c m) \<or>
   ((\<exists>u. method_call c m ps = Inl (Undefined u)) \<and> known_method c m)"
proof (cases "c = ''NameNode'' \<and> m = ''create''")
  case True
  have par: "(\<exists>p. param ps i = Inr p) \<or> (\<exists>u. param ps i = Inl (Undefined u))" for i
    by (simp add: param_def)
  have bind: "(\<exists>x. bind_sum r f = Inr (Some (IntWritable (Some x)))) \<or> (\<exists>u. bind_sum r f = Inl (Undefined u))"
    if "(\<exists>p :: writable. r = Inr p) \<or> (\<exists>u. r = Inl (Undefined u))"
      and "\<And>p. (\<exists>y. f p = Inr (Some (IntWritable (Some y)))) \<or> (\<exists>u. f p = Inl (Undefined u))" for r f
    using that by (metis bind_sum_simps)
  have "(\<exists>x. method_call c m ps = Inr (Some (IntWritable (Some x)))) \<or>
      (\<exists>u. method_call c m ps = Inl (Undefined u))"
    unfolding method_call_def True [THEN conjunct1] True [THEN conjunct2]
    by (simp, (rule bind [OF par])+) (metis bind_sum_simps name_node_create_cases)
  with True show ?thesis by (auto simp: known_method_def)
next
  case False
  then show ?thesis by (auto simp: method_call_def known_method_def)
qed

lemma undefined_name_node: "method_call c m ps = Inl e \<Longrightarrow> c = ''NameNode''"
  by (auto simp: method_call_def split: if_splits)

text \<open>
  What a call can do to the server: a name the dispatch does not know gives a null pointer;
  a known one gives an integer, or, for \<open>NameNode::create\<close> only, runs into undefined behaviour.
  No call throws, so no handler of exceptions is needed around \<open>Method::call\<close>.
\<close>

theorem method_call_outcomes:
  "(method_call c m ps = Inr None \<longleftrightarrow> \<not> known_method c m) \<and>
   (known_method c m \<longleftrightarrow> (\<exists>x. method_call c m ps = Inr (Some (IntWritable (Some x)))) \<or>
      (c = ''NameNode'' \<and> (\<exists>u. method_call c m ps = Inl (Undefined u))))"
  using method_outcome [of c m ps] undefined_name_node [of c m ps] by auto

end
