(* ===== verification/Server_Call.thy ===== *)
theory Server_Call
  imports Methods
begin

text \<open>
  A call on the server (\<open>Server::Call\<close>, \<open>include/Call.h\<close> and \<open>src/Call.cpp\<close>): reading one from a
  connection, setting its value, and its texts.

  A connection is referred to by its address in the server's store of connections (theory
  \<open>Server_Core\<close>); \<open>sc_conn = None\<close> is the null pointer of a default constructed call. The
  members the constructors leave uninitialised (\<open>_call_id\<close>) start as 0 here: before \<open>read\<close> sets
  it, the code uses it in log texts only.
\<close>

section \<open>State\<close>

record server_call =
  sc_conn :: "nat option" \<comment> \<open>\<open>_connection\<close>\<close>
  sc_id :: i32 \<comment> \<open>\<open>_call_id\<close>\<close>
  sc_class :: string
  sc_method :: string
  sc_params :: "writable list"
  sc_value :: "writable option" \<comment> \<open>\<open>_value\<close>, a pointer\<close>
  sc_pos :: i32 \<comment> \<open>\<open>_pos\<close>: where to go on writing\<close>
  sc_str_val :: string \<comment> \<open>\<open>_strVal\<close>\<close>

definition call_new :: "nat option \<Rightarrow> server_call" where
  "call_new conn = \<lparr>sc_conn = conn, sc_id = 0, sc_class = [], sc_method = [], sc_params = [],
     sc_value = None, sc_pos = 0, sc_str_val = []\<rparr>"

section \<open>Operations\<close>

text \<open>\<open>Call::read\<close>; in its two error branches \<open>return -1\<close> is the value \<open>true\<close> of a \<open>bool\<close>.\<close>

definition call_read :: "'s platform \<Rightarrow> nat \<Rightarrow> (server_call, 's, bool) io" where
  "call_read P d = with_obj (\<lambda>call.
     if sc_conn call = None then ret False
     else try_catch
       (bind_sm (sock_read P 4) (\<lambda>ib.
        bind_sm (modify_obj (sc_id_update (\<lambda>_. i32_of_bytes ib))) (\<lambda>_.
        if length ib = 0 then ret True
        else
          bind_sm (read_string P) (\<lambda>c.
          bind_sm (modify_obj (sc_class_update (\<lambda>_. c))) (\<lambda>_.
          bind_sm (read_string P) (\<lambda>m.
          bind_sm (modify_obj (sc_method_update (\<lambda>_. m))) (\<lambda>_.
          bind_sm (sock_read P 8) (\<lambda>sb.
          if length sb = 0 then ret True
          else
            let size = unat (u64_of_bytes sb) in
            bind_sm (reserve P size) (\<lambda>_.
            bind_sm (zoom sc_params (\<lambda>ps. sc_params_update (\<lambda>_. ps)) (read_params P (read_fields P d) size 0)) (\<lambda>_.
            ret True))))))))))
       (\<lambda>_. ret False))"

text \<open>\<open>Call::setValue\<close>, \<open>v\<close> a pointer.\<close>

definition call_set_value :: "writable option \<Rightarrow> server_call \<Rightarrow> fault + server_call" where
  "call_set_value v call = (case v of
       None \<Rightarrow> Inl (Undefined NullDeref)
     | Some w \<Rightarrow> bind_sum (to_string w) (\<lambda>str. Inr (call\<lparr>sc_str_val := str, sc_value := Some w\<rparr>)))"

text \<open>\<open>Call::write\<close>, which the responder does not use: it writes responses piecewise.\<close>

definition call_write :: "'s platform \<Rightarrow> (server_call, 's, bool) io" where
  "call_write P = with_obj (\<lambda>call.
     if sc_conn call = None then fail (Undefined NullDeref)
     else try_catch
       (bind_sm (sock_write P (i32_bytes (sc_id call))) (\<lambda>_.
        bind_sm (write_string P (sc_str_val call)) (\<lambda>_.
        ret True)))
       (\<lambda>_. ret False))"

definition call_to_string :: "server_call \<Rightarrow> string" where
  "call_to_string call =
     ''call_id '' @ dec_int (sint (sc_id call)) @ '', class '' @ sc_class call @ '' , method '' @ sc_method call"

fun print_params :: "nat \<Rightarrow> writable list \<Rightarrow> fault + string" where
  "print_params i [] = Inr []"
| "print_params i (w # ws) =
     bind_sum (to_string w) (\<lambda>str.
     bind_sum (print_params (Suc i) ws) (\<lambda>rest.
     Inr (CHR 0x0A # '' param '' @ dec_nat i @ '' : '' @ str @ rest)))"

definition call_print :: "server_call \<Rightarrow> fault + string" where
  "call_print call =
     bind_sum (print_params 0 (sc_params call)) (\<lambda>str. Inr (call_to_string call @ str))"

section \<open>Reading what a client sends\<close>

text \<open>The bytes of a request: the id, then the \<open>MethodWritable\<close> of the invocation.\<close>

definition enc_request :: "i32 \<Rightarrow> string \<Rightarrow> string \<Rightarrow> writable list \<Rightarrow> string" where
  "enc_request i c m ps = i32_bytes i @ enc (MethodWritable c m ps)"

lemma sim_call_read [sim_intros]:
  assumes "duplex P rx tx"
  shows "sim rx tx (call_read P d) (call_read (stream_platform P) d)"
  unfolding call_read_def Let_def by (intro sim_intros assms)

lemma i32_bytes_not_Nil [simp]: "i32_bytes x \<noteq> []"
  by (simp add: i32_bytes_Cons)

lemma call_read_stream:
  assumes "sc_conn call \<noteq> None" and "sc_params call = []"
    and "wire_ok (max_alloc P) (MethodWritable c m ps)" and "nest (MethodWritable c m ps) \<le> Suc d"
  shows "call_read (stream_platform P) d (call, Some (enc_request i c m ps @ rest, out)) =
     (Inr True, (call\<lparr>sc_id := i, sc_class := c_str c, sc_method := c_str m, sc_params := map wire_image ps\<rparr>,
        Some (rest, out)))"
proof -
  have each: "read_fields (stream_platform P) d (get_new_instance (get_class w), Some (enc w @ i', out')) =
      (Inr (rw_code w), (wire_image w, Some (i', out')))" if "w \<in> set ps" for w i' out'
    using assms(3,4) that nest_le_foldr [OF that] by (intro read_fields_stream) (auto simp: list_all_iff)
  have params: "read_params (stream_platform P) (read_fields (stream_platform P) d) (length ps) 0
      ([], Some (enc_params ps @ rest, out)) = (Inr (), (map wire_image ps, Some (rest, out)))"
    using read_params_stream_all [of ps "read_fields (stream_platform P) d" P "[]" rest out] each assms(3)
    by (auto simp: list_all_iff)
  have size: "unat (word_of_nat (length ps) :: u64) = length ps" using assms(3) by (intro unat_size) simp
  show ?thesis
    using assms by (auto simp: call_read_def enc_request_def sm_simps Let_def read_string_stream size
        reserve_def params)
qed

lemma call_read_receives:
  assumes "duplex P rx tx" and "rx s = enc_request i c m ps @ rest"
    and "wire_ok (max_alloc P) (MethodWritable c m ps)" and "nest (MethodWritable c m ps) \<le> Suc d"
  shows "\<exists>s'. call_read P d (call_new (Some conn), Some s) =
     (Inr True, ((call_new (Some conn))\<lparr>sc_id := i, sc_class := c_str c, sc_method := c_str m,
        sc_params := map wire_image ps\<rparr>, Some s')) \<and> rx s' = rest \<and> tx s' = tx s"
proof -
  have "call_read (stream_platform P) d (call_new (Some conn), Some (rx s, tx s)) =
     (Inr True, ((call_new (Some conn))\<lparr>sc_id := i, sc_class := c_str c, sc_method := c_str m,
        sc_params := map wire_image ps\<rparr>, Some (rest, tx s)))"
    unfolding assms(2) using assms(3,4) by (intro call_read_stream) (simp_all add: call_new_def)
  from sim_run [OF sim_call_read [OF assms(1)] this] show ?thesis .
qed

text \<open>
  C19. A request that fits in the heap of the server and in its stack is read as one call, with
  the id the client chose and the wire images of its names and parameters, and the reader stops
  exactly where the next request begins.
\<close>

theorem call_read_request:
  assumes "duplex P rx tx" and "rx s = enc_request i c m ps @ rest"
    and "wire_ok (max_alloc P) (MethodWritable c m ps)" and "nest (MethodWritable c m ps) \<le> Suc d"
  shows "\<exists>s'. call_read P d (call_new (Some conn), Some s) =
     (Inr True, ((call_new (Some conn))\<lparr>sc_id := i, sc_class := c_str c, sc_method := c_str m,
        sc_params := map wire_image ps\<rparr>, Some s')) \<and> rx s' = rest \<and> tx s' = tx s"
  by (rule call_read_receives [OF assms])

theorem call_read_request_witness:
  "\<exists>s'. call_read (machine 100) 1 (call_new (Some 0), Some (enc_request 7 ''A'' ''b'' [IntWritable (Some 300)], [])) =
     (Inr True, ((call_new (Some 0))\<lparr>sc_id := 7, sc_class := ''A'', sc_method := ''b'',
        sc_params := [IntWritable (Some 44)]\<rparr>, Some s')) \<and> fst s' = [] \<and> snd s' = []"
proof -
  have "wire_ok (max_alloc (machine 100)) (MethodWritable ''A'' ''b'' [IntWritable (Some 300)])"
    and "nest (MethodWritable ''A'' ''b'' [IntWritable (Some 300)]) \<le> Suc 1"
    and img: "map wire_image [IntWritable (Some 300)] = [IntWritable (Some 44)]"
      "c_str ''A'' = ''A''" "c_str ''b'' = ''b''"
    by code_simp+
  from call_read_request [OF duplex_machine _ this(1,2), of
      "(enc_request 7 ''A'' ''b'' [IntWritable (Some 300)], [])" 7 "[]" 0]
  show ?thesis unfolding img by simp
qed

text \<open>
  Whatever is read, the parameters of a call hold only integers of one byte.
\<close>

lemma keeps_call_read: "keeps (\<lambda>call. list_all int8_tree (sc_params call)) (call_read P d)"
  unfolding call_read_def Let_def
  by (intro keeps_intros keeps_modify_obj keeps_zoom [OF keeps_read_params [OF keeps_read_fields]]) simp_all

section \<open>Empty strings\<close>

lemma read_string_zero:
  "read_string (stream_platform P) (ob, Some (i32_bytes 0 @ rest, out)) =
     (Inl (Throw LogicError), (ob, Some (rest, out)))"
  by (simp add: read_string_def sm_simps)



end
