(* ===== verification/Server_Connection.thy ===== *)
theory Server_Connection
  imports Server_Call Block_Queue
begin

text \<open>
  A connection of the server (\<open>Server::Connection\<close>, \<open>include/Connection.h\<close> and
  \<open>src/Connection.cpp\<close>): the queue of its responses, its idle clock, and sending one response
  piecewise.

  The socket is the socket state threaded by the methods. The text of a value is sent from the
  position the call remembers; \<open>pending_bytes\<close> is what is still to be sent of a response, so
  that one attempt sends a non-empty piece of it and leaves the rest.
\<close>

section \<open>State\<close>

record connection =
  cn_ep :: nat \<comment> \<open>\<open>_ep\<close>, the address of the endpoint, which also names the socket\<close>
  cn_queue :: "server_call block_queue" \<comment> \<open>\<open>respond_queue\<close>\<close>
  cn_last :: int \<comment> \<open>\<open>_last_contact\<close>\<close>
  cn_index :: i32

definition max_respond_size :: i32 where
  "max_respond_size = 100"

definition max_idle_duration :: int where
  "max_idle_duration = 500"

definition set_last_contact :: "int \<Rightarrow> connection \<Rightarrow> connection" where
  "set_last_contact now conn = conn\<lparr>cn_last := now\<rparr>"

definition connection_new :: "nat \<Rightarrow> i32 \<Rightarrow> int \<Rightarrow> connection" where
  "connection_new ep i now = set_last_contact now
     \<lparr>cn_ep = ep, cn_queue = bq_new max_respond_size, cn_last = - 1, cn_index = i\<rparr>"

definition time_out :: "int \<Rightarrow> connection \<Rightarrow> bool" where
  "time_out now conn \<longleftrightarrow> max_idle_duration < now - cn_last conn"

section \<open>Operations\<close>

text \<open>The log line of \<open>processResponse\<close> prints the value, through its pointer.\<close>

definition print_value :: "server_call \<Rightarrow> fault + string" where
  "print_value call = (case sc_value call of
       None \<Rightarrow> Inl (Undefined NullDeref)
     | Some w \<Rightarrow> print_to_string w)"

text \<open>
  \<open>Connection::processResponse\<close>, under the mutex of the connection: first the id and the length,
  or the check of the position when part of the value has been sent, then \<open>write_some\<close>.
\<close>

definition start_response :: "'s platform \<Rightarrow> server_call \<Rightarrow> u64 \<Rightarrow> u64 \<Rightarrow> ('o, 's, bool) io" where
  "start_response P call len curr_pos =
     (if curr_pos = 0 then
        bind_sm (sock_write P (i32_bytes (sc_id call))) (\<lambda>_.
        bind_sm (sock_write P (u64_bytes (len - curr_pos))) (\<lambda>_. ret True))
      else ret (\<not> len < curr_pos))"

definition process_response :: "'s platform \<Rightarrow> (server_call \<times> connection, 's, int) io" where
  "process_response P = try_catch
     (with_obj (\<lambda>(call, conn).
        let len = (word_of_nat (length (sc_str_val call)) :: u64);
            curr_pos = (scast (sc_pos call) :: u64);
            left = len - curr_pos in
        bind_sm (start_response P call len curr_pos) (\<lambda>legal.
        if \<not> legal then ret (- 1)
        else
          bind_sm (lift_sum (print_value call)) (\<lambda>_.
          bind_sm (sock_write_some P (take (unat left) (drop (unat curr_pos) (sc_str_val call)))) (\<lambda>wrote.
          if wrote < unat left then
            let call' = call\<lparr>sc_pos := ucast (word_of_nat wrote + curr_pos)\<rparr>;
                (ok, q) = bq_offer True call' (cn_queue conn) in
            bind_sm (modify_obj (\<lambda>_. (call', conn\<lparr>cn_queue := q\<rparr>))) (\<lambda>_.
            ret (if ok then 1 else - 1))
          else ret 0)))))
     (\<lambda>_. ret (- 1))"

definition connection_close :: "'s platform \<Rightarrow> 's option \<Rightarrow> 's option" where
  "connection_close P p = map_option (asio_close P) p"

section \<open>One attempt\<close>

definition enc_response :: "i32 \<Rightarrow> string \<Rightarrow> string" where
  "enc_response i v = i32_bytes i @ u64_bytes (word_of_nat (length v)) @ v"

definition pending_bytes :: "server_call \<Rightarrow> string" where
  "pending_bytes call =
     (if sc_pos call = 0 then i32_bytes (sc_id call) @ u64_bytes (word_of_nat (length (sc_str_val call))) else [])
     @ drop (unat (sc_pos call)) (sc_str_val call)"

text \<open>A call that holds a value and is not sent completely.\<close>

definition sendable :: "server_call \<Rightarrow> bool" where
  "sendable call \<longleftrightarrow> (\<exists>str. print_value call = Inr str) \<and>
     length (sc_str_val call) < 2 ^ 31 \<and> unat (sc_pos call) < length (sc_str_val call)"

lemma sendable_pos:
  assumes "sendable call"
  shows "(scast (sc_pos call) :: u64) = word_of_nat (unat (sc_pos call))"
    and "unat (scast (sc_pos call) :: u64) = unat (sc_pos call)"
    and "(scast (sc_pos call) :: u64) = 0 \<longleftrightarrow> sc_pos call = 0"
proof -
  let ?p = "sc_pos call"
  have small: "unat ?p < 2 ^ 31" using assms by (simp add: sendable_def)
  have "uint ?p < 2 ^ 31" using small by (metis of_nat_less_iff of_nat_numeral of_nat_power uint_nat)
  moreover have "- (2 ^ 31) \<le> uint ?p" by (rule order_trans [OF _ uint_ge_0]) simp
  ultimately have "sint ?p = uint ?p" by (simp add: sint_uint signed_take_bit_int_eq_self)
  then have s: "sint ?p = int (unat ?p)" by simp
  show c: "(scast ?p :: u64) = word_of_nat (unat ?p)"
    by (simp only: scast_eq s of_int_of_nat_eq)
  show u: "unat (scast ?p :: u64) = unat ?p"
    unfolding c using small by (intro unat_u64) simp
  show "(scast ?p :: u64) = 0 \<longleftrightarrow> ?p = 0"
    using u by (metis unsigned_0 unsigned_eq_0_iff)
qed

text \<open>The call after \<open>k\<close> more bytes of its value are sent.\<close>

definition advance :: "nat \<Rightarrow> server_call \<Rightarrow> server_call" where
  "advance k call = call\<lparr>sc_pos := word_of_nat (unat (sc_pos call) + k)\<rparr>"

definition unsent :: "server_call \<Rightarrow> string" where
  "unsent call = drop (unat (sc_pos call)) (sc_str_val call)"

definition sent_header :: "server_call \<Rightarrow> string" where
  "sent_header call =
     (if sc_pos call = 0 then i32_bytes (sc_id call) @ u64_bytes (word_of_nat (length (sc_str_val call))) else [])"

lemma pending_split: "pending_bytes call = sent_header call @ unsent call"
  by (simp add: pending_bytes_def sent_header_def unsent_def)

lemma advance_simps [simp]:
  "sc_str_val (advance k call) = sc_str_val call" "sc_id (advance k call) = sc_id call"
  "sc_value (advance k call) = sc_value call" "sc_conn (advance k call) = sc_conn call"
  by (simp_all add: advance_def)

lemma advance_pos:
  assumes "sendable call" and "k < length (unsent call)"
  shows "unat (sc_pos (advance k call)) = unat (sc_pos call) + k"
proof -
  have "unat (sc_pos call) + k < 2 ^ 32" using assms by (simp add: sendable_def unsent_def) linarith
  moreover have "sc_pos (advance k call) = word_of_nat (unat (sc_pos call) + k)"
    by (simp add: advance_def)
  ultimately show ?thesis by (simp only: unat_i32)
qed

lemma sendable_advance:
  assumes "sendable call" and "k < length (unsent call)"
  shows "sendable (advance k call)"
  using assms advance_pos [OF assms] by (auto simp: sendable_def print_value_def unsent_def)

lemma unsent_advance:
  assumes "sendable call" and "k < length (unsent call)"
  shows "unsent (advance k call) = drop k (unsent call)"
  using advance_pos [OF assms] by (simp add: unsent_def add.commute)

lemma pending_advance:
  assumes "sendable call" and "0 < k" and "k < length (unsent call)"
  shows "pending_bytes (advance k call) = drop k (unsent call)"
proof -
  have "sc_pos (advance k call) \<noteq> 0" using advance_pos [OF assms(1,3)] assms(2) by auto
  then show ?thesis by (simp add: pending_split sent_header_def unsent_advance [OF assms(1,3)])
qed

text \<open>
  What one attempt does. \<open>k\<close> bytes of the value go out, after the header when it is the first
  attempt; a call that is not done goes back to the queue of its connection, at the end.
\<close>

definition after_attempt :: "nat \<Rightarrow> server_call \<Rightarrow> connection \<Rightarrow> int \<times> server_call \<times> connection" where
  "after_attempt k call conn =
     (if k = length (unsent call) then (0, call, conn)
      else (if has_room (cn_queue conn) then 1 else - 1, advance k call,
            conn\<lparr>cn_queue := snd (bq_offer True (advance k call) (cn_queue conn))\<rparr>))"

lemma sock_write_duplex:
  assumes "duplex P rx tx"
  shows "\<exists>s'. sock_write P bs (ob, Some s) = (Inr (length bs), (ob, Some s')) \<and> tx s' = tx s @ bs \<and> rx s' = rx s"
  using sim_run [OF sim_sock_write [OF assms], of bs ob s] by (auto simp: sm_simps)

lemma sock_write_some_sends:
  assumes "sends_some P rx tx" and "bs \<noteq> []"
  shows "\<exists>k s'. sock_write_some P bs (ob, Some s) = (Inr k, (ob, Some s')) \<and> 0 < k \<and> k \<le> length bs \<and>
     tx s' = tx s @ take k bs \<and> rx s' = rx s \<and> (sends_all P \<longrightarrow> k = length bs)"
proof -
  obtain k s' where "asio_write_some P s bs = (Some k, s')" "0 < k" "k \<le> length bs" "tx s' = tx s @ take k bs"
    "rx s' = rx s" using assms unfolding sends_some_def by blast
  moreover from this(1) have "sends_all P \<longrightarrow> k = length bs" by (metis fst_conv option.inject sends_all_def)
  ultimately show ?thesis by (auto simp: sock_write_some_def)
qed

lemma start_response_sends:
  assumes P: "duplex P rx tx" and call: "sendable call"
  shows "\<exists>s'. start_response P call (word_of_nat (length (sc_str_val call))) (word_of_nat (unat (sc_pos call)))
       (ob, Some s) = (Inr True, (ob, Some s')) \<and> tx s' = tx s @ sent_header call \<and> rx s' = rx s"
proof (cases "sc_pos call = 0")
  case True
  let ?hdr = "u64_bytes (word_of_nat (length (sc_str_val call)))"
  from sock_write_duplex [OF P, of "i32_bytes (sc_id call)" ob s] obtain s1 where
    1: "sock_write P (i32_bytes (sc_id call)) (ob, Some s) = (Inr (length (i32_bytes (sc_id call))), (ob, Some s1))"
      "tx s1 = tx s @ i32_bytes (sc_id call)" "rx s1 = rx s" by blast
  from sock_write_duplex [OF P, of ?hdr ob s1] obtain s2 where
    2: "sock_write P ?hdr (ob, Some s1) = (Inr (length ?hdr), (ob, Some s2))" "tx s2 = tx s1 @ ?hdr"
      "rx s2 = rx s1" by blast
  show ?thesis
    by (rule exI [of _ s2]) (use 1 2 True in \<open>simp add: start_response_def sm_simps sent_header_def\<close>)
next
  case False
  have "\<not> (word_of_nat (length (sc_str_val call)) :: u64) < word_of_nat (unat (sc_pos call))"
    using call unat_u64 [of "length (sc_str_val call)"] unat_u64 [of "unat (sc_pos call)"]
    by (simp add: word_less_nat_alt sendable_def)
  with False sendable_pos [OF call] show ?thesis
    by (intro exI [of _ s]) (simp add: start_response_def sm_simps sent_header_def)
qed

text \<open>The position kept in an \<open>int\<close>.\<close>

lemma new_pos:
  assumes "k + p < 2 ^ 32"
  shows "(ucast (word_of_nat k + word_of_nat p :: u64) :: i32) = word_of_nat (p + k)"
proof -
  have "unat (word_of_nat (p + k) :: u64) = p + k" using assms by (intro unat_u64) simp
  moreover have "(word_of_nat k + word_of_nat p :: u64) = word_of_nat (p + k)" by simp
  moreover have "(ucast (w :: u64) :: i32) = word_of_nat (unat w)" for w by simp
  ultimately show ?thesis by (simp only:)
qed

lemma process_response_attempt:
  assumes P: "duplex P rx tx" "sends_some P rx tx" and call: "sendable call"
  shows "\<exists>k s' r call' conn'. 0 < k \<and> k \<le> length (unsent call) \<and>
     after_attempt k call conn = (r, call', conn') \<and>
     process_response P ((call, conn), Some s) = (Inr r, ((call', conn'), Some s')) \<and>
     tx s' = tx s @ sent_header call @ take k (unsent call) \<and> rx s' = rx s \<and>
     (sends_all P \<longrightarrow> k = length (unsent call))"
proof -
  note pos = sendable_pos [OF call]
  let ?len = "length (sc_str_val call)" and ?p = "unat (sc_pos call)"
  have small: "?len < 2 ^ 31" and p: "?p < ?len" using call by (simp_all add: sendable_def)
  have lenp: "(word_of_nat ?len - word_of_nat ?p :: u64) = word_of_nat (?len - ?p)"
    using p by (simp add: of_nat_diff)
  have left: "unat (word_of_nat ?len - word_of_nat ?p :: u64) = length (unsent call)"
    unfolding lenp unsent_def length_drop using small by (intro unat_u64) simp
  obtain str where str: "print_value call = Inr str" using call by (auto simp: sendable_def)
  have "unsent call \<noteq> []" using p by (simp add: unsent_def)
  then obtain k s' s1 where
    hdr: "start_response P call (word_of_nat ?len) (word_of_nat ?p) ((call, conn), Some s) =
      (Inr True, ((call, conn), Some s1))"
    and body: "sock_write_some P (unsent call) ((call, conn), Some s1) = (Inr k, ((call, conn), Some s'))"
    and k: "0 < k" "k \<le> length (unsent call)"
    and tx: "tx s' = tx s @ sent_header call @ take k (unsent call)" "rx s' = rx s"
    and all: "sends_all P \<longrightarrow> k = length (unsent call)"
    using start_response_sends [OF P(1) call] sock_write_some_sends [OF P(2)] by (metis append.assoc)
  have kp: "k + ?p < 2 ^ 32" using k(2) small p by (simp add: unsent_def)
  have dr: "drop (unat (scast (sc_pos call) :: u64)) (sc_str_val call) = unsent call"
    by (simp add: pos(2) unsent_def)
  have "\<exists>r call' conn'. after_attempt k call conn = (r, call', conn') \<and>
     process_response P ((call, conn), Some s) = (Inr r, ((call', conn'), Some s'))"
    using k(2) hdr [folded pos(1)] body str left [folded pos(1)]
    by (cases "k = length (unsent call)")
      (auto simp: process_response_def sm_simps Let_def dr after_attempt_def advance_def
        new_pos [OF kp, folded pos(1)] bq_offer_def)
  with k tx all show ?thesis by blast
qed

end
