(* ===== verification/Server_State.thy ===== *)
theory Server_State
  imports Server_Connection
begin

text \<open>
  The memory the threads of the server share: the objects of class \<open>Connection\<close>, the map
  \<open>_connections\<close> that finds one by its endpoint, the two queues between the stages
  (\<open>_bq_call\<close>, \<open>_bq_respond\<close>), and the state of the listener with the queues of its readers.

  Objects are referred to by their position in a list (\<open>sv_heap\<close>, \<open>sv_socks\<close>): a new object is
  appended, so that a pointer stays valid. An endpoint and its socket are made together by
  \<open>_do_accept\<close> and have the same position.
\<close>

record 's server =
  sv_heap :: "connection list" \<comment> \<open>the objects of class \<open>Connection\<close>\<close>
  sv_socks :: "'s list" \<comment> \<open>the sockets, by endpoint\<close>
  sv_reg :: "nat \<Rightarrow> nat option" \<comment> \<open>\<open>_connections\<close>, from endpoints to connections\<close>
  sv_count :: i32 \<comment> \<open>\<open>num_connections\<close>\<close>
  sv_index :: i32 \<comment> \<open>\<open>_last_connection_index\<close>\<close>
  sv_calls :: "server_call block_queue" \<comment> \<open>\<open>_bq_call\<close>\<close>
  sv_responds :: "nat block_queue" \<comment> \<open>\<open>_bq_respond\<close>\<close>
  sv_accepting :: bool \<comment> \<open>an \<open>async_accept\<close> is outstanding\<close>
  sv_armed :: "nat list" \<comment> \<open>the endpoints with an \<open>async_read_some\<close> outstanding\<close>
  sv_readers :: "nat block_queue list" \<comment> \<open>\<open>_bq_conn\<close> of each reader\<close>
  sv_last_reader :: int \<comment> \<open>\<open>_last_reader_index\<close>\<close>
  sv_last_cleanup :: int \<comment> \<open>\<open>last_cleanup_time\<close>\<close>
  sv_stop :: bool \<comment> \<open>\<open>_should_stop\<close> of the listener\<close>

definition max_num_calls :: i32 where
  "max_num_calls = 100"

definition max_responds :: i32 where
  "max_responds = 100"

definition max_reader_queue_size :: i32 where
  "max_reader_queue_size = 100"

definition num_readers :: nat where
  "num_readers = 2"

definition num_handlers :: nat where
  "num_handlers = 2"

definition server_new :: "'s server" where
  "server_new = \<lparr>sv_heap = [], sv_socks = [], sv_reg = (\<lambda>_. None), sv_count = 0, sv_index = 0,
     sv_calls = bq_new max_num_calls, sv_responds = bq_new max_responds,
     sv_accepting = False, sv_armed = [],
     sv_readers = replicate num_readers (bq_new max_reader_queue_size),
     sv_last_reader = - 1, sv_last_cleanup = 0, sv_stop = False\<rparr>"

text \<open>Atomic parts of the threads' methods that need no socket.\<close>

definition gets :: "('st \<Rightarrow> 'a) \<Rightarrow> ('st, 'a) sm" where
  "gets f = (\<lambda>st. (Inr (f st), st))"

definition deref :: "nat \<Rightarrow> ('s server, connection) sm" where
  "deref c = (\<lambda>sv. if c < length (sv_heap sv) then (Inr (sv_heap sv ! c), sv)
                   else (Inl (Undefined NullDeref), sv))"

definition put_conn :: "nat \<Rightarrow> connection \<Rightarrow> 's server \<Rightarrow> 's server" where
  "put_conn c conn sv = sv\<lparr>sv_heap := (sv_heap sv)[c := conn]\<rparr>"

text \<open>
  A method of connection \<open>c\<close> that works on an object \<open>x\<close> and on the connection and its socket.
\<close>

definition on_conn :: "nat \<Rightarrow> 'x \<Rightarrow> ('x \<times> connection, 's, 'a) io \<Rightarrow> ('s server, 'a \<times> 'x) sm" where
  "on_conn c x m = (\<lambda>sv.
     if c < length (sv_heap sv) \<and> cn_ep (sv_heap sv ! c) < length (sv_socks sv) then
       let conn = sv_heap sv ! c; ep = cn_ep conn in
       case m ((x, conn), Some (sv_socks sv ! ep)) of
         (r, ((x', conn'), p')) \<Rightarrow>
           (case r of Inl e \<Rightarrow> Inl e | Inr a \<Rightarrow> Inr (a, x'),
            sv\<lparr>sv_heap := (sv_heap sv)[c := conn'],
               sv_socks := (case p' of None \<Rightarrow> sv_socks sv | Some s' \<Rightarrow> (sv_socks sv)[ep := s'])\<rparr>)
     else (Inl (Undefined NullDeref), sv))"

lemma gets_run [sm_simps]: "gets f st = (Inr (f st), st)"
  by (simp add: gets_def)

lemma deref_run [sm_simps]:
  "deref c sv = (if c < length (sv_heap sv) then (Inr (sv_heap sv ! c), sv) else (Inl (Undefined NullDeref), sv))"
  by (simp add: deref_def)

definition ep_of :: "'s server \<Rightarrow> nat \<Rightarrow> nat" where
  "ep_of sv c = cn_ep (sv_heap sv ! c)"

text \<open>A connection is live: the map finds it by its endpoint, whose socket exists.\<close>

definition live :: "'s server \<Rightarrow> nat \<Rightarrow> bool" where
  "live sv c \<longleftrightarrow> c < length (sv_heap sv) \<and> cn_ep (sv_heap sv ! c) < length (sv_socks sv) \<and>
     sv_reg sv (cn_ep (sv_heap sv ! c)) = Some c"

definition sock_of :: "'s server \<Rightarrow> nat \<Rightarrow> 's" where
  "sock_of sv c = sv_socks sv ! cn_ep (sv_heap sv ! c)"

definition queue_of :: "'s server \<Rightarrow> nat \<Rightarrow> server_call block_queue" where
  "queue_of sv c = cn_queue (sv_heap sv ! c)"

text \<open>A server with one connection, for evaluating concrete runs.\<close>

definition demo_server :: "wire server" where
  "demo_server = server_new\<lparr>sv_heap := [connection_new 0 0 0], sv_socks := [([], [])], sv_reg := (\<lambda>_. None)(0 := Some 0)\<rparr>"

lemma live_demo_server: "live demo_server 0"
  by (simp add: demo_server_def live_def connection_new_def set_last_contact_def)

end
