(* ===== verification/Responder.thy ===== *)
theory Responder
  imports Server_State
begin

text \<open>
  The responder (\<open>src/Responder.cpp\<close>): queueing the response of a call on its connection,
  sending it at once when it is alone there, and otherwise leaving it to the responder thread,
  which takes the endpoints with a response to send from \<open>_bq_respond\<close>.

  Each definition is one moment of a thread, between two of which other threads run;
  \<open>do_respond\<close>, \<open>resp_process\<close> and \<open>respond_round\<close> are a thread that runs alone.
\<close>

section \<open>The moments of a response\<close>

text \<open>\<open>respond_queue.try_push(call)\<close> of \<open>doRespond\<close>; \<open>None\<close> for the null connection.\<close>

definition respond_push :: "server_call \<Rightarrow> nat \<Rightarrow> ('s server, bool) sm" where
  "respond_push call c = bind_sm (deref c) (\<lambda>conn.
     case bq_offer True call (cn_queue conn) of (ok, q) \<Rightarrow>
       bind_sm (modify (put_conn c (conn\<lparr>cn_queue := q\<rparr>))) (\<lambda>_. ret ok))"

text \<open>\<open>respond_queue.size() == 1\<close>\<close>

definition respond_alone :: "nat \<Rightarrow> ('s server, bool) sm" where
  "respond_alone c = bind_sm (deref c) (\<lambda>conn. ret (bq_size (cn_queue conn) = 1))"

text \<open>\<open>_bq_respond.try_push(ep)\<close>, at the back or at the front; when it is full the server aborts.\<close>

definition respond_enqueue :: "bool \<Rightarrow> nat \<Rightarrow> ('s server, unit) sm" where
  "respond_enqueue back c = bind_sm (deref c) (\<lambda>conn.
     bind_sm (gets sv_responds) (\<lambda>bq.
     case bq_offer back (cn_ep conn) bq of (ok, bq') \<Rightarrow>
       if ok then modify (sv_responds_update (\<lambda>_. bq')) else fail Aborted))"

text \<open>\<open>respond_queue.try_pop(call)\<close> of \<open>processResponse\<close>\<close>

definition respond_pop :: "nat \<Rightarrow> ('s server, server_call option) sm" where
  "respond_pop c = bind_sm (deref c) (\<lambda>conn.
     case bq_poll (cn_queue conn) of (r, q) \<Rightarrow>
       bind_sm (modify (put_conn c (conn\<lparr>cn_queue := q\<rparr>))) (\<lambda>_. ret r))"

definition respond_send :: "'s platform \<Rightarrow> nat \<Rightarrow> server_call \<Rightarrow> ('s server, int) sm" where
  "respond_send P c call =
     bind_sm (on_conn c call (process_response P)) (\<lambda>(res, _). ret res)"

section \<open>A thread on its own\<close>

text \<open>\<open>Responder::processResponse\<close>\<close>

definition resp_process :: "'s platform \<Rightarrow> nat \<Rightarrow> ('s server, bool) sm" where
  "resp_process P c = bind_sm (respond_pop c) (\<lambda>r. case r of
       None \<Rightarrow> ret False
     | Some call \<Rightarrow> bind_sm (respond_send P c call) (\<lambda>res.
         if res < 0 then ret False
         else if res = 1 then bind_sm (respond_enqueue False c) (\<lambda>_. ret True)
         else ret True))"

text \<open>\<open>Responder::doRespond\<close>, where the result of \<open>processResponse\<close> is dropped.\<close>

definition do_respond :: "'s platform \<Rightarrow> server_call \<Rightarrow> ('s server, bool) sm" where
  "do_respond P call = (case sc_conn call of
       None \<Rightarrow> fail (Undefined NullDeref)
     | Some c \<Rightarrow> bind_sm (respond_push call c) (\<lambda>ok.
         if \<not> ok then ret False
         else bind_sm (respond_alone c) (\<lambda>alone.
           if alone then bind_sm (resp_process P c) (\<lambda>_. ret True)
           else bind_sm (respond_enqueue True c) (\<lambda>_. ret True))))"

text \<open>
  One round of \<open>Responder::respond\<close>: \<open>_bq_respond.pop()\<close> blocks on an empty queue, where the
  round changes nothing; an endpoint without a connection, and a failure, abort the server.
\<close>

definition respond_take :: "('s server, nat option) sm" where
  "respond_take = bind_sm (gets sv_responds) (\<lambda>bq. case bq_poll bq of (r, bq') \<Rightarrow>
     bind_sm (modify (sv_responds_update (\<lambda>_. bq'))) (\<lambda>_. ret r))"

definition respond_find :: "nat \<Rightarrow> ('s server, nat) sm" where
  "respond_find ep = bind_sm (gets sv_reg) (\<lambda>reg. case reg ep of
       None \<Rightarrow> fail Aborted
     | Some c \<Rightarrow> ret c)"

definition respond_round :: "'s platform \<Rightarrow> ('s server, unit) sm" where
  "respond_round P = bind_sm respond_take (\<lambda>r. case r of
       None \<Rightarrow> ret ()
     | Some ep \<Rightarrow> bind_sm (respond_find ep) (\<lambda>c.
         bind_sm (resp_process P c) (\<lambda>ok. if ok then ret () else fail Aborted)))"

fun respond_rounds :: "'s platform \<Rightarrow> nat \<Rightarrow> ('s server, unit) sm" where
  "respond_rounds P 0 = ret ()"
| "respond_rounds P (Suc n) = bind_sm (respond_round P) (\<lambda>_. respond_rounds P n)"

text \<open>
  \<open>waitForWork\<close>, which \<open>respond\<close> no longer uses: the state is \<open>_bq_respond\<close> and \<open>_should_stop\<close>, and
  each wait is given what the other threads do meanwhile (\<open>None\<close>: it has not returned within them).
\<close>

fun resp_wait_for_work :: "(nat block_queue \<times> bool \<Rightarrow> nat block_queue \<times> bool) list list \<Rightarrow> nat block_queue \<times> bool \<Rightarrow>
    bool option \<times> (nat block_queue \<times> bool)" where
  "resp_wait_for_work [] st = (None, st)"
| "resp_wait_for_work (env # rs) st = (case wait_for (\<lambda>(q, stop). has_item q) env st of
       (True, st') \<Rightarrow> (Some (\<not> snd st'), st')
     | (False, st') \<Rightarrow> if snd st' then (Some False, st') else resp_wait_for_work rs st')"

lemma resp_wait_result:
  "resp_wait_for_work rs st = (Some b, st') \<Longrightarrow> b = (has_item (fst st') \<and> \<not> snd st') \<and> (\<not> b \<longrightarrow> snd st')"
proof (induction rs st rule: resp_wait_for_work.induct)
  case (1 st)
  then show ?case by simp
next
  case (2 env rs st)
  let ?p = "\<lambda>(q, stop :: bool). has_item q"
  obtain k where "wait_for ?p env st = (?p (after (take k env) st), after (take k env) st)"
    using wait_for_result [of env ?p st] by blast
  then obtain q stop where w: "wait_for ?p env st = (has_item q, (q, stop))" by (metis case_prod_conv prod.exhaust)
  show ?case
  proof (cases "has_item q \<or> stop")
    case True
    with 2(2) w show ?thesis by (cases "has_item q") auto
  next
    case False
    with 2(2) w have "resp_wait_for_work rs (q, stop) = (Some b, st')" by simp
    with 2(1) [of False "(q, stop)"] w False show ?thesis by simp
  qed
qed

section \<open>Delivery\<close>

text \<open>
  The server with the socket of connection \<open>c\<close> in state \<open>s\<close>, the calls \<open>calls\<close> in its queue and
  \<open>eps\<close> in \<open>_bq_respond\<close>; nothing else differs.
\<close>

definition place :: "nat \<Rightarrow> 's \<Rightarrow> server_call list \<Rightarrow> nat list \<Rightarrow> 's server \<Rightarrow> 's server" where
  "place c s calls eps sv = sv\<lparr>
     sv_heap := (sv_heap sv)[c := (sv_heap sv ! c)\<lparr>cn_queue := (queue_of sv c)\<lparr>bq_items := calls\<rparr>\<rparr>],
     sv_socks := (sv_socks sv)[cn_ep (sv_heap sv ! c) := s],
     sv_responds := (sv_responds sv)\<lparr>bq_items := eps\<rparr>\<rparr>"

lemma place_simps [simp]:
  assumes "live sv c"
  shows "live (place c s calls eps sv) c" "ep_of (place c s calls eps sv) c = ep_of sv c"
    "sock_of (place c s calls eps sv) c = s" "bq_items (queue_of (place c s calls eps sv) c) = calls"
    "bq_max (queue_of (place c s calls eps sv) c) = bq_max (queue_of sv c)"
    "sv_reg (place c s calls eps sv) = sv_reg sv"
    "bq_items (sv_responds (place c s calls eps sv)) = eps"
    "bq_max (sv_responds (place c s calls eps sv)) = bq_max (sv_responds sv)"
    "place c s' calls' eps' (place c s calls eps sv) = place c s' calls' eps' sv"
  using assms by (simp_all add: place_def live_def ep_of_def sock_of_def queue_of_def)

lemma place_self:
  assumes "live sv c"
  shows "place c (sock_of sv c) (bq_items (queue_of sv c)) (bq_items (sv_responds sv)) sv = sv"
proof -
  have "(sv_heap sv)[c := sv_heap sv ! c] = sv_heap sv" by simp
  then show ?thesis by (simp add: place_def sock_of_def queue_of_def)
qed

lemma respond_push_run:
  assumes "live sv c" and "has_room (queue_of sv c)"
  shows "respond_push call c sv =
    (Inr True, place c (sock_of sv c) (bq_items (queue_of sv c) @ [call]) (bq_items (sv_responds sv)) sv)"
  using assms
  by (simp add: respond_push_def sm_simps live_def bq_offer_def queue_of_def bq_insert_def put_conn_def
      place_def sock_of_def)

lemma respond_pop_run:
  assumes "live sv c" and "bq_items (queue_of sv c) = call # calls"
  shows "respond_pop c sv = (Inr (Some call), place c (sock_of sv c) calls (bq_items (sv_responds sv)) sv)"
  using assms
  by (simp add: respond_pop_def sm_simps live_def bq_poll_def queue_of_def bq_remove_def has_item_def
      bq_size_def put_conn_def place_def sock_of_def)

lemma respond_enqueue_run:
  assumes "live sv c" and "has_room (sv_responds sv)"
  shows "respond_enqueue back c sv =
    (Inr (), place c (sock_of sv c) (bq_items (queue_of sv c))
       (if back then bq_items (sv_responds sv) @ [ep_of sv c] else ep_of sv c # bq_items (sv_responds sv)) sv)"
  using assms
  by (simp add: respond_enqueue_def sm_simps live_def bq_offer_def bq_insert_def place_def sock_of_def
      queue_of_def ep_of_def)

lemma respond_take_run:
  assumes "live sv c" and "bq_items (sv_responds sv) = ep # eps"
  shows "respond_take sv = (Inr (Some ep), place c (sock_of sv c) (bq_items (queue_of sv c)) eps sv)"
  using assms
  by (simp add: respond_take_def sm_simps live_def bq_poll_def bq_remove_def has_item_def bq_size_def
      place_def sock_of_def queue_of_def)

lemma respond_take_empty: "bq_items (sv_responds sv) = [] \<Longrightarrow> respond_take sv = (Inr None, sv)"
  by (simp add: respond_take_def sm_simps bq_poll_def has_item_def bq_size_def)

lemma respond_send_run:
  assumes P: "duplex P rx tx" "sends_some P rx tx" and sv: "live sv c" "has_room (queue_of sv c)" and call: "sendable call"
  shows "\<exists>k s'. 0 < k \<and> k \<le> length (unsent call) \<and>
     tx s' = tx (sock_of sv c) @ sent_header call @ take k (unsent call) \<and> rx s' = rx (sock_of sv c) \<and>
     respond_send P c call sv = (if k = length (unsent call)
       then (Inr 0, place c s' (bq_items (queue_of sv c)) (bq_items (sv_responds sv)) sv)
       else (Inr 1, place c s' (bq_items (queue_of sv c) @ [advance k call]) (bq_items (sv_responds sv)) sv))"
proof -
  let ?conn = "sv_heap sv ! c"
  from process_response_attempt [OF P call, of ?conn "sock_of sv c"] obtain k s' r call' conn' where
    k: "0 < k" "k \<le> length (unsent call)" and aft: "after_attempt k call ?conn = (r, call', conn')"
    and run: "process_response P ((call, ?conn), Some (sock_of sv c)) = (Inr r, ((call', conn'), Some s'))"
    and tx: "tx s' = tx (sock_of sv c) @ sent_header call @ take k (unsent call)" "rx s' = rx (sock_of sv c)" by blast
  have "respond_send P c call sv = (if k = length (unsent call)
       then (Inr 0, place c s' (bq_items (queue_of sv c)) (bq_items (sv_responds sv)) sv)
       else (Inr 1, place c s' (bq_items (queue_of sv c) @ [advance k call]) (bq_items (sv_responds sv)) sv))"
    using sv aft run
    by (auto simp: respond_send_def sm_simps on_conn_def Let_def live_def sock_of_def after_attempt_def
        place_def queue_of_def bq_offer_def bq_insert_def split: if_splits)
  with k tx show ?thesis by blast
qed

text \<open>
  One attempt of \<open>processResponse\<close> on a connection with one call: all is sent, or the rest is
  left in the queue of the connection with its endpoint in \<open>_bq_respond\<close>.
\<close>

lemma resp_process_run:
  assumes P: "duplex P rx tx" "sends_some P rx tx" and sv: "live sv c" and call: "sendable call"
    and room: "bq_max (queue_of sv c) \<noteq> 0" "bq_max (sv_responds sv) \<noteq> 0"
  shows "\<exists>k s'. 0 < k \<and> k \<le> length (unsent call) \<and>
     tx s' = tx s @ sent_header call @ take k (unsent call) \<and> rx s' = rx s \<and>
     resp_process P c (place c s [call] [] sv) = (Inr True, if k = length (unsent call) then place c s' [] [] sv
       else place c s' [advance k call] [ep_of sv c] sv)"
proof -
  have room': "has_room (queue_of (place c s calls eps sv) c) \<longleftrightarrow> length calls < unat (bq_max (queue_of sv c))"
    "has_room (sv_responds (place c s calls eps sv)) \<longleftrightarrow> length eps < unat (bq_max (sv_responds sv))" for s calls eps
    using sv by (simp_all add: has_room_def bq_size_def)
  have pos: "0 < unat (bq_max (queue_of sv c))" "0 < unat (bq_max (sv_responds sv))"
    using room by (simp_all add: unat_gt_0)
  have pop: "respond_pop c (place c s [call] [] sv) = (Inr (Some call), place c s [] [] sv)"
    using respond_pop_run [of "place c s [call] [] sv" c call "[]"] sv by simp
  from respond_send_run [OF P, of "place c s [] [] sv" c call] sv call pos obtain k s' where
    k: "0 < k" "k \<le> length (unsent call)"
      "tx s' = tx s @ sent_header call @ take k (unsent call)" "rx s' = rx s"
    and send: "respond_send P c call (place c s [] [] sv) = (if k = length (unsent call)
       then (Inr 0, place c s' [] [] sv) else (Inr 1, place c s' [advance k call] [] sv))"
    by (auto simp: room')
  have "resp_process P c (place c s [call] [] sv) = (Inr True, if k = length (unsent call) then place c s' [] [] sv
       else place c s' [advance k call] [ep_of sv c] sv)"
    using sv send pos respond_enqueue_run [of "place c s' [advance k call] [] sv" c False]
    by (simp add: resp_process_def sm_simps pop room')
  with k show ?thesis by blast
qed

lemma respond_round_run:
  assumes P: "duplex P rx tx" "sends_some P rx tx" and sv: "live sv c" and call: "sendable call"
    and room: "bq_max (queue_of sv c) \<noteq> 0" "bq_max (sv_responds sv) \<noteq> 0"
  shows "\<exists>k s'. 0 < k \<and> k \<le> length (unsent call) \<and>
     tx s' = tx s @ sent_header call @ take k (unsent call) \<and> rx s' = rx s \<and>
     respond_round P (place c s [call] [ep_of sv c] sv) = (Inr (), if k = length (unsent call) then place c s' [] [] sv
       else place c s' [advance k call] [ep_of sv c] sv)"
proof -
  have take: "respond_take (place c s [call] [ep_of sv c] sv) = (Inr (Some (ep_of sv c)), place c s [call] [] sv)"
    using respond_take_run [of "place c s [call] [ep_of sv c] sv" c "ep_of sv c" "[]"] sv by simp
  have find: "respond_find (ep_of sv c) (place c s [call] [] sv) = (Inr c, place c s [call] [] sv)"
    using sv by (simp add: respond_find_def sm_simps) (simp add: live_def ep_of_def sm_simps)
  have "respond_round P (place c s [call] [ep_of sv c] sv) = (Inr (), sv')"
    if "resp_process P c (place c s [call] [] sv) = (Inr True, sv')" for sv'
    using that by (simp add: respond_round_def sm_simps take find)
  with resp_process_run [OF P sv call room, of s] show ?thesis by blast
qed

lemma respond_rounds_idle:
  assumes "live sv c"
  shows "respond_rounds P n (place c s [] [] sv) = (Inr (), place c s [] [] sv)"
  by (induction n) (simp_all add: sm_simps respond_round_def respond_take_empty assms)

lemma respond_rounds_run:
  assumes P: "duplex P rx tx" "sends_some P rx tx" and sv: "live sv c"
    and room: "bq_max (queue_of sv c) \<noteq> 0" "bq_max (sv_responds sv) \<noteq> 0"
  shows "sendable call \<Longrightarrow> sc_pos call \<noteq> 0 \<Longrightarrow> length (unsent call) \<le> n \<Longrightarrow>
     \<exists>s'. tx s' = tx s @ unsent call \<and> rx s' = rx s \<and>
       respond_rounds P n (place c s [call] [ep_of sv c] sv) = (Inr (), place c s' [] [] sv)"
proof (induction n arbitrary: call s)
  case 0
  then show ?case by (simp add: sendable_def unsent_def)
next
  case (Suc n)
  from respond_round_run [OF P sv Suc.prems(1) room, of s] Suc.prems(2) obtain k s1 where
    k: "0 < k" "k \<le> length (unsent call)" and tx: "tx s1 = tx s @ take k (unsent call)" "rx s1 = rx s"
    and run: "respond_round P (place c s [call] [ep_of sv c] sv) = (Inr (), if k = length (unsent call)
      then place c s1 [] [] sv else place c s1 [advance k call] [ep_of sv c] sv)"
    by (auto simp: sent_header_def)
  show ?case
  proof (cases "k = length (unsent call)")
    case True
    then show ?thesis using run tx respond_rounds_idle [OF sv, of P n s1] by (auto simp: sm_simps)
  next
    case False
    with k have lt: "k < length (unsent call)" by simp
    have "sc_pos (advance k call) \<noteq> 0" using advance_pos [OF Suc.prems(1) lt] k(1) by auto
    moreover have "length (unsent (advance k call)) \<le> n"
      using Suc.prems(3) k(1) by (simp add: unsent_advance [OF Suc.prems(1) lt])
    ultimately obtain s' where "tx s' = tx s1 @ unsent (advance k call)" "rx s' = rx s1"
      "respond_rounds P n (place c s1 [advance k call] [ep_of sv c] sv) = (Inr (), place c s' [] [] sv)"
      using Suc.IH [OF sendable_advance [OF Suc.prems(1) lt]] by blast
    then show ?thesis
      using run tx False by (auto simp: sm_simps unsent_advance [OF Suc.prems(1) lt])
  qed
qed

lemma deliver_response:
  assumes "duplex P rx tx" and "sends_some P rx tx" and "live sv c"
    and "bq_max (queue_of sv c) \<noteq> 0" and "bq_max (sv_responds sv) \<noteq> 0"
    and "bq_items (queue_of sv c) = []" and "bq_items (sv_responds sv) = []"
    and "sendable call" and "sc_pos call = 0" and "sc_conn call = Some c"
    and "length (sc_str_val call) \<le> Suc n"
  shows "\<exists>s'. tx s' = tx (sock_of sv c) @ enc_response (sc_id call) (sc_str_val call) \<and> rx s' = rx (sock_of sv c) \<and>
     bind_sm (do_respond P call) (\<lambda>_. respond_rounds P n) sv = (Inr (), place c s' [] [] sv)"
proof -
  note P = assms(1,2) and sv = assms(3) and room = assms(4,5) and call = assms(8)
  let ?s = "sock_of sv c"
  have room': "has_room (queue_of sv c)"
    using room(1) assms(6) by (simp add: has_room_def bq_size_def unat_gt_0)
  have push: "respond_push call c sv = (Inr True, place c ?s [call] [] sv)"
    using respond_push_run [OF sv room', of call] assms(6,7) by simp
  have alone: "respond_alone c (place c ?s [call] [] sv) = (Inr True, place c ?s [call] [] sv)"
    using sv by (simp add: respond_alone_def sm_simps live_def bq_size_def place_def)
  have pend: "sent_header call @ unsent call = enc_response (sc_id call) (sc_str_val call)"
    using assms(9) by (simp add: sent_header_def unsent_def enc_response_def)
  from resp_process_run [OF P sv call room, of ?s] obtain k s1 where
    k: "0 < k" "k \<le> length (unsent call)" and tx: "tx s1 = tx ?s @ sent_header call @ take k (unsent call)" "rx s1 = rx ?s"
    and run: "resp_process P c (place c ?s [call] [] sv) = (Inr True, if k = length (unsent call)
      then place c s1 [] [] sv else place c s1 [advance k call] [ep_of sv c] sv)" by blast
  have first: "do_respond P call sv = (Inr True, if k = length (unsent call)
      then place c s1 [] [] sv else place c s1 [advance k call] [ep_of sv c] sv)"
    by (simp add: do_respond_def assms(10) sm_simps push alone run)
  show ?thesis
  proof (cases "k = length (unsent call)")
    case True
    then show ?thesis
      using first tx pend respond_rounds_idle [OF sv, of P n s1] by (intro exI [of _ s1]) (simp add: sm_simps)
  next
    case False
    with k have lt: "k < length (unsent call)" by simp
    have "sc_pos (advance k call) \<noteq> 0" using advance_pos [OF call lt] k(1) by auto
    moreover have "length (unsent (advance k call)) \<le> n"
      using assms(11) k(1) by (simp add: unsent_advance [OF call lt]) (simp add: unsent_def)
    ultimately obtain s' where s': "tx s' = tx s1 @ unsent (advance k call)" "rx s' = rx s1"
      "respond_rounds P n (place c s1 [advance k call] [ep_of sv c] sv) = (Inr (), place c s' [] [] sv)"
      using respond_rounds_run [OF P sv room sendable_advance [OF call lt]] by blast
    have "tx s' = tx ?s @ enc_response (sc_id call) (sc_str_val call)"
      unfolding s'(1) tx(1) unsent_advance [OF call lt] pend [symmetric] by simp
    with s'(2,3) tx(2) first False show ?thesis by (intro exI [of _ s']) (simp add: sm_simps)
  qed
qed


text \<open>A call of the one connection of \<open>demo_server\<close>, with its value.\<close>

definition demo_call :: "i32 \<Rightarrow> i32 \<Rightarrow> server_call" where
  "demo_call i v = (call_new (Some 0))\<lparr>sc_id := i, sc_value := Some (IntWritable (Some v)), sc_str_val := i32_bytes v\<rparr>"


text \<open>
  Two responses of one connection are not kept apart when the socket takes only part of a
  value: the rest of the first is queued behind the second, whose header is then sent in the
  middle of the first value. Here two values of four bytes go out a byte at a time, and the
  second response starts after two bytes of the first, although both are delivered in the end.
\<close>

theorem responses_interleave:
  "case bind_sm (do_respond (slow_machine 100) (demo_call 1 0x0201)) (\<lambda>_.
         bind_sm (do_respond (slow_machine 100) (demo_call 2 0x0403)) (\<lambda>_.
         respond_rounds (slow_machine 100) 7)) demo_server of (r, sv) \<Rightarrow>
     r = Inr () \<and> bq_items (queue_of sv 0) = [] \<and>
     snd (sock_of sv 0) =
       i32_bytes 1 @ u64_bytes 4 @ [CHR 0x01, CHR 0x02] @
       i32_bytes 2 @ u64_bytes 4 @ [CHR 0x03, CHR 0x00, CHR 0x04, CHR 0x00, CHR 0x00, CHR 0x00]"
  by code_simp

lemma do_respond_accepts:
  assumes "sc_conn call = Some c" and "live sv c" and "has_room (queue_of sv c)"
    and "do_respond P call sv = (Inr ok, sv')"
  shows "ok"
  using assms(4)
  by (auto simp: do_respond_def assms(1) sm_simps respond_push_run [OF assms(2,3)] split: prod.splits sum.splits if_splits)

end
