(* ===== verification/Handler.thy ===== *)
theory Handler
  imports Responder
begin

text \<open>
  The handlers (\<open>src/Handler.cpp\<close>): a handler takes a call from \<open>_bq_call\<close>, runs the method it
  names, sets its value and hands it to the responder.

  \<open>handler_compute\<close> touches only the call, which is the handler's alone; the rest are moments of
  the responder.
\<close>

text \<open>\<open>_bq_call.pop()\<close>, which blocks on an empty queue (\<open>None\<close>).\<close>

definition handler_take :: "('s server, server_call option) sm" where
  "handler_take = bind_sm (gets sv_calls) (\<lambda>bq. case bq_poll bq of (r, bq') \<Rightarrow>
     bind_sm (modify (sv_calls_update (\<lambda>_. bq'))) (\<lambda>_. ret r))"

text \<open>\<open>Method::call\<close>, \<open>setValue\<close> and the log line that prints the value, through its pointer.\<close>

definition handler_compute :: "server_call \<Rightarrow> fault + server_call" where
  "handler_compute call =
     bind_sum (method_call (sc_class call) (sc_method call) (sc_params call)) (\<lambda>res.
     bind_sum (call_set_value res call) (\<lambda>call'.
     bind_sum (print_value call') (\<lambda>_.
     Inr call')))"

text \<open>One round of \<open>Handler::handle\<close>.\<close>

definition handler_round :: "'s platform \<Rightarrow> ('s server, unit) sm" where
  "handler_round P = bind_sm handler_take (\<lambda>r. case r of
       None \<Rightarrow> ret ()
     | Some call \<Rightarrow> bind_sm (lift_sum (handler_compute call)) (\<lambda>call'.
         bind_sm (do_respond P call') (\<lambda>ok. if ok then ret () else fail Aborted)))"

section \<open>What a handler makes of a call\<close>

lemma handler_compute_value:
  assumes "method_call (sc_class call) (sc_method call) (sc_params call) = Inr (Some (IntWritable (Some r)))"
  shows "handler_compute call = Inr (call\<lparr>sc_value := Some (IntWritable (Some r)), sc_str_val := i32_bytes r\<rparr>)"
  using assms by (simp add: handler_compute_def call_set_value_def to_string_def print_value_def print_to_string_def)

lemma sendable_value:
  "sc_pos call = 0 \<Longrightarrow>
   sendable (call\<lparr>sc_value := Some (IntWritable (Some r)), sc_str_val := i32_bytes r\<rparr>)"
  by (simp add: sendable_def print_value_def print_to_string_def)

text \<open>
  C33. A handler answers a call, or the whole server goes down: it crashes on the null pointer
  that stands for the value exactly when the names of the call are unknown; with known names a
  call that does not run into undefined behaviour in the method itself gets an integer, whose
  four bytes are the response. Whoever can send a call can therefore stop the server.
\<close>

theorem handler_crash_iff:
  "(handler_compute call = Inl (Undefined NullDeref) \<longleftrightarrow>
      (if known_method (sc_class call) (sc_method call)
       then method_call (sc_class call) (sc_method call) (sc_params call) = Inl (Undefined NullDeref) else True)) \<and>
   (\<forall>call'. handler_compute call = Inr call' \<longleftrightarrow>
      (\<exists>r. method_call (sc_class call) (sc_method call) (sc_params call) = Inr (Some (IntWritable (Some r))) \<and>
         call' = call\<lparr>sc_value := Some (IntWritable (Some r)), sc_str_val := i32_bytes r\<rparr>))"
proof -
  have "method_call (sc_class call) (sc_method call) (sc_params call) = Inr None \<and>
          \<not> known_method (sc_class call) (sc_method call) \<or>
        (\<exists>r. method_call (sc_class call) (sc_method call) (sc_params call) = Inr (Some (IntWritable (Some r)))) \<and>
          known_method (sc_class call) (sc_method call) \<or>
        (\<exists>u. method_call (sc_class call) (sc_method call) (sc_params call) = Inl (Undefined u)) \<and>
          known_method (sc_class call) (sc_method call)"
    by (rule method_outcome)
  then show ?thesis
  proof (elim disjE conjE exE)
    assume "method_call (sc_class call) (sc_method call) (sc_params call) = Inr None"
      "\<not> known_method (sc_class call) (sc_method call)"
    then show ?thesis by (simp add: handler_compute_def call_set_value_def)
  next
    fix r
    assume "method_call (sc_class call) (sc_method call) (sc_params call) = Inr (Some (IntWritable (Some r)))"
      "known_method (sc_class call) (sc_method call)"
    then show ?thesis by (auto simp: handler_compute_value)
  next
    fix u
    assume "method_call (sc_class call) (sc_method call) (sc_params call) = Inl (Undefined u)"
      "known_method (sc_class call) (sc_method call)"
    then show ?thesis by (simp add: handler_compute_def)
  qed
qed

end
