(* ===== verification/Listener.thy ===== *)
theory Listener
  imports Handler
begin

text \<open>
  The listener and its readers (\<open>include/Listener.h\<close>, \<open>src/Listener.cpp\<close>): accepting sockets,
  finding or creating the connection of a socket that has something to read, giving it to a
  reader, reading one call from it, and closing it.

  The two callbacks of Boost.Asio, \<open>handle_accept\<close> and \<open>handle_read\<close>, run on the thread of the
  listener, one after the other. As for the responder, each definition is one moment of a
  thread, and \<open>do_read\<close> is a reader that runs alone.
\<close>

section \<open>Accepting\<close>

text \<open>\<open>_do_accept\<close>: a new socket and endpoint wait to be filled in by \<open>async_accept\<close>.\<close>

definition do_accept :: "'s server \<Rightarrow> 's server" where
  "do_accept sv = (if sv_stop sv then sv else sv\<lparr>sv_accepting := True\<rparr>)"

text \<open>
  \<open>handle_accept\<close>, for an outstanding \<open>async_accept\<close>: with an error, or when the listener is
  stopping, nothing is started again.
\<close>

definition handle_accept :: "'s \<Rightarrow> bool \<Rightarrow> 's server \<Rightarrow> 's server" where
  "handle_accept s err sv =
     (let ep = length (sv_socks sv); sv1 = sv\<lparr>sv_accepting := False, sv_socks := sv_socks sv @ [s]\<rparr> in
      if \<not> err \<and> \<not> sv_stop sv then do_accept (sv1\<lparr>sv_armed := ep # sv_armed sv1\<rparr>) else sv1)"

section \<open>Distributing connections to readers\<close>

text \<open>\<open>Reader::add\<close>\<close>

definition reader_add :: "nat \<Rightarrow> nat \<Rightarrow> 's server \<Rightarrow> bool \<times> 's server" where
  "reader_add i c sv = (case bq_offer True c (sv_readers sv ! i) of (ok, q) \<Rightarrow>
     (ok, sv\<lparr>sv_readers := (sv_readers sv)[i := q]\<rparr>))"

definition next_reader :: "int \<Rightarrow> int" where
  "next_reader i = (i + 1) mod int num_readers"

text \<open>\<open>addToReader\<close>: round robin, \<open>n\<close> tries left.\<close>

fun try_readers :: "nat \<Rightarrow> nat \<Rightarrow> 's server \<Rightarrow> bool \<times> 's server" where
  "try_readers 0 c sv = (False, sv)"
| "try_readers (Suc n) c sv = (case reader_add (nat (sv_last_reader sv)) c sv of
       (True, sv') \<Rightarrow> (True, sv')
     | (False, sv') \<Rightarrow> try_readers n c (sv'\<lparr>sv_last_reader := next_reader (sv_last_reader sv')\<rparr>))"

definition add_to_reader :: "nat \<Rightarrow> 's server \<Rightarrow> bool \<times> 's server" where
  "add_to_reader c sv =
     try_readers num_readers c (sv\<lparr>sv_last_reader := next_reader (sv_last_reader sv)\<rparr>)"

section \<open>Connections\<close>

text \<open>Finding or creating the connection of an endpoint, under \<open>_mutex_conns\<close>.\<close>

definition find_or_create :: "int \<Rightarrow> nat \<Rightarrow> ('s server, nat) sm" where
  "find_or_create now ep = (\<lambda>sv. case sv_reg sv ep of
       Some c \<Rightarrow> (Inr c, sv)
     | None \<Rightarrow> let c = length (sv_heap sv); conn = connection_new ep (sv_index sv) now in
         (case bind_sum (add_i32 (sv_index sv) 1) (\<lambda>i. bind_sum (add_i32 (sv_count sv) 1) (\<lambda>n. Inr (i, n))) of
            Inl e \<Rightarrow> (Inl e, sv)
          | Inr (i, n) \<Rightarrow> (Inr c, sv\<lparr>sv_heap := sv_heap sv @ [conn], sv_reg := (sv_reg sv)(ep := Some c),
              sv_index := i, sv_count := n\<rparr>)))"

text \<open>\<open>handle_read\<close>, for an outstanding \<open>async_read_some\<close> of \<open>ep\<close>.\<close>

definition handle_read :: "int \<Rightarrow> nat \<Rightarrow> bool \<Rightarrow> ('s server, unit) sm" where
  "handle_read now ep err = bind_sm (modify (sv_armed_update (remove1 ep))) (\<lambda>_.
     bind_sm (gets sv_stop) (\<lambda>stop.
     if \<not> err \<and> \<not> stop then
       bind_sm (find_or_create now ep) (\<lambda>c sv. case add_to_reader c sv of
           (True, sv') \<Rightarrow> (Inr (), sv')
         | (False, sv') \<Rightarrow> (Inl Aborted, sv'))
     else ret ()))"

text \<open>\<open>close_connection\<close>, under \<open>_mutex_conns\<close>.\<close>

definition close_connection :: "'s platform \<Rightarrow> nat \<Rightarrow> ('s server, unit) sm" where
  "close_connection P c = bind_sm (deref c) (\<lambda>conn.
     bind_sm (modify (\<lambda>sv. sv\<lparr>sv_socks := (sv_socks sv)[cn_ep conn := asio_close P (sv_socks sv ! cn_ep conn)],
       sv_reg := (sv_reg sv)(cn_ep conn := None)\<rparr>)) (\<lambda>_.
     bind_sm (gets sv_count) (\<lambda>n.
     bind_sm (lift_sum (add_i32 n (- 1))) (\<lambda>n'.
     modify (sv_count_update (\<lambda>_. n'))))))"

text \<open>
  \<open>cleanup_connections\<close>, whose call is commented out in \<open>handle_accept\<close>. \<open>keys\<close> are the keys of
  the map in the order of its iterator, \<open>rnd\<close> is what \<open>rand()\<close> returns. An iterator whose element
  is erased must not be advanced, and one past the end must not be read.
\<close>

definition conn_cleanup_interval :: int where
  "conn_cleanup_interval = 400"

fun cleanup_loop :: "'s platform \<Rightarrow> int \<Rightarrow> nat list \<Rightarrow> nat \<Rightarrow> ('s server, unit) sm" where
  "cleanup_loop P now keys 0 = ret ()"
| "cleanup_loop P now [] (Suc n) = fail (Undefined BadIterator)"
| "cleanup_loop P now (ep # keys) (Suc n) =
     bind_sm (gets (\<lambda>sv. sv_reg sv ep)) (\<lambda>r. case r of
       None \<Rightarrow> fail (Undefined BadIterator)
     | Some c \<Rightarrow> bind_sm (deref c) (\<lambda>conn.
         if time_out now conn then
           bind_sm (close_connection P c) (\<lambda>_. fail (Undefined BadIterator))
         else cleanup_loop P now keys n))"

definition cleanup_connections :: "'s platform \<Rightarrow> int \<Rightarrow> nat \<Rightarrow> nat list \<Rightarrow> ('s server, unit) sm" where
  "cleanup_connections P now rnd keys = bind_sm (gets (\<lambda>sv. sv)) (\<lambda>sv.
     if sv_count sv = 0 then ret ()
     else if now - sv_last_cleanup sv < conn_cleanup_interval then ret ()
     else
       let last = nat (int rnd mod \<bar>sint (sv_count sv)\<bar>) in
       bind_sm (cleanup_loop P now keys (Suc last)) (\<lambda>_.
       modify (sv_last_cleanup_update (\<lambda>_. now))))"

section \<open>Readers\<close>

text \<open>\<open>_bq_conn.pop()\<close> of reader \<open>i\<close>, which blocks on an empty queue (\<open>None\<close>).\<close>

definition reader_take :: "nat \<Rightarrow> ('s server, nat option) sm" where
  "reader_take i = bind_sm (gets (\<lambda>sv. sv_readers sv ! i)) (\<lambda>bq. case bq_poll bq of (r, bq') \<Rightarrow>
     bind_sm (modify (\<lambda>sv. sv\<lparr>sv_readers := (sv_readers sv)[i := bq']\<rparr>)) (\<lambda>_. ret r))"

text \<open>Reading a call: \<open>None\<close> when it was not understood. The contact time is then set.\<close>

definition read_io :: "'s platform \<Rightarrow> nat \<Rightarrow> (server_call \<times> connection, 's, bool) io" where
  "read_io P d = zoom fst (\<lambda>call (_, conn). (call, conn)) (call_read P d)"

definition reader_read :: "'s platform \<Rightarrow> nat \<Rightarrow> int \<Rightarrow> nat \<Rightarrow> ('s server, server_call option) sm" where
  "reader_read P d now c = bind_sm (on_conn c (call_new (Some c)) (read_io P d)) (\<lambda>(ok, call).
     if ok then
       bind_sm (deref c) (\<lambda>conn.
       bind_sm (modify (put_conn c (set_last_contact now conn))) (\<lambda>_. ret (Some call)))
     else ret None)"

text \<open>\<open>_bq_call.try_push(s_call)\<close>; when it is full the server aborts.\<close>

definition reader_push :: "server_call \<Rightarrow> ('s server, unit) sm" where
  "reader_push call = bind_sm (gets sv_calls) (\<lambda>bq. case bq_offer True call bq of (ok, bq') \<Rightarrow>
     if ok then modify (sv_calls_update (\<lambda>_. bq')) else fail Aborted)"

text \<open>The connection is given back to the listener, in case the client sends another call.\<close>

definition reader_arm :: "nat \<Rightarrow> ('s server, unit) sm" where
  "reader_arm c = bind_sm (deref c) (\<lambda>conn. modify (sv_armed_update (\<lambda>eps. cn_ep conn # eps)))"

definition do_read :: "'s platform \<Rightarrow> nat \<Rightarrow> int \<Rightarrow> nat \<Rightarrow> ('s server, unit) sm" where
  "do_read P d now c = bind_sm (reader_read P d now c) (\<lambda>r. case r of
       None \<Rightarrow> close_connection P c
     | Some call \<Rightarrow> bind_sm (reader_push call) (\<lambda>_. reader_arm c))"

definition reader_round :: "'s platform \<Rightarrow> nat \<Rightarrow> int \<Rightarrow> nat \<Rightarrow> ('s server, unit) sm" where
  "reader_round P d now i = bind_sm (reader_take i) (\<lambda>r. case r of
       None \<Rightarrow> ret ()
     | Some c \<Rightarrow> do_read P d now c)"

end
