(* ===== verification/Server_Core.thy ===== *)
theory Server_Core
  imports Listener
begin

text \<open>
  The server as threads that run at the same time (\<open>src/Server.cpp\<close>): the listener's thread,
  which runs the callbacks, two readers, two handlers, the responder, and the thread of the
  signal handler that shuts the server down.

  A thread is a program counter; a step of a thread is one of the moments defined in the
  theories of the components, which the code runs under the lock of the object concerned or on
  data that is the thread's own. A configuration is the shared memory with all program counters,
  and an action says which thread moves; \<open>step\<close> is \<open>None\<close> for a thread that is blocked, and a
  fault for a step that brings the process down.
\<close>

section \<open>Threads\<close>

datatype reader_pc =
    RPop
  | RRead nat
  | RPush nat server_call
  | RArm nat
  | RClose nat
  | RStopped

datatype handler_pc =
    HPop
  | HCompute server_call
  | HPush server_call
  | HSize nat
  | HTry nat
  | HSend nat server_call
  | HRequeue nat
  | HEnqueue nat
  | HStopped

datatype responder_pc =
    SPop
  | SFind nat
  | STry nat
  | SSend nat server_call
  | SRequeue nat
  | SStopped

datatype main_pc =
    MRun
  | MReaders nat
  | MHandlers nat
  | MResponder
  | MExit

text \<open>A moment of a thread, and where the thread goes on: \<open>None\<close> when it blocks.\<close>

definition moment :: "('s server, 'a) sm \<Rightarrow> ('a \<Rightarrow> 'pc option) \<Rightarrow> 's server \<Rightarrow> (fault + 'pc \<times> 's server) option" where
  "moment m k sv = (case m sv of
       (Inl e, sv') \<Rightarrow> Some (Inl e)
     | (Inr x, sv') \<Rightarrow> (case k x of None \<Rightarrow> None | Some pc \<Rightarrow> Some (Inr (pc, sv'))))"

text \<open>\<open>Reader::start\<close> and \<open>_do_read\<close>; \<open>stop\<close> is the flag the loop tests.\<close>

fun reader_step :: "'s platform \<Rightarrow> nat \<Rightarrow> int \<Rightarrow> nat \<Rightarrow> bool \<Rightarrow> reader_pc \<Rightarrow> 's server \<Rightarrow>
    (fault + reader_pc \<times> 's server) option" where
  "reader_step P d now i stop RPop = moment (reader_take i) (map_option RRead)"
| "reader_step P d now i stop (RRead c) = moment (reader_read P d now c)
     (\<lambda>r. Some (case r of None \<Rightarrow> RClose c | Some call \<Rightarrow> RPush c call))"
| "reader_step P d now i stop (RPush c call) = moment (reader_push call) (\<lambda>_. Some (RArm c))"
| "reader_step P d now i stop (RArm c) = moment (reader_arm c) (\<lambda>_. Some (if stop then RStopped else RPop))"
| "reader_step P d now i stop (RClose c) =
     moment (close_connection P c) (\<lambda>_. Some (if stop then RStopped else RPop))"
| "reader_step P d now i stop RStopped = (\<lambda>sv. None)"

text \<open>\<open>Handler::handle\<close> with \<open>Responder::doRespond\<close>\<close>

fun handler_step :: "'s platform \<Rightarrow> bool \<Rightarrow> handler_pc \<Rightarrow> 's server \<Rightarrow> (fault + handler_pc \<times> 's server) option" where
  "handler_step P stop HPop = moment handler_take (map_option HCompute)"
| "handler_step P stop (HCompute call) = moment (lift_sum (handler_compute call)) (\<lambda>call'. Some (HPush call'))"
| "handler_step P stop (HPush call) = (case sc_conn call of
       None \<Rightarrow> moment (fail (Undefined NullDeref)) (\<lambda>_ :: unit. None)
     | Some c \<Rightarrow> moment (bind_sm (respond_push call c) (\<lambda>ok. if ok then ret () else fail Aborted))
         (\<lambda>_. Some (HSize c)))"
| "handler_step P stop (HSize c) = moment (respond_alone c) (\<lambda>alone. Some (if alone then HTry c else HEnqueue c))"
| "handler_step P stop (HTry c) = moment (respond_pop c)
     (\<lambda>r. Some (case r of None \<Rightarrow> if stop then HStopped else HPop | Some call \<Rightarrow> HSend c call))"
| "handler_step P stop (HSend c call) = moment (respond_send P c call)
     (\<lambda>res. Some (if res = 1 then HRequeue c else if stop then HStopped else HPop))"
| "handler_step P stop (HRequeue c) = moment (respond_enqueue False c) (\<lambda>_. Some (if stop then HStopped else HPop))"
| "handler_step P stop (HEnqueue c) = moment (respond_enqueue True c) (\<lambda>_. Some (if stop then HStopped else HPop))"
| "handler_step P stop HStopped = (\<lambda>sv. None)"

text \<open>\<open>Responder::respond\<close>\<close>

fun responder_step :: "'s platform \<Rightarrow> bool \<Rightarrow> responder_pc \<Rightarrow> 's server \<Rightarrow>
    (fault + responder_pc \<times> 's server) option" where
  "responder_step P stop SPop = moment respond_take (map_option SFind)"
| "responder_step P stop (SFind ep) = moment (respond_find ep) (\<lambda>c. Some (STry c))"
| "responder_step P stop (STry c) = moment
     (bind_sm (respond_pop c) (\<lambda>r. case r of None \<Rightarrow> fail Aborted | Some call \<Rightarrow> ret call))
     (\<lambda>call. Some (SSend c call))"
| "responder_step P stop (SSend c call) = moment
     (bind_sm (respond_send P c call) (\<lambda>res. if res < 0 then fail Aborted else ret res))
     (\<lambda>res. Some (if res = 1 then SRequeue c else if stop then SStopped else SPop))"
| "responder_step P stop (SRequeue c) = moment (respond_enqueue False c) (\<lambda>_. Some (if stop then SStopped else SPop))"
| "responder_step P stop SStopped = (\<lambda>sv. None)"

section \<open>Configurations\<close>

record 's config =
  cf_server :: "'s server"
  cf_readers :: "reader_pc list"
  cf_handlers :: "handler_pc list"
  cf_responder :: responder_pc
  cf_main :: main_pc
  cf_reader_stop :: "bool list" \<comment> \<open>\<open>_should_stop\<close> of each reader\<close>
  cf_handler_stop :: "bool list"
  cf_responder_stop :: bool

text \<open>\<open>Server::Server\<close> and \<open>Server::start\<close>: all threads run, and the listener waits for a client.\<close>

definition config_init :: "'s config" where
  "config_init = \<lparr>cf_server = do_accept server_new,
     cf_readers = replicate num_readers RPop, cf_handlers = replicate num_handlers HPop,
     cf_responder = SPop, cf_main = MRun,
     cf_reader_stop = replicate num_readers False, cf_handler_stop = replicate num_handlers False,
     cf_responder_stop = False\<rparr>"

text \<open>
  \<open>waitToFinish\<close> of a reader, a handler and the responder: it polls until the queue is empty
  (\<open>None\<close> while it is not) and then sets the flag the loop of the thread tests.
\<close>

definition reader_wait_to_finish :: "nat \<Rightarrow> 's config \<Rightarrow> 's config option" where
  "reader_wait_to_finish i cf = (if bq_size (sv_readers (cf_server cf) ! i) = 0
     then Some (cf\<lparr>cf_reader_stop := (cf_reader_stop cf)[i := True]\<rparr>) else None)"

definition handler_wait_to_finish :: "nat \<Rightarrow> 's config \<Rightarrow> 's config option" where
  "handler_wait_to_finish i cf = (if bq_size (sv_calls (cf_server cf)) = 0
     then Some (cf\<lparr>cf_handler_stop := (cf_handler_stop cf)[i := True]\<rparr>) else None)"

definition responder_wait_to_finish :: "'s config \<Rightarrow> 's config option" where
  "responder_wait_to_finish cf = (if bq_size (sv_responds (cf_server cf)) = 0
     then Some (cf\<lparr>cf_responder_stop := True\<rparr>) else None)"

text \<open>\<open>Listener::stop\<close>: its flag, then each reader in turn.\<close>

definition listener_stop :: "'s config \<Rightarrow> 's config" where
  "listener_stop cf = cf\<lparr>cf_server := (cf_server cf)\<lparr>sv_stop := True\<rparr>\<rparr>"

lemmas stop_defs = reader_wait_to_finish_def handler_wait_to_finish_def responder_wait_to_finish_def listener_stop_def

text \<open>
  \<open>Server::stop\<close> on the thread of the signal: the listener with its readers, each handler, and the
  responder.
\<close>

definition main_step :: "'s config \<Rightarrow> 's config option" where
  "main_step cf = (case cf_main cf of
       MRun \<Rightarrow> Some ((listener_stop cf)\<lparr>cf_main := MReaders 0\<rparr>)
     | MReaders i \<Rightarrow> map_option (cf_main_update (\<lambda>_. if Suc i < num_readers then MReaders (Suc i) else MHandlers 0))
         (reader_wait_to_finish i cf)
     | MHandlers i \<Rightarrow> map_option (cf_main_update (\<lambda>_. if Suc i < num_handlers then MHandlers (Suc i) else MResponder))
         (handler_wait_to_finish i cf)
     | MResponder \<Rightarrow> map_option (cf_main_update (\<lambda>_. MExit)) (responder_wait_to_finish cf)
     | MExit \<Rightarrow> None)"

datatype 's action =
    Accepted 's bool \<comment> \<open>\<open>handle_accept\<close> with the socket of a client, or an error\<close>
  | Readable nat bool int \<comment> \<open>\<open>handle_read\<close> for an endpoint, its error and the time\<close>
  | ReaderMove nat int
  | HandlerMove nat
  | ResponderMove
  | Shutdown

fun thread_step :: "'s platform \<Rightarrow> nat \<Rightarrow> 's action \<Rightarrow> 's config \<Rightarrow> (fault + 's config) option" where
  "thread_step P d (Accepted s err) cf =
     (if sv_accepting (cf_server cf) then Some (Inr (cf\<lparr>cf_server := handle_accept s err (cf_server cf)\<rparr>)) else None)"
| "thread_step P d (Readable ep err now) cf =
     (if ep \<in> set (sv_armed (cf_server cf)) then
        (case handle_read now ep err (cf_server cf) of
           (Inl e, sv) \<Rightarrow> Some (Inl e)
         | (Inr _, sv) \<Rightarrow> Some (Inr (cf\<lparr>cf_server := sv\<rparr>)))
      else None)"
| "thread_step P d (ReaderMove i now) cf =
     (if i < length (cf_readers cf) then
        map_option (map_sum id (\<lambda>(pc, sv). cf\<lparr>cf_readers := (cf_readers cf)[i := pc], cf_server := sv\<rparr>))
          (reader_step P d now i (cf_reader_stop cf ! i) (cf_readers cf ! i) (cf_server cf))
      else None)"
| "thread_step P d (HandlerMove i) cf =
     (if i < length (cf_handlers cf) then
        map_option (map_sum id (\<lambda>(pc, sv). cf\<lparr>cf_handlers := (cf_handlers cf)[i := pc], cf_server := sv\<rparr>))
          (handler_step P (cf_handler_stop cf ! i) (cf_handlers cf ! i) (cf_server cf))
      else None)"
| "thread_step P d ResponderMove cf =
     map_option (map_sum id (\<lambda>(pc, sv). cf\<lparr>cf_responder := pc, cf_server := sv\<rparr>))
       (responder_step P (cf_responder_stop cf) (cf_responder cf) (cf_server cf))"
| "thread_step P d Shutdown cf = map_option Inr (main_step cf)"

text \<open>After \<open>Server::stop\<close> the process exits, whatever its other threads are doing.\<close>

definition step :: "'s platform \<Rightarrow> nat \<Rightarrow> 's action \<Rightarrow> 's config \<Rightarrow> (fault + 's config) option" where
  "step P d a cf = (if cf_main cf = MExit then None else thread_step P d a cf)"

text \<open>Configurations the server can reach, from its start.\<close>

inductive reachable :: "'s platform \<Rightarrow> nat \<Rightarrow> 's config \<Rightarrow> bool" for P d where
  start: "reachable P d config_init"
| move: "reachable P d cf \<Longrightarrow> step P d a cf = Some (Inr cf') \<Longrightarrow> reachable P d cf'"

text \<open>A run of given actions, for evaluating schedules.\<close>

fun run :: "'s platform \<Rightarrow> nat \<Rightarrow> 's action list \<Rightarrow> 's config \<Rightarrow> (fault + 's config) option" where
  "run P d [] cf = Some (Inr cf)"
| "run P d (a # as) cf = (case step P d a cf of
       None \<Rightarrow> None
     | Some (Inl e) \<Rightarrow> Some (Inl e)
     | Some (Inr cf') \<Rightarrow> run P d as cf')"

lemma run_reachable: "reachable P d cf \<Longrightarrow> run P d as cf = Some (Inr cf') \<Longrightarrow> reachable P d cf'"
  by (induction as arbitrary: cf) (auto intro: reachable.move split: option.splits sum.splits)

end
