(* ===== verification/Server_Effects.thy ===== *)
theory Server_Effects
  imports Server_Core "HOL-Library.Multiset"
begin

text \<open>
  What each moment of a thread does to the parts of the shared memory the invariants speak of:
  the endpoints of the connections (\<open>eps\<close>), the lengths of their queues (\<open>qlen\<close>), the map, the
  outstanding reads, the readers' queues, \<open>_bq_respond\<close> and \<open>_bq_call\<close>.
\<close>

definition eps :: "'s server \<Rightarrow> nat list" where
  "eps sv = map cn_ep (sv_heap sv)"

definition qlen :: "'s server \<Rightarrow> nat \<Rightarrow> nat" where
  "qlen sv c = length (bq_items (cn_queue (sv_heap sv ! c)))"

text \<open>What the listener and the readers see, and what the handlers and the responder see.\<close>

definition listener_view ::
  "'s server \<Rightarrow> nat list \<times> nat \<times> (nat \<Rightarrow> nat option) \<times> nat list \<times> nat block_queue list \<times> i32 \<times> bool \<times> int" where
  "listener_view sv = (eps sv, length (sv_socks sv), sv_reg sv, sv_armed sv, sv_readers sv,
     sv_count sv, sv_accepting sv, sv_last_reader sv)"

definition response_view :: "'s server \<Rightarrow> (nat \<Rightarrow> nat) \<times> nat block_queue" where
  "response_view sv = (qlen sv, sv_responds sv)"

lemma length_eps [simp]: "length (eps sv) = length (sv_heap sv)"
  by (simp add: eps_def)

lemma eps_nth: "c < length (sv_heap sv) \<Longrightarrow> eps sv ! c = ep_of sv c"
  by (simp add: eps_def ep_of_def)

lemma eps_put [simp]:
  "cn_ep conn = cn_ep (sv_heap sv ! c) \<Longrightarrow> eps (put_conn c conn sv) = eps sv"
  by (cases "c < length (sv_heap sv)") (simp_all add: eps_def put_conn_def map_update list_update_beyond map_nth
      list_update_same_conv)

lemma qlen_put:
  "c < length (sv_heap sv) \<Longrightarrow> qlen (put_conn c conn sv) = (qlen sv)(c := length (bq_items (cn_queue conn)))"
  by (auto simp: qlen_def put_conn_def fun_eq_iff nth_list_update)

lemma put_heap: "sv_heap (put_conn c conn sv) = (sv_heap sv)[c := conn]"
  by (simp add: put_conn_def)

lemma put_conn_simps [simp]:
  "sv_socks (put_conn c conn sv) = sv_socks sv" "sv_reg (put_conn c conn sv) = sv_reg sv"
  "sv_armed (put_conn c conn sv) = sv_armed sv" "sv_readers (put_conn c conn sv) = sv_readers sv"
  "sv_count (put_conn c conn sv) = sv_count sv" "sv_responds (put_conn c conn sv) = sv_responds sv"
  "sv_calls (put_conn c conn sv) = sv_calls sv" "sv_accepting (put_conn c conn sv) = sv_accepting sv"
  "sv_last_reader (put_conn c conn sv) = sv_last_reader sv" "sv_stop (put_conn c conn sv) = sv_stop sv"
  by (simp_all add: put_conn_def)

section \<open>Handlers and responder\<close>

lemma handler_take_effect:
  assumes "handler_take sv = (Inr r, sv')"
  shows "listener_view sv' = listener_view sv \<and> response_view sv' = response_view sv \<and>
    (case r of None \<Rightarrow> sv' = sv | Some call \<Rightarrow> bq_items (sv_calls sv) = call # bq_items (sv_calls sv'))"
  using assms
  by (auto simp: handler_take_def sm_simps listener_view_def response_view_def eps_def qlen_def fun_eq_iff
      bq_poll_def bq_remove_def has_item_def bq_size_def split: if_splits list.splits option.split)

lemma respond_push_effect:
  assumes "respond_push call c sv = (Inr ok, sv')"
  shows "c < length (sv_heap sv) \<and> listener_view sv' = listener_view sv \<and> sv_calls sv' = sv_calls sv \<and>
    response_view sv' = ((if ok then (qlen sv)(c := Suc (qlen sv c)) else qlen sv), sv_responds sv)"
  using assms
  by (auto simp: respond_push_def sm_simps listener_view_def response_view_def bq_offer_def
      bq_insert_def qlen_def put_heap nth_list_update fun_eq_iff split: if_splits prod.splits)

lemma respond_alone_effect:
  assumes "respond_alone c sv = (Inr alone, sv')"
  shows "c < length (sv_heap sv) \<and> sv' = sv"
  using assms by (auto simp: respond_alone_def sm_simps split: if_splits)

lemma respond_enqueue_effect:
  assumes "respond_enqueue back c sv = (Inr u, sv')"
  shows "c < length (sv_heap sv) \<and> listener_view sv' = listener_view sv \<and> sv_calls sv' = sv_calls sv \<and>
    qlen sv' = qlen sv \<and> mset (bq_items (sv_responds sv')) = add_mset (ep_of sv c) (mset (bq_items (sv_responds sv)))"
  using assms
  by (auto simp: respond_enqueue_def sm_simps listener_view_def eps_def qlen_def fun_eq_iff bq_offer_def
      bq_insert_def ep_of_def split: if_splits prod.splits)

lemma respond_pop_effect:
  assumes "respond_pop c sv = (Inr r, sv')"
  shows "c < length (sv_heap sv) \<and> listener_view sv' = listener_view sv \<and> sv_calls sv' = sv_calls sv \<and>
    (case r of None \<Rightarrow> qlen sv c = 0 \<and> response_view sv' = response_view sv
     | Some call \<Rightarrow> 0 < qlen sv c \<and> response_view sv' = ((qlen sv)(c := qlen sv c - 1), sv_responds sv))"
  using assms
  by (auto simp: respond_pop_def sm_simps listener_view_def response_view_def put_heap nth_list_update bq_poll_def
      bq_remove_def has_item_def bq_size_def qlen_def fun_eq_iff split: if_splits prod.splits list.splits option.split)

lemma respond_take_effect:
  assumes "respond_take sv = (Inr r, sv')"
  shows "listener_view sv' = listener_view sv \<and> qlen sv' = qlen sv \<and> sv_calls sv' = sv_calls sv \<and>
    (case r of None \<Rightarrow> sv' = sv | Some ep \<Rightarrow> bq_items (sv_responds sv) = ep # bq_items (sv_responds sv'))"
  using assms
  by (auto simp: respond_take_def sm_simps listener_view_def eps_def qlen_def fun_eq_iff
      bq_poll_def bq_remove_def has_item_def bq_size_def split: if_splits list.splits option.split)

lemma respond_find_effect:
  assumes "respond_find ep sv = (Inr c, sv')"
  shows "sv' = sv \<and> sv_reg sv ep = Some c"
  using assms by (auto simp: respond_find_def sm_simps split: option.splits)

lemma sock_write_obj:
  "sock_write P bs (ob, p) = (r, (ob', p')) \<Longrightarrow> ob' = ob \<and> (p = None \<longleftrightarrow> p' = None)"
  by (auto simp: sock_write_def split: option.splits prod.splits)

lemma sock_write_some_obj:
  "sock_write_some P bs (ob, p) = (r, (ob', p')) \<Longrightarrow> ob' = ob \<and> (p = None \<longleftrightarrow> p' = None)"
  by (auto simp: sock_write_some_def split: option.splits prod.splits)

lemma start_response_obj:
  "start_response P call len pos (ob, p) = (r, (ob', p')) \<Longrightarrow> ob' = ob \<and> (p = None \<longleftrightarrow> p' = None)"
  by (auto simp: start_response_def sm_simps dest!: sock_write_obj split: if_splits prod.splits sum.splits)

lemma process_response_queue:
  assumes run: "process_response P ((call, conn), p) = (Inr r, ((call', conn'), p'))"
  shows "if r = 1 then \<exists>call''. conn' = conn\<lparr>cn_queue := bq_insert True call'' (cn_queue conn)\<rparr> else conn' = conn"
proof -
  show ?thesis using run
    by (auto simp: process_response_def sm_simps Let_def bq_offer_def dest!: start_response_obj sock_write_some_obj
      split: if_splits prod.splits sum.splits fault.splits)
qed
lemma eps_update: "cn_ep conn = cn_ep (sv_heap sv ! c) \<Longrightarrow> map cn_ep ((sv_heap sv)[c := conn]) = eps sv"
  using eps_put [of conn sv c] by (simp add: eps_def put_heap)

lemma on_conn_effect:
  assumes "on_conn c x m sv = (Inr (a, x'), sv')"
  obtains conn' p' socks where "c < length (sv_heap sv)" "cn_ep (sv_heap sv ! c) < length (sv_socks sv)"
    "m ((x, sv_heap sv ! c), Some (sock_of sv c)) = (Inr a, ((x', conn'), p'))"
    "length socks = length (sv_socks sv)" "sv' = (put_conn c conn' sv)\<lparr>sv_socks := socks\<rparr>"
proof -
  let ?socks = "\<lambda>p'. case p' of None \<Rightarrow> sv_socks sv | Some s' \<Rightarrow> (sv_socks sv)[cn_ep (sv_heap sv ! c) := s']"
  obtain conn' p' where "c < length (sv_heap sv)" "cn_ep (sv_heap sv ! c) < length (sv_socks sv)"
    "m ((x, sv_heap sv ! c), Some (sock_of sv c)) = (Inr a, ((x', conn'), p'))"
    "sv' = (put_conn c conn' sv)\<lparr>sv_socks := ?socks p'\<rparr>"
    using assms by (auto simp: on_conn_def Let_def sock_of_def put_conn_def split: if_splits prod.splits sum.splits)
  then show thesis by (intro that [of conn' p' "?socks p'"]) (simp_all split: option.split)
qed

lemma respond_send_effect:
  assumes "respond_send P c call sv = (Inr res, sv')"
  shows "c < length (sv_heap sv) \<and> listener_view sv' = listener_view sv \<and> sv_calls sv' = sv_calls sv \<and>
    response_view sv' = ((if res = 1 then (qlen sv)(c := Suc (qlen sv c)) else qlen sv), sv_responds sv)"
proof -
  obtain x where "on_conn c call (process_response P) sv = (Inr (res, x), sv')"
    using assms by (auto simp: respond_send_def sm_simps split: prod.splits sum.splits)
  then obtain conn' p' socks where c: "c < length (sv_heap sv)"
    and run: "process_response P ((call, sv_heap sv ! c), Some (sock_of sv c)) = (Inr res, ((x, conn'), p'))"
    and socks: "length socks = length (sv_socks sv)" and sv': "sv' = (put_conn c conn' sv)\<lparr>sv_socks := socks\<rparr>"
    by (rule on_conn_effect)
  have conn': "cn_ep conn' = cn_ep (sv_heap sv ! c)"
    "length (bq_items (cn_queue conn')) = (if res = 1 then Suc (qlen sv c) else qlen sv c)"
    using process_response_queue [OF run] by (auto simp: bq_insert_def qlen_def split: if_splits)
  have "qlen sv' = (if res = 1 then (qlen sv)(c := Suc (qlen sv c)) else qlen sv)"
    using c conn'(2) by (auto simp: sv' qlen_def put_heap nth_list_update fun_eq_iff)
  then show ?thesis
    using c conn'(1) socks by (simp add: sv' listener_view_def response_view_def eps_def put_heap eps_update)
qed

section \<open>Readers\<close>

lemma reader_take_effect:
  assumes "reader_take i sv = (Inr r, sv')"
  shows "response_view sv' = response_view sv \<and> sv_calls sv' = sv_calls sv \<and>
    (case r of None \<Rightarrow> bq_items (sv_readers sv ! i) = []
     | Some c \<Rightarrow> \<exists>cs. bq_items (sv_readers sv ! i) = c # cs \<and>
         sv' = sv\<lparr>sv_readers := (sv_readers sv)[i := (sv_readers sv ! i)\<lparr>bq_items := cs\<rparr>]\<rparr>)"
  using assms
  by (auto simp: reader_take_def sm_simps response_view_def qlen_def fun_eq_iff
      bq_poll_def bq_remove_def has_item_def bq_size_def split: if_splits list.splits option.split)

lemma keeps_call_conn: "keeps (\<lambda>call. sc_conn call = x) (call_read P d)"
proof -
  have "keeps (\<lambda>_. True) m" for m by (simp add: keeps_def)
  then show ?thesis unfolding call_read_def Let_def
    by (intro keeps_intros keeps_modify_obj keeps_zoom [where R = "\<lambda>_. True"]) simp_all
qed

lemma read_io_effect:
  assumes "read_io P d ((call, conn), p) = (r, ((call', conn'), p'))"
  shows "conn' = conn \<and> sc_conn call' = sc_conn call"
proof -
  obtain r1 c1 p1 where run: "call_read P d (call, p) = (r1, (c1, p1))" by (metis prod.exhaust)
  from keepsD [OF keeps_call_conn run, of "sc_conn call"] assms show ?thesis
    by (auto simp: read_io_def zoom_run run)
qed

lemma reader_read_effect:
  assumes "reader_read P d now c sv = (Inr r, sv')"
  shows "c < length (sv_heap sv) \<and> listener_view sv' = listener_view sv \<and> response_view sv' = response_view sv \<and>
    sv_calls sv' = sv_calls sv \<and> (case r of None \<Rightarrow> True | Some call \<Rightarrow> sc_conn call = Some c)"
proof -
  obtain ok call sv1 where on: "on_conn c (call_new (Some c)) (read_io P d) sv = (Inr (ok, call), sv1)"
    and rest: "(if ok then bind_sm (deref c) (\<lambda>conn.
         bind_sm (modify (put_conn c (set_last_contact now conn))) (\<lambda>_. ret (Some call)))
       else ret None) sv1 = (Inr r, sv')"
    using assms by (auto simp: reader_read_def bind_sm_run [of "on_conn _ _ _"] split: prod.splits sum.splits)
  obtain conn' p' socks where c: "c < length (sv_heap sv)"
    and run: "read_io P d ((call_new (Some c), sv_heap sv ! c), Some (sock_of sv c)) = (Inr ok, ((call, conn'), p'))"
    and socks: "length socks = length (sv_socks sv)" and sv1: "sv1 = (put_conn c conn' sv)\<lparr>sv_socks := socks\<rparr>"
    using on by (rule on_conn_effect)
  have conn': "conn' = sv_heap sv ! c" and call: "sc_conn call = Some c"
    using read_io_effect [OF run] by (simp_all add: call_new_def)
  have "listener_view sv1 = listener_view sv" "response_view sv1 = response_view sv" "sv_calls sv1 = sv_calls sv"
    "sv_heap sv1 = sv_heap sv"
    using socks by (simp_all add: sv1 conn' listener_view_def response_view_def qlen_def eps_def put_heap fun_eq_iff)
  moreover have "listener_view sv' = listener_view sv1" "response_view sv' = response_view sv1" "sv_calls sv' = sv_calls sv1"
    and "case r of None \<Rightarrow> True | Some call \<Rightarrow> sc_conn call = Some c"
    using rest call
    by (auto simp: sm_simps listener_view_def response_view_def qlen_def eps_def put_heap eps_update fun_eq_iff
        set_last_contact_def nth_list_update split: if_splits)
  ultimately show ?thesis using c by simp
qed

lemma reader_push_effect:
  assumes "reader_push call sv = (Inr u, sv')"
  shows "listener_view sv' = listener_view sv \<and> response_view sv' = response_view sv \<and>
    bq_items (sv_calls sv') = bq_items (sv_calls sv) @ [call]"
  using assms
  by (auto simp: reader_push_def sm_simps listener_view_def response_view_def eps_def qlen_def fun_eq_iff
      bq_offer_def bq_insert_def split: if_splits)

lemma reader_arm_effect:
  assumes "reader_arm c sv = (Inr u, sv')"
  shows "c < length (sv_heap sv) \<and> sv' = sv\<lparr>sv_armed := ep_of sv c # sv_armed sv\<rparr>"
  using assms by (auto simp: reader_arm_def sm_simps ep_of_def split: if_splits)

lemma close_connection_effect:
  assumes "close_connection P c sv = (Inr u, sv')"
  shows "c < length (sv_heap sv) \<and> sint (sv_count sv') = sint (sv_count sv) - 1 \<and>
    (\<exists>socks. length socks = length (sv_socks sv) \<and>
      sv' = sv\<lparr>sv_socks := socks, sv_reg := (sv_reg sv)(ep_of sv c := None), sv_count := sv_count sv'\<rparr>)"
proof -
  let ?socks = "(sv_socks sv)[ep_of sv c := asio_close P (sv_socks sv ! ep_of sv c)]"
  from assms obtain n where c: "c < length (sv_heap sv)" and n: "add_i32 (sv_count sv) (- 1) = Inr n"
    and sv': "sv' = sv\<lparr>sv_socks := ?socks, sv_reg := (sv_reg sv)(ep_of sv c := None), sv_count := n\<rparr>"
    by (auto simp: close_connection_def sm_simps ep_of_def split: if_splits sum.splits)
  from add_i32_Inr [OF n] have "sint n = sint (sv_count sv) - 1" by simp
  with c sv' show ?thesis by (auto intro: exI [of _ ?socks])
qed

section \<open>Listener\<close>

definition readers_ok :: "'s server \<Rightarrow> bool" where
  "readers_ok sv \<longleftrightarrow> length (sv_readers sv) = num_readers \<and> - 1 \<le> sv_last_reader sv \<and> sv_last_reader sv < int num_readers"

lemma next_reader_range:
  "0 \<le> next_reader i" "next_reader i < int num_readers" "nat (next_reader i) < num_readers"
  by (simp_all add: next_reader_def num_readers_def)

lemma reader_add_cases:
  "reader_add i c sv = (if has_room (sv_readers sv ! i)
     then (True, sv\<lparr>sv_readers := (sv_readers sv)[i := bq_insert True c (sv_readers sv ! i)]\<rparr>) else (False, sv))"
  by (simp add: reader_add_def bq_offer_def)

lemma try_readers_effect:
  assumes "try_readers n c sv = (True, sv')" and "0 \<le> sv_last_reader sv" and "sv_last_reader sv < int num_readers"
  shows "\<exists>i < num_readers. has_room (sv_readers sv ! i) \<and>
    sv' = sv\<lparr>sv_readers := (sv_readers sv)[i := bq_insert True c (sv_readers sv ! i)], sv_last_reader := int i\<rparr>"
  using assms
proof (induction n arbitrary: sv)
  case 0
  then show ?case by simp
next
  case (Suc n)
  let ?i = "nat (sv_last_reader sv)"
  have i: "?i < num_readers" "int ?i = sv_last_reader sv" using Suc.prems by auto
  show ?case
  proof (cases "has_room (sv_readers sv ! ?i)")
    case True
    with Suc.prems(1) have "sv' = sv\<lparr>sv_readers := (sv_readers sv)[?i := bq_insert True c (sv_readers sv ! ?i)]\<rparr>"
      by (simp add: reader_add_cases)
    moreover have "sv = sv\<lparr>sv_last_reader := int ?i\<rparr>" using i by simp
    ultimately have "sv' = sv\<lparr>sv_readers := (sv_readers sv)[?i := bq_insert True c (sv_readers sv ! ?i)],
        sv_last_reader := int ?i\<rparr>"
      using i(2) by simp
    with True i(1) show ?thesis by blast
  next
    case False
    let ?sv = "sv\<lparr>sv_last_reader := next_reader (sv_last_reader sv)\<rparr>"
    from False Suc.prems have "try_readers n c ?sv = (True, sv')" by (simp add: reader_add_cases)
    from Suc.IH [OF this] obtain i where i: "i < num_readers" "has_room (sv_readers ?sv ! i)"
      "sv' = ?sv\<lparr>sv_readers := (sv_readers ?sv)[i := bq_insert True c (sv_readers ?sv ! i)], sv_last_reader := int i\<rparr>"
      using next_reader_range by auto
    show ?thesis by (rule exI [of _ i]) (use i in simp)
  qed
qed

lemma add_to_reader_effect:
  assumes "add_to_reader c sv = (True, sv')"
  shows "\<exists>i < num_readers. has_room (sv_readers sv ! i) \<and>
    sv' = sv\<lparr>sv_readers := (sv_readers sv)[i := bq_insert True c (sv_readers sv ! i)], sv_last_reader := int i\<rparr>"
  using try_readers_effect [OF assms [unfolded add_to_reader_def]] next_reader_range by simp

lemma find_or_create_effect:
  assumes "find_or_create now ep sv = (Inr c, sv')"
  shows "(sv_reg sv ep = Some c \<and> sv' = sv) \<or>
    (sv_reg sv ep = None \<and> c = length (sv_heap sv) \<and> sint (sv_count sv') = sint (sv_count sv) + 1 \<and>
      sv' = sv\<lparr>sv_heap := sv_heap sv @ [connection_new ep (sv_index sv) now], sv_reg := (sv_reg sv)(ep := Some c),
        sv_index := sv_index sv', sv_count := sv_count sv'\<rparr>)"
proof (cases "sv_reg sv ep")
  case (Some c')
  then show ?thesis using assms by (simp add: find_or_create_def)
next
  case None
  with assms obtain i n where n: "add_i32 (sv_count sv) 1 = Inr n" and c: "c = length (sv_heap sv)"
    and sv': "sv' = sv\<lparr>sv_heap := sv_heap sv @ [connection_new ep (sv_index sv) now],
      sv_reg := (sv_reg sv)(ep := Some c), sv_index := i, sv_count := n\<rparr>"
    by (auto simp: find_or_create_def Let_def bind_sum_eq_Inr split: sum.splits)
  with None add_i32_Inr [OF n] show ?thesis by simp
qed

text \<open>What a completed read does when it starts a reader.\<close>

lemma handle_read_effect:
  assumes "handle_read now ep err sv = (Inr u, sv')"
  shows "sv' = sv_armed_update (remove1 ep) sv \<or>
    (\<exists>c sv1 i. find_or_create now ep (sv_armed_update (remove1 ep) sv) = (Inr c, sv1) \<and>
      i < num_readers \<and>
      sv' = sv1\<lparr>sv_readers := (sv_readers sv1)[i := bq_insert True c (sv_readers sv1 ! i)], sv_last_reader := int i\<rparr>)"
proof (cases "err \<or> sv_stop sv")
  case True
  with assms show ?thesis by (auto simp: handle_read_def sm_simps)
next
  case False
  with assms obtain c sv1 where "find_or_create now ep (sv_armed_update (remove1 ep) sv) = (Inr c, sv1)"
    and "add_to_reader c sv1 = (True, sv')"
    by (auto simp: handle_read_def sm_simps split: prod.splits sum.splits bool.splits)
  with add_to_reader_effect show ?thesis by blast
qed

end
