(* ===== verification/Server_Invariant.thy ===== *)
theory Server_Invariant
  imports Server_Effects
begin

text \<open>
  Invariants of the running server, for any number of clients and any interleaving of its
  threads.

  \<^item> Every endpoint has at most one read token: an outstanding \<open>async_read_some\<close>, a place in a
    reader's queue, or a reader at work on its connection. So requests are never read by two
    threads at once, and a connection is closed by the only thread that reads it.
  \<^item> The map \<open>_connections\<close> has at most one connection for an endpoint, and
    \<open>num_connections\<close> counts them.
  \<^item> The queue of a connection holds as many calls as there are obligations to send one:
    places in \<open>_bq_respond\<close>, handlers and the responder on their way to \<open>try_pop\<close>. So a
    \<open>try_pop\<close> of a response never fails.

  The invariants are stated over what the views of theory \<open>Server_Effects\<close> show.
\<close>

section \<open>Read tokens\<close>

definition good_reg :: "nat list \<Rightarrow> nat \<Rightarrow> (nat \<Rightarrow> nat option) \<Rightarrow> bool" where
  "good_reg E L R \<longleftrightarrow> distinct E \<and> (\<forall>e \<in> set E. e < L) \<and> (\<forall>e c. R e = Some c \<longrightarrow> c < length E \<and> E ! c = e)"

definition at_most_once :: "'a multiset \<Rightarrow> bool" where
  "at_most_once M \<longleftrightarrow> (\<forall>x. count M x \<le> 1)"

definition good_reads :: "nat list \<Rightarrow> nat \<Rightarrow> (nat \<Rightarrow> nat option) \<Rightarrow> nat multiset \<Rightarrow> nat multiset \<Rightarrow> bool" where
  "good_reads E L R A H \<longleftrightarrow> at_most_once (A + image_mset ((!) E) H) \<and>
     (\<forall>e \<in># A. e < L \<and> (R e = None \<longrightarrow> e \<notin> set E)) \<and>
     (\<forall>c \<in># H. c < length E \<and> R (E ! c) = Some c)"

lemma at_most_once_mono: "at_most_once M \<Longrightarrow> M' \<subseteq># M \<Longrightarrow> at_most_once M'"
  unfolding at_most_once_def by (meson le_trans mset_subset_eq_count)

lemma at_most_once_add: "at_most_once (add_mset x M) \<longleftrightarrow> at_most_once M \<and> x \<notin># M"
proof
  assume one: "at_most_once (add_mset x M)"
  then have "count M x = 0" using one [unfolded at_most_once_def, THEN spec, of x] by simp
  then show "at_most_once M \<and> x \<notin># M"
    using at_most_once_mono [OF one, of M] by (simp add: not_in_iff)
next
  assume "at_most_once M \<and> x \<notin># M"
  then show "at_most_once (add_mset x M)" by (auto simp: at_most_once_def not_in_iff)
qed

lemma image_mset_append_nth:
  "\<forall>c \<in># H. c < length E \<Longrightarrow> image_mset ((!) (E @ F)) H = image_mset ((!) E) H"
  by (rule image_mset_cong) (simp add: nth_append)

lemma reads_accept:
  assumes "good_reg E L R" and "good_reads E L R A H"
  shows "good_reg E (Suc L) R \<and> good_reads E (Suc L) R (add_mset L A) H"
proof
  show "good_reg E (Suc L) R" using assms(1) by (auto simp: good_reg_def)
  have E: "\<forall>e \<in> set E. e < L" using assms(1) by (simp add: good_reg_def)
  have H: "\<forall>c \<in># H. c < length E \<and> R (E ! c) = Some c" and A: "\<forall>e \<in># A. e < L \<and> (R e = None \<longrightarrow> e \<notin> set E)"
    and one: "at_most_once (A + image_mset ((!) E) H)"
    using assms(2) by (auto simp: good_reads_def)
  have "E ! c \<noteq> L" if "c \<in># H" for c using E H that by (metis nth_mem order_less_irrefl)
  then have "L \<notin># A + image_mset ((!) E) H" using A by auto
  then have "at_most_once (add_mset L A + image_mset ((!) E) H)" using one by (simp add: at_most_once_add)
  then show "good_reads E (Suc L) R (add_mset L A) H"
    using A H E unfolding good_reads_def by (auto simp: less_SucI)
qed

lemma reads_drop:
  assumes "good_reads E L R A H"
  shows "good_reads E L R (A - {#e#}) H"
proof -
  have "A - {#e#} + image_mset ((!) E) H \<subseteq># A + image_mset ((!) E) H" by simp
  with assms show ?thesis unfolding good_reads_def by (auto dest: in_diffD intro: at_most_once_mono)
qed

lemma reads_start:
  assumes "good_reg E L R" and "good_reads E L R A H" and "e \<in># A" and "R e = Some c"
  shows "good_reads E L R (A - {#e#}) (add_mset c H)"
proof -
  have c: "c < length E" "E ! c = e" using assms(1,4) by (auto simp: good_reg_def)
  have "A - {#e#} + image_mset ((!) E) (add_mset c H) = A + image_mset ((!) E) H"
    using assms(3) c(2) by simp
  with assms(2) have "at_most_once (A - {#e#} + image_mset ((!) E) (add_mset c H))"
    by (simp only: good_reads_def)
  then show ?thesis using assms(2,4) c unfolding good_reads_def by (auto dest: in_diffD)
qed

lemma reads_create:
  assumes "good_reg E L R" and "good_reads E L R A H" and "e \<in># A" and "R e = None"
  shows "good_reg (E @ [e]) L (R(e := Some (length E))) \<and>
    good_reads (E @ [e]) L (R(e := Some (length E))) (A - {#e#}) (add_mset (length E) H)"
proof
  have e: "e \<notin> set E" "e < L" using assms(2-4) by (auto simp: good_reads_def)
  show "good_reg (E @ [e]) L (R(e := Some (length E)))"
    using assms(1) e by (auto simp: good_reg_def nth_append less_SucI)
  have H: "\<forall>c \<in># H. c < length E \<and> R (E ! c) = Some c" and A: "\<forall>e \<in># A. e < L \<and> (R e = None \<longrightarrow> e \<notin> set E)"
    and one: "at_most_once (A + image_mset ((!) E) H)"
    using assms(2) by (auto simp: good_reads_def)
  obtain A' where A': "A = add_mset e A'" using assms(3) by (metis insert_DiffM)
  have "e \<notin># A'" using one by (simp add: A' at_most_once_add)
  moreover have img: "image_mset ((!) (E @ [e])) H = image_mset ((!) E) H"
    using H by (intro image_mset_append_nth) blast
  then have "at_most_once (A' + image_mset ((!) (E @ [e])) (add_mset (length E) H))"
    using one by (simp add: A')
  moreover have "c < length E \<and> E ! c \<noteq> e" if "c \<in># H" for c using H e that by (metis nth_mem)
  ultimately show "good_reads (E @ [e]) L (R(e := Some (length E))) (A - {#e#}) (add_mset (length E) H)"
    using A H unfolding good_reads_def by (auto simp: A' nth_append less_SucI)
qed

lemma reads_arm:
  assumes "good_reg E L R" and "good_reads E L R A (add_mset c H)"
  shows "good_reads E L R (add_mset (E ! c) A) H"
proof -
  have "E ! c < L" using assms by (auto simp: good_reg_def good_reads_def)
  then show ?thesis using assms(2) unfolding good_reads_def by auto
qed

lemma reads_close:
  assumes "good_reg E L R" and "good_reads E L R A (add_mset c H)"
  shows "good_reg E L (R(E ! c := None)) \<and> good_reads E L (R(E ! c := None)) A H"
proof
  show "good_reg E L (R(E ! c := None))" using assms(1) by (auto simp: good_reg_def)
  have "at_most_once (A + image_mset ((!) E) H) \<and> E ! c \<notin># A + image_mset ((!) E) H"
    using assms(2) by (simp add: good_reads_def at_most_once_add)
  moreover from this have "E ! c' \<noteq> E ! c" if "c' \<in># H" for c' using that by (metis image_eqI set_image_mset union_iff)
  ultimately show "good_reads E L (R(E ! c := None)) A H"
    using assms(2) unfolding good_reads_def by auto
qed

section \<open>The invariant of a configuration\<close>

fun reader_conn :: "reader_pc \<Rightarrow> nat list" where
  "reader_conn (RRead c) = [c]"
| "reader_conn (RPush c call) = [c]"
| "reader_conn (RArm c) = [c]"
| "reader_conn (RClose c) = [c]"
| "reader_conn RPop = []"
| "reader_conn RStopped = []"

text \<open>The connections readers have queued or work on.\<close>

definition holders :: "'s server \<Rightarrow> reader_pc list \<Rightarrow> nat list" where
  "holders sv rs = concat (map bq_items (sv_readers sv)) @ concat (map reader_conn rs)"

definition inv_reads :: "'s server \<Rightarrow> reader_pc list \<Rightarrow> bool" where
  "inv_reads sv rs \<longleftrightarrow> good_reg (eps sv) (length (sv_socks sv)) (sv_reg sv) \<and>
     good_reads (eps sv) (length (sv_socks sv)) (sv_reg sv) (mset (sv_armed sv)) (mset (holders sv rs)) \<and>
     length (sv_readers sv) = num_readers \<and> sint (sv_count sv) = int (card (dom (sv_reg sv)))"

fun handler_debt :: "nat \<Rightarrow> handler_pc \<Rightarrow> nat" where
  "handler_debt c (HSize c') = (if c' = c then 1 else 0)"
| "handler_debt c (HTry c') = (if c' = c then 1 else 0)"
| "handler_debt c (HRequeue c') = (if c' = c then 1 else 0)"
| "handler_debt c (HEnqueue c') = (if c' = c then 1 else 0)"
| "handler_debt c _ = 0"

fun responder_debt :: "nat list \<Rightarrow> nat \<Rightarrow> responder_pc \<Rightarrow> nat" where
  "responder_debt E c (SFind e) = (if E ! c = e then 1 else 0)"
| "responder_debt E c (STry c') = (if c' = c then 1 else 0)"
| "responder_debt E c (SRequeue c') = (if c' = c then 1 else 0)"
| "responder_debt E c _ = 0"

definition inv_resp :: "'s server \<Rightarrow> handler_pc list \<Rightarrow> responder_pc \<Rightarrow> bool" where
  "inv_resp sv hs s \<longleftrightarrow> (\<forall>c < length (sv_heap sv).
     qlen sv c = count (mset (bq_items (sv_responds sv))) (eps sv ! c) + sum_list (map (handler_debt c) hs) +
       responder_debt (eps sv) c s)"

text \<open>Every pointer to a connection is valid.\<close>

definition call_ok :: "nat \<Rightarrow> server_call \<Rightarrow> bool" where
  "call_ok n call \<longleftrightarrow> (\<exists>c < n. sc_conn call = Some c)"

fun reader_ok :: "nat \<Rightarrow> reader_pc \<Rightarrow> bool" where
  "reader_ok n (RPush c call) = call_ok n call"
| "reader_ok n _ = True"

fun handler_ok :: "nat \<Rightarrow> handler_pc \<Rightarrow> bool" where
  "handler_ok n (HCompute call) = call_ok n call"
| "handler_ok n (HPush call) = call_ok n call"
| "handler_ok n (HSize c) = (c < n)"
| "handler_ok n (HTry c) = (c < n)"
| "handler_ok n (HSend c call) = (c < n)"
| "handler_ok n (HRequeue c) = (c < n)"
| "handler_ok n (HEnqueue c) = (c < n)"
| "handler_ok n _ = True"

fun responder_ok :: "nat list \<Rightarrow> responder_pc \<Rightarrow> bool" where
  "responder_ok E (SFind e) = (e \<in> set E)"
| "responder_ok E (STry c) = (c < length E)"
| "responder_ok E (SSend c call) = (c < length E)"
| "responder_ok E (SRequeue c) = (c < length E)"
| "responder_ok E _ = True"

definition inv_ptr :: "'s server \<Rightarrow> reader_pc list \<Rightarrow> handler_pc list \<Rightarrow> responder_pc \<Rightarrow> bool" where
  "inv_ptr sv rs hs s \<longleftrightarrow> list_all (call_ok (length (sv_heap sv))) (bq_items (sv_calls sv)) \<and>
     list_all (reader_ok (length (sv_heap sv))) rs \<and> list_all (handler_ok (length (sv_heap sv))) hs \<and>
     responder_ok (eps sv) s \<and> set (bq_items (sv_responds sv)) \<subseteq> set (eps sv)"

definition server_inv :: "'s config \<Rightarrow> bool" where
  "server_inv cf \<longleftrightarrow>
     length (cf_readers cf) = num_readers \<and> length (cf_handlers cf) = num_handlers \<and>
     inv_reads (cf_server cf) (cf_readers cf) \<and>
     inv_resp (cf_server cf) (cf_handlers cf) (cf_responder cf) \<and>
     inv_ptr (cf_server cf) (cf_readers cf) (cf_handlers cf) (cf_responder cf)"

section \<open>Lists of threads\<close>

lemma mset_concat_update:
  assumes "i < length xs"
  shows "\<exists>M. \<forall>y. mset (concat (map f (xs[i := y]))) = M + mset (f y)"
proof -
  have "mset (concat (map f (xs[i := y]))) = mset (concat (map f (take i xs @ drop (Suc i) xs))) + mset (f y)" for y
    using assms by (simp add: upd_conv_take_nth_drop)
  then show ?thesis by blast
qed

lemma sum_list_update_debt:
  fixes g :: "'a \<Rightarrow> nat"
  assumes "i < length xs"
  shows "sum_list (map g (xs[i := y])) + g (xs ! i) = sum_list (map g xs) + g y"
proof -
  have "sum_list (map g xs) = sum_list (map g (take i xs @ xs ! i # drop (Suc i) xs))"
    using assms by (simp only: id_take_nth_drop [symmetric])
  then show ?thesis using assms by (simp add: upd_conv_take_nth_drop)
qed

lemma list_all_update: "list_all p xs \<Longrightarrow> p y \<Longrightarrow> list_all p (xs[i := y])"
  unfolding list_all_iff using set_update_subset_insert [of xs i y] by blast

section \<open>Threads that leave the listener's state alone\<close>

lemma inv_reads_view: "listener_view sv' = listener_view sv \<Longrightarrow> inv_reads sv rs \<Longrightarrow> inv_reads sv' rs"
  by (simp add: inv_reads_def listener_view_def holders_def)

lemma view_heap: "listener_view sv' = listener_view sv \<Longrightarrow> length (sv_heap sv') = length (sv_heap sv)"
  by (metis length_eps listener_view_def prod.inject)

lemma view_eps: "listener_view sv' = listener_view sv \<Longrightarrow> eps sv' = eps sv"
  by (simp add: listener_view_def)

lemma inv_reads_distinct: "inv_reads sv rs \<Longrightarrow> distinct (eps sv)"
  by (simp add: inv_reads_def good_reg_def)

lemma eps_inj: "distinct (eps sv) \<Longrightarrow> c < length (sv_heap sv) \<Longrightarrow> c' < length (sv_heap sv) \<Longrightarrow>
    eps sv ! c = eps sv ! c' \<longleftrightarrow> c = c'"
  by (simp add: nth_eq_iff_index_eq)

lemma moment_Inr: "moment m k sv = Some (Inr (pc, sv')) \<longleftrightarrow> (\<exists>x. m sv = (Inr x, sv') \<and> k x = Some pc)"
  by (auto simp: moment_def split: prod.splits sum.splits option.splits)

section \<open>Handlers\<close>

lemma handler_compute_conn: "handler_compute call = Inr call' \<Longrightarrow> sc_conn call' = sc_conn call"
  by (auto simp: handler_compute_def call_set_value_def bind_sum_eq_Inr split: option.splits)

text \<open>
  The change of the counts by a step of a handler: what it adds to the queue of a connection is
  what it adds to the obligations.
\<close>

definition resp_count :: "'s server \<Rightarrow> nat \<Rightarrow> nat" where
  "resp_count sv c = count (mset (bq_items (sv_responds sv))) (eps sv ! c)"

lemma handler_step_counts:
  assumes "handler_step P stop pc sv = Some (Inr (pc', sv'))" and "distinct (eps sv)" and "c < length (sv_heap sv)"
    and "handler_debt c pc \<le> qlen sv c"
  shows "listener_view sv' = listener_view sv \<and>
    qlen sv' c + resp_count sv c + handler_debt c pc = qlen sv c + resp_count sv' c + handler_debt c pc'"
proof (cases pc)
  case HPop
  then show ?thesis using assms handler_take_effect [of sv _ sv']
    by (auto simp: moment_Inr resp_count_def response_view_def dest!: handler_take_effect dest: view_eps)
next
  case (HCompute call)
  then show ?thesis using assms by (auto simp: moment_Inr sm_simps)
next
  case (HPush call)
  then show ?thesis using assms
    by (auto simp: moment_Inr sm_simps resp_count_def response_view_def
        dest!: respond_push_effect dest: view_eps split: option.splits prod.splits sum.splits if_splits)
next
  case (HSize c')
  then show ?thesis using assms by (auto simp: moment_Inr dest!: respond_alone_effect)
next
  case (HTry c')
  with assms obtain r where r: "respond_pop c' sv = (Inr r, sv')"
    and pc': "pc' = (case r of None \<Rightarrow> if stop then HStopped else HPop | Some call \<Rightarrow> HSend c' call)"
    by (auto simp: moment_Inr)
  note eff = respond_pop_effect [OF r]
  then have "eps sv' = eps sv" by (intro view_eps) simp
  then show ?thesis using eff pc' HTry assms(4)
    by (cases r) (auto simp: resp_count_def response_view_def)
next
  case (HSend c' call)
  with assms obtain res where r: "respond_send P c' call sv = (Inr res, sv')"
    and pc': "pc' = (if res = 1 then HRequeue c' else if stop then HStopped else HPop)"
    by (auto simp: moment_Inr)
  note eff = respond_send_effect [OF r]
  then have "eps sv' = eps sv" by (intro view_eps) simp
  then show ?thesis using eff pc' HSend
    by (simp add: resp_count_def response_view_def)
next
  case (HRequeue c')
  then show ?thesis using assms
    by (auto simp: moment_Inr resp_count_def eps_inj eps_nth [symmetric]
        dest!: respond_enqueue_effect dest: view_eps split: if_splits)
next
  case (HEnqueue c')
  then show ?thesis using assms
    by (auto simp: moment_Inr resp_count_def eps_inj eps_nth [symmetric]
        dest!: respond_enqueue_effect dest: view_eps split: if_splits)
next
  case HStopped
  then show ?thesis using assms by simp
qed


lemma enqueue_eps:
  assumes "respond_enqueue back c sv = (Inr u, sv')" and "set (bq_items (sv_responds sv)) \<subseteq> set (eps sv)"
  shows "set (bq_items (sv_responds sv')) \<subseteq> set (eps sv)"
proof -
  note eff = respond_enqueue_effect [OF assms(1)]
  then have "set (bq_items (sv_responds sv')) = insert (ep_of sv c) (set (bq_items (sv_responds sv)))"
    by (metis set_mset_add_mset_insert set_mset_mset)
  moreover have "ep_of sv c \<in> set (eps sv)" using eff by (metis eps_nth length_eps nth_mem)
  ultimately show ?thesis using assms(2) by simp
qed

lemma handler_step_ok:
  assumes "handler_step P stop pc sv = Some (Inr (pc', sv'))" and "handler_ok (length (sv_heap sv)) pc"
    and "list_all (call_ok (length (sv_heap sv))) (bq_items (sv_calls sv))"
    and "set (bq_items (sv_responds sv)) \<subseteq> set (eps sv)"
  shows "handler_ok (length (sv_heap sv)) pc' \<and>
    list_all (call_ok (length (sv_heap sv))) (bq_items (sv_calls sv')) \<and>
    set (bq_items (sv_responds sv')) \<subseteq> set (eps sv)"
proof (cases pc)
  case HPop
  with assms obtain call where r: "handler_take sv = (Inr (Some call), sv')" and "pc' = HCompute call"
    by (auto simp: moment_Inr)
  with handler_take_effect [OF r] assms(3,4) show ?thesis by (simp add: response_view_def)
next
  case (HCompute call)
  then show ?thesis using assms by (auto simp: moment_Inr sm_simps call_ok_def dest: handler_compute_conn)
next
  case (HPush call)
  with assms obtain c where r: "respond_push call c sv = (Inr True, sv')" and "pc' = HSize c"
    by (auto simp: moment_Inr sm_simps split: option.splits prod.splits sum.splits if_splits)
  with respond_push_effect [OF r] assms(3,4) show ?thesis by (simp add: response_view_def)
next
  case (HSize c)
  with assms obtain alone where r: "respond_alone c sv = (Inr alone, sv')"
    and pc': "pc' = (if alone then HTry c else HEnqueue c)" by (auto simp: moment_Inr)
  with respond_alone_effect [OF r] assms(3,4) show ?thesis by simp
next
  case (HTry c)
  with assms obtain r where r: "respond_pop c sv = (Inr r, sv')"
    and pc': "pc' = (case r of None \<Rightarrow> if stop then HStopped else HPop | Some call \<Rightarrow> HSend c call)"
    by (auto simp: moment_Inr)
  with respond_pop_effect [OF r] assms(3,4) show ?thesis by (cases r) (simp_all add: response_view_def)
next
  case (HSend c call)
  with assms obtain res where r: "respond_send P c call sv = (Inr res, sv')"
    and pc': "pc' = (if res = 1 then HRequeue c else if stop then HStopped else HPop)"
    by (auto simp: moment_Inr)
  with respond_send_effect [OF r] assms(3,4) show ?thesis by (simp add: response_view_def)
next
  case (HRequeue c)
  with assms obtain u where r: "respond_enqueue False c sv = (Inr u, sv')"
    and pc': "pc' = (if stop then HStopped else HPop)" by (auto simp: moment_Inr)
  with respond_enqueue_effect [OF r] enqueue_eps [OF r assms(4)] assms(3) show ?thesis by simp
next
  case (HEnqueue c)
  with assms obtain u where r: "respond_enqueue True c sv = (Inr u, sv')"
    and pc': "pc' = (if stop then HStopped else HPop)" by (auto simp: moment_Inr)
  with respond_enqueue_effect [OF r] enqueue_eps [OF r assms(4)] assms(3) show ?thesis by simp
next
  case HStopped
  then show ?thesis using assms by simp
qed


section \<open>The responder\<close>

lemma responder_step_counts:
  assumes "responder_step P stop pc sv = Some (Inr (pc', sv'))" and "distinct (eps sv)" and "c < length (sv_heap sv)"
    and "good_reg (eps sv) L (sv_reg sv)"
  shows "listener_view sv' = listener_view sv \<and>
    qlen sv' c + resp_count sv c + responder_debt (eps sv) c pc =
      qlen sv c + resp_count sv' c + responder_debt (eps sv) c pc'"
proof (cases pc)
  case SPop
  with assms obtain e where r: "respond_take sv = (Inr (Some e), sv')" and "pc' = SFind e"
    by (auto simp: moment_Inr)
  note eff = respond_take_effect [OF r]
  then have "eps sv' = eps sv" by (intro view_eps) simp
  with eff SPop \<open>pc' = SFind e\<close> show ?thesis by (simp add: resp_count_def)
next
  case (SFind e)
  with assms obtain c' where r: "respond_find e sv = (Inr c', sv')" and "pc' = STry c'"
    by (auto simp: moment_Inr)
  moreover from this have "c' < length (sv_heap sv) \<and> eps sv ! c' = e"
    using respond_find_effect [OF r] assms(4) by (auto simp: good_reg_def)
  ultimately show ?thesis using SFind respond_find_effect [OF r] assms(2,3) eps_inj [of sv c c'] by auto
next
  case (STry c')
  with assms obtain call where r: "respond_pop c' sv = (Inr (Some call), sv')" and "pc' = SSend c' call"
    by (auto simp: moment_Inr sm_simps split: option.splits prod.splits sum.splits)
  note eff = respond_pop_effect [OF r]
  then have "eps sv' = eps sv" by (intro view_eps) simp
  with eff STry \<open>pc' = SSend c' call\<close> show ?thesis by (auto simp: resp_count_def response_view_def)
next
  case (SSend c' call)
  with assms obtain res where r: "respond_send P c' call sv = (Inr res, sv')"
    and pc': "pc' = (if res = 1 then SRequeue c' else if stop then SStopped else SPop)"
    by (auto simp: moment_Inr sm_simps split: prod.splits sum.splits if_splits)
  note eff = respond_send_effect [OF r]
  then have "eps sv' = eps sv" by (intro view_eps) simp
  then show ?thesis using eff pc' SSend by (simp add: resp_count_def response_view_def)
next
  case (SRequeue c')
  then show ?thesis using assms
    by (auto simp: moment_Inr resp_count_def eps_inj eps_nth [symmetric]
        dest!: respond_enqueue_effect dest: view_eps split: if_splits)
next
  case SStopped
  then show ?thesis using assms by simp
qed

lemma responder_step_ok:
  assumes "responder_step P stop pc sv = Some (Inr (pc', sv'))" and "responder_ok (eps sv) pc"
    and "set (bq_items (sv_responds sv)) \<subseteq> set (eps sv)" and "good_reg (eps sv) L (sv_reg sv)"
  shows "responder_ok (eps sv) pc' \<and> sv_calls sv' = sv_calls sv \<and>
    set (bq_items (sv_responds sv')) \<subseteq> set (eps sv)"
proof (cases pc)
  case SPop
  with assms obtain e where r: "respond_take sv = (Inr (Some e), sv')" and "pc' = SFind e"
    by (auto simp: moment_Inr)
  with respond_take_effect [OF r] assms(3) show ?thesis by simp
next
  case (SFind e)
  with assms obtain c where r: "respond_find e sv = (Inr c, sv')" and "pc' = STry c"
    by (auto simp: moment_Inr)
  with respond_find_effect [OF r] assms(3,4) show ?thesis by (auto simp: good_reg_def)
next
  case (STry c)
  with assms obtain call where r: "respond_pop c sv = (Inr (Some call), sv')" and "pc' = SSend c call"
    by (auto simp: moment_Inr sm_simps split: option.splits prod.splits sum.splits)
  with respond_pop_effect [OF r] assms(3) show ?thesis by (simp add: response_view_def)
next
  case (SSend c call)
  with assms obtain res where r: "respond_send P c call sv = (Inr res, sv')"
    and pc': "pc' = (if res = 1 then SRequeue c else if stop then SStopped else SPop)"
    by (auto simp: moment_Inr sm_simps split: prod.splits sum.splits if_splits)
  with respond_send_effect [OF r] assms(3) show ?thesis by (simp add: response_view_def)
next
  case (SRequeue c)
  with assms obtain u where r: "respond_enqueue False c sv = (Inr u, sv')"
    and pc': "pc' = (if stop then SStopped else SPop)" by (auto simp: moment_Inr)
  with respond_enqueue_effect [OF r] enqueue_eps [OF r assms(3)] show ?thesis by simp
next
  case SStopped
  then show ?thesis using assms by simp
qed

section \<open>Readers\<close>

lemma holders_pc:
  assumes "i < length rs"
  shows "mset (holders sv (rs[i := pc])) + mset (reader_conn (rs ! i)) = mset (holders sv rs) + mset (reader_conn pc)"
proof -
  obtain M where M: "mset (concat (map reader_conn (rs[i := y]))) = M + mset (reader_conn y)" for y
    using mset_concat_update [OF assms, of reader_conn] by blast
  from M [of "rs ! i"] M [of pc] show ?thesis by (simp add: holders_def)
qed

lemma holders_queue:
  assumes "i < length (sv_readers sv)"
  shows "mset (holders (sv\<lparr>sv_readers := (sv_readers sv)[i := q]\<rparr>) rs) + mset (bq_items (sv_readers sv ! i)) =
    mset (holders sv rs) + mset (bq_items q)"
proof -
  obtain M where M: "mset (concat (map bq_items ((sv_readers sv)[i := y]))) = M + mset (bq_items y)" for y
    using mset_concat_update [OF assms, of bq_items] by blast
  from M [of "sv_readers sv ! i"] M [of q] show ?thesis by (simp add: holders_def)
qed

text \<open>Dropping one entry of the map.\<close>

lemma card_dom_remove:
  assumes "finite (dom R)" and "R e = Some c"
  shows "int (card (dom (R(e := None)))) = int (card (dom R)) - 1"
proof -
  have "card (dom R) = Suc (card (dom R - {e}))" using assms by (intro card.remove) auto
  moreover have "dom (R(e := None)) = dom R - {e}" by auto
  ultimately show ?thesis by simp
qed

lemma good_reg_finite: "good_reg E L R \<Longrightarrow> finite (dom R)"
  by (rule finite_subset [of _ "set E"]) (auto simp: good_reg_def dest: nth_mem)

text \<open>The steps of a reader that change who holds a read token.\<close>

lemma take_reads:
  fixes sv :: "'s server"
  assumes r: "reader_take i sv = (Inr (Some c), sv')" and i: "i < length (sv_readers sv)" and inv: "inv_reads sv rs"
    and tok: "\<And>sv'' :: 's server. mset (holders sv'' rs') = add_mset c (mset (holders sv'' rs))"
  shows "inv_reads sv' rs' \<and> eps sv' = eps sv \<and> response_view sv' = response_view sv"
proof -
  from reader_take_effect [OF r] obtain cs where cs: "bq_items (sv_readers sv ! i) = c # cs"
    "sv' = sv\<lparr>sv_readers := (sv_readers sv)[i := (sv_readers sv ! i)\<lparr>bq_items := cs\<rparr>]\<rparr>"
    "response_view sv' = response_view sv" by auto
  have "mset (holders sv' rs') = mset (holders sv rs)"
    using holders_queue [OF i, of "(sv_readers sv ! i)\<lparr>bq_items := cs\<rparr>" rs'] tok [of sv] by (simp add: cs(1) flip: cs(2))
  moreover have "eps sv' = eps sv" by (simp add: cs(2) eps_def)
  ultimately show ?thesis using inv cs(3) by (simp add: inv_reads_def cs(2))
qed

lemma arm_reads:
  assumes r: "reader_arm c sv = (Inr u, sv')" and inv: "inv_reads sv rs"
    and tok: "mset (holders sv rs) = add_mset c (mset (holders sv rs'))"
  shows "inv_reads sv' rs' \<and> eps sv' = eps sv \<and> response_view sv' = response_view sv"
proof -
  note eff = reader_arm_effect [OF r]
  have same: "eps sv' = eps sv" "response_view sv' = response_view sv" "holders sv' rs' = holders sv rs'"
    using eff by (simp_all add: eps_def response_view_def qlen_def holders_def fun_eq_iff)
  have "good_reads (eps sv) (length (sv_socks sv)) (sv_reg sv) (add_mset (eps sv ! c) (mset (sv_armed sv))) (mset (holders sv rs'))"
    using inv tok by (intro reads_arm) (simp_all add: inv_reads_def)
  then show ?thesis using inv eff same by (simp add: inv_reads_def eps_nth)
qed

lemma close_reads:
  assumes r: "close_connection P c sv = (Inr u, sv')" and inv: "inv_reads sv rs"
    and tok: "mset (holders sv rs) = add_mset c (mset (holders sv rs'))"
  shows "inv_reads sv' rs' \<and> eps sv' = eps sv \<and> response_view sv' = response_view sv"
proof -
  from close_connection_effect [OF r] obtain socks m where c: "c < length (sv_heap sv)"
    and n: "sint (sv_count sv') = sint (sv_count sv) - 1" and len: "length socks = length (sv_socks sv)"
    and sv': "sv' = sv\<lparr>sv_socks := socks, sv_reg := (sv_reg sv)(ep_of sv c := None), sv_count := m\<rparr>" by blast
  have view: "eps sv' = eps sv" "response_view sv' = response_view sv" "holders sv' rs' = holders sv rs'"
    "sv_reg sv' = (sv_reg sv)(eps sv ! c := None)" "length (sv_socks sv') = length (sv_socks sv)"
    "sv_armed sv' = sv_armed sv" "sv_readers sv' = sv_readers sv"
    by (simp_all add: sv' len eps_nth [OF c] holders_def response_view_def qlen_def fun_eq_iff) (simp add: eps_def)
  have g: "good_reg (eps sv) (length (sv_socks sv)) (sv_reg sv)"
    and reads: "good_reads (eps sv) (length (sv_socks sv)) (sv_reg sv) (mset (sv_armed sv)) (add_mset c (mset (holders sv rs')))"
    using inv tok by (simp_all add: inv_reads_def)
  have "sv_reg sv (eps sv ! c) = Some c" using reads by (simp add: good_reads_def)
  then have "int (card (dom (sv_reg sv'))) = int (card (dom (sv_reg sv))) - 1"
    unfolding view by (intro card_dom_remove good_reg_finite [OF g])
  then have "sint (sv_count sv') = int (card (dom (sv_reg sv')))" using inv n by (simp only: inv_reads_def)
  with reads_close [OF g reads] inv show ?thesis by (simp add: inv_reads_def view)
qed

lemma reader_step_reads:
  assumes "reader_step P d now i stop (rs ! i) sv = Some (Inr (pc', sv'))" and "i < length rs"
    and "length rs = num_readers" and inv: "inv_reads sv rs"
  shows "inv_reads sv' (rs[i := pc']) \<and> eps sv' = eps sv \<and> response_view sv' = response_view sv"
proof -
  note pcs = holders_pc [OF assms(2)]
  have i: "i < length (sv_readers sv)" using assms(2,3) inv by (simp add: inv_reads_def)
  have same: ?thesis if "listener_view sv' = listener_view sv" "response_view sv' = response_view sv"
    "reader_conn pc' = reader_conn (rs ! i)"
  proof -
    have "mset (holders sv' (rs[i := pc'])) = mset (holders sv rs)"
      using pcs [of sv pc'] that(1,3) by (simp add: holders_def listener_view_def)
    then show ?thesis using inv that by (simp add: inv_reads_def listener_view_def)
  qed
  show ?thesis
  proof (cases "rs ! i")
    case RPop
    with assms(1) obtain c where r: "reader_take i sv = (Inr (Some c), sv')" and pc': "pc' = RRead c"
      by (auto simp: moment_Inr)
    show ?thesis by (rule take_reads [OF r i inv]) (use pcs [where pc = pc'] RPop pc' in simp)
  next
    case (RRead c)
    with assms(1) obtain r where r: "reader_read P d now c sv = (Inr r, sv')"
      and pc': "pc' = (case r of None \<Rightarrow> RClose c | Some call \<Rightarrow> RPush c call)" by (auto simp: moment_Inr)
    show ?thesis using reader_read_effect [OF r] RRead pc' by (intro same) (simp_all split: option.split)
  next
    case (RPush c call)
    with assms(1) obtain u where r: "reader_push call sv = (Inr u, sv')" and pc': "pc' = RArm c"
      by (auto simp: moment_Inr)
    show ?thesis using reader_push_effect [OF r] RPush pc' by (intro same) simp_all
  next
    case (RArm c)
    with assms(1) obtain u where r: "reader_arm c sv = (Inr u, sv')"
      and pc': "pc' = (if stop then RStopped else RPop)" by (auto simp: moment_Inr)
    show ?thesis by (rule arm_reads [OF r inv]) (use pcs [of sv pc'] RArm pc' in simp)
  next
    case (RClose c)
    with assms(1) obtain u where r: "close_connection P c sv = (Inr u, sv')"
      and pc': "pc' = (if stop then RStopped else RPop)" by (auto simp: moment_Inr)
    show ?thesis by (rule close_reads [OF r inv]) (use pcs [of sv pc'] RClose pc' in simp)
  next
    case RStopped
    then show ?thesis using assms(1) by simp
  qed
qed

lemma reader_step_ok:
  assumes "reader_step P d now i stop pc sv = Some (Inr (pc', sv'))" and "reader_ok (length (sv_heap sv)) pc"
    and "list_all (call_ok (length (sv_heap sv))) (bq_items (sv_calls sv))"
  shows "reader_ok (length (sv_heap sv)) pc' \<and> list_all (call_ok (length (sv_heap sv))) (bq_items (sv_calls sv'))"
proof (cases pc)
  case RPop
  with assms obtain c where r: "reader_take i sv = (Inr (Some c), sv')" and "pc' = RRead c"
    by (auto simp: moment_Inr)
  with reader_take_effect [OF r] assms(3) show ?thesis by simp
next
  case (RRead c)
  with assms obtain r where r: "reader_read P d now c sv = (Inr r, sv')"
    and pc': "pc' = (case r of None \<Rightarrow> RClose c | Some call \<Rightarrow> RPush c call)" by (auto simp: moment_Inr)
  with reader_read_effect [OF r] assms(3) show ?thesis by (auto simp: call_ok_def split: option.splits)
next
  case (RPush c call)
  with assms obtain u where r: "reader_push call sv = (Inr u, sv')" and "pc' = RArm c"
    by (auto simp: moment_Inr)
  with reader_push_effect [OF r] RPush assms(2,3) show ?thesis by simp
next
  case (RArm c)
  with assms obtain u where r: "reader_arm c sv = (Inr u, sv')" and "pc' = (if stop then RStopped else RPop)"
    by (auto simp: moment_Inr)
  with reader_arm_effect [OF r] assms(3) show ?thesis by simp
next
  case (RClose c)
  with assms obtain u where r: "close_connection P c sv = (Inr u, sv')" and pc': "pc' = (if stop then RStopped else RPop)"
    by (auto simp: moment_Inr)
  have "sv_calls sv' = sv_calls sv" using close_connection_effect [OF r] by (auto simp: dest: arg_cong [of _ _ sv_calls])
  with pc' assms(3) show ?thesis by simp
next
  case RStopped
  then show ?thesis using assms by simp
qed

section \<open>Callbacks of the listener\<close>

lemma handle_accept_inv:
  assumes "inv_reads sv rs"
  shows "inv_reads (handle_accept s err sv) rs \<and> sv_heap (handle_accept s err sv) = sv_heap sv \<and>
    sv_responds (handle_accept s err sv) = sv_responds sv \<and> sv_calls (handle_accept s err sv) = sv_calls sv"
proof -
  let ?L = "length (sv_socks sv)"
  have "good_reg (eps sv) ?L (sv_reg sv)" "good_reads (eps sv) ?L (sv_reg sv) (mset (sv_armed sv)) (mset (holders sv rs))"
    using assms by (simp_all add: inv_reads_def)
  note acc = reads_accept [OF this]
  have "at_most_once (mset (sv_armed sv) + image_mset ((!) (eps sv)) (mset (holders sv rs)))"
    using assms by (simp add: inv_reads_def good_reads_def)
  then have "good_reads (eps sv) (Suc ?L) (sv_reg sv) (mset (sv_armed sv)) (mset (holders sv rs))"
    using acc unfolding good_reads_def by simp
  with acc assms show ?thesis
    by (auto simp: handle_accept_def do_accept_def Let_def inv_reads_def eps_def holders_def)
qed

lemma holders_start:
  assumes "i < length (sv_readers sv)"
  shows "mset (holders (sv\<lparr>sv_readers := (sv_readers sv)[i := bq_insert True c (sv_readers sv ! i)], sv_last_reader := l\<rparr>) rs) =
    add_mset c (mset (holders sv rs))"
  using holders_queue [OF assms, of "bq_insert True c (sv_readers sv ! i)" rs]
  by (simp add: bq_insert_def holders_def)

lemma card_dom_add:
  assumes "finite (dom R)" and "R e = None"
  shows "int (card (dom (R(e := Some c)))) = int (card (dom R)) + 1"
proof -
  have "dom (R(e := Some c)) = insert e (dom R)" by auto
  moreover have "e \<notin> dom R" using assms(2) by auto
  ultimately show ?thesis using assms(1) by simp
qed

text \<open>A connection that has been found, or made, goes to a reader with the token of its endpoint.\<close>

lemma found_reads:
  assumes inv: "inv_reads sv rs" and ep: "ep \<in> set (sv_armed sv)" and reg: "sv_reg sv ep = Some c" and i: "i < num_readers"
    and sv': "sv' = sv\<lparr>sv_armed := remove1 ep (sv_armed sv),
      sv_readers := (sv_readers sv)[i := bq_insert True c (sv_readers sv ! i)], sv_last_reader := int i\<rparr>"
  shows "inv_reads sv' rs"
proof -
  have g: "good_reg (eps sv) (length (sv_socks sv)) (sv_reg sv)"
    and r: "good_reads (eps sv) (length (sv_socks sv)) (sv_reg sv) (mset (sv_armed sv)) (mset (holders sv rs))"
    and n: "length (sv_readers sv) = num_readers" "sint (sv_count sv) = int (card (dom (sv_reg sv)))"
    using inv by (simp_all add: inv_reads_def)
  have "mset (holders sv' rs) = add_mset c (mset (holders sv rs))"
    using holders_start [where i = i and sv = sv and c = c and l = "int i" and rs = rs] i n(1) by (simp add: sv' holders_def)
  then show ?thesis using g n reads_start [OF g r _ reg] ep by (simp add: inv_reads_def sv' eps_def)
qed

lemma made_reads:
  assumes inv: "inv_reads sv rs" and ep: "ep \<in> set (sv_armed sv)" and none: "sv_reg sv ep = None" and i: "i < num_readers"
    and c: "c = length (sv_heap sv)" and m: "sint m = sint (sv_count sv) + 1"
    and sv': "sv' = sv\<lparr>sv_armed := remove1 ep (sv_armed sv), sv_heap := sv_heap sv @ [connection_new ep k now],
      sv_reg := (sv_reg sv)(ep := Some c), sv_index := k', sv_count := m,
      sv_readers := (sv_readers sv)[i := bq_insert True c (sv_readers sv ! i)], sv_last_reader := int i\<rparr>"
  shows "inv_reads sv' rs \<and> ep \<notin> set (eps sv)"
proof -
  have g: "good_reg (eps sv) (length (sv_socks sv)) (sv_reg sv)"
    and r: "good_reads (eps sv) (length (sv_socks sv)) (sv_reg sv) (mset (sv_armed sv)) (mset (holders sv rs))"
    and n: "length (sv_readers sv) = num_readers" "sint (sv_count sv) = int (card (dom (sv_reg sv)))"
    using inv by (simp_all add: inv_reads_def)
  have epA: "ep \<in># mset (sv_armed sv)" using ep by simp
  have E: "eps sv' = eps sv @ [ep]" by (simp add: sv' eps_def connection_new_def set_last_contact_def)
  have H: "mset (holders sv' rs) = add_mset c (mset (holders sv rs))"
    using holders_start [where i = i and sv = sv and c = c and l = "int i" and rs = rs] i n(1) by (simp add: sv' holders_def)
  have "sint (sv_count sv') = int (card (dom (sv_reg sv')))"
    using card_dom_add [OF good_reg_finite [OF g] none] m n(2) by (simp add: sv')
  then have "inv_reads sv' rs" using reads_create [OF g r epA none] n(1) E H by (simp add: inv_reads_def c sv')
  then show ?thesis using r epA none by (auto simp: good_reads_def)
qed

lemma armed_update: "sv_armed_update (remove1 ep) sv = sv\<lparr>sv_armed := remove1 ep (sv_armed sv)\<rparr>"
  by (cases sv) simp

lemma handle_read_inv:
  assumes "handle_read now ep err sv = (Inr u, sv')" and ep: "ep \<in> set (sv_armed sv)" and inv: "inv_reads sv rs"
  shows "inv_reads sv' rs \<and> sv_responds sv' = sv_responds sv \<and> sv_calls sv' = sv_calls sv \<and>
    (sv_heap sv' = sv_heap sv \<or>
     (\<exists>i. sv_heap sv' = sv_heap sv @ [connection_new ep i now] \<and> ep \<notin> set (eps sv)))"
proof -
  let ?sv = "sv_armed_update (remove1 ep) sv"
  from handle_read_effect [OF assms(1)] show ?thesis
  proof (elim disjE exE conjE)
    assume sv': "sv' = ?sv"
    have "good_reads (eps sv) (length (sv_socks sv)) (sv_reg sv) (mset (sv_armed sv)) (mset (holders sv rs))"
      using inv by (simp add: inv_reads_def)
    then show ?thesis using inv reads_drop [of _ _ _ _ _ ep] by (simp add: sv' inv_reads_def eps_def holders_def)
  next
    fix c sv1 i
    assume f: "find_or_create now ep ?sv = (Inr c, sv1)" and i: "i < num_readers"
      and sv': "sv' = sv1\<lparr>sv_readers := (sv_readers sv1)[i := bq_insert True c (sv_readers sv1 ! i)], sv_last_reader := int i\<rparr>"
    from find_or_create_effect [OF f] show ?thesis
    proof (elim disjE conjE)
      assume reg: "sv_reg ?sv ep = Some c" and sv1: "sv1 = ?sv"
      have "inv_reads sv' rs" by (rule found_reads [OF inv ep _ i]) (use reg in \<open>simp_all add: sv' sv1 armed_update\<close>)
      then show ?thesis by (simp add: sv' sv1)
    next
      assume none: "sv_reg ?sv ep = None" and c: "c = length (sv_heap ?sv)"
        and cnt: "sint (sv_count sv1) = sint (sv_count ?sv) + 1"
        and ex: "sv1 = ?sv\<lparr>sv_heap := sv_heap ?sv @ [connection_new ep (sv_index ?sv) now], sv_reg := (sv_reg ?sv)(ep := Some c),
          sv_index := sv_index sv1, sv_count := sv_count sv1\<rparr>"
      obtain k m where sv1: "sv1 = ?sv\<lparr>sv_heap := sv_heap sv @ [connection_new ep (sv_index sv) now],
          sv_reg := (sv_reg sv)(ep := Some c), sv_index := k, sv_count := m\<rparr>"
        using ex by simp
      have m: "sint m = sint (sv_count sv) + 1" using cnt by (simp add: sv1)
      have "inv_reads sv' rs \<and> ep \<notin> set (eps sv)"
        by (rule made_reads [OF inv ep _ i _ m]) (use none c in \<open>simp_all add: sv' sv1 armed_update\<close>)
      then show ?thesis by (auto simp: sv' sv1)
    qed
  qed
qed

section \<open>The invariant holds\<close>

lemma list_all_mono_ok: "list_all (call_ok n) cs \<Longrightarrow> n \<le> m \<Longrightarrow> list_all (call_ok m) cs"
  by (auto simp: list_all_iff call_ok_def intro: order_less_le_trans)

lemma reader_ok_mono: "reader_ok n pc \<Longrightarrow> n \<le> m \<Longrightarrow> reader_ok m pc"
  by (cases pc) (auto simp: call_ok_def intro: order_less_le_trans)

lemma handler_ok_mono: "handler_ok n pc \<Longrightarrow> n \<le> m \<Longrightarrow> handler_ok m pc"
  by (cases pc) (auto simp: call_ok_def intro: order_less_le_trans)

lemma handler_debt_new: "handler_ok n pc \<Longrightarrow> handler_debt n pc = 0"
  by (cases pc) auto

lemma inv_after_read:
  assumes "handle_read now ep err sv = (Inr u, sv')" and ep: "ep \<in> set (sv_armed sv)" and inv: "inv_reads sv rs"
    and resp: "inv_resp sv hs s" and ptr: "inv_ptr sv rs hs s"
  shows "inv_reads sv' rs \<and> inv_resp sv' hs s \<and> inv_ptr sv' rs hs s"
proof -
  from handle_read_inv [OF assms(1-3)] have reads: "inv_reads sv' rs"
    and same: "sv_responds sv' = sv_responds sv" "sv_calls sv' = sv_calls sv"
    and heap: "sv_heap sv' = sv_heap sv \<or>
     (\<exists>i. sv_heap sv' = sv_heap sv @ [connection_new ep i now] \<and> ep \<notin> set (eps sv))" by auto
  from heap show ?thesis
  proof
    assume "sv_heap sv' = sv_heap sv"
    then have "eps sv' = eps sv" "qlen sv' = qlen sv" by (simp_all add: eps_def qlen_def fun_eq_iff)
    then show ?thesis using reads resp ptr same \<open>sv_heap sv' = sv_heap sv\<close> by (simp add: inv_resp_def inv_ptr_def)
  next
    assume "\<exists>i. sv_heap sv' = sv_heap sv @ [connection_new ep i now] \<and> ep \<notin> set (eps sv)"
    then obtain i where h: "sv_heap sv' = sv_heap sv @ [connection_new ep i now]" and new: "ep \<notin> set (eps sv)" by blast
    let ?n = "length (sv_heap sv)"
    have E: "eps sv' = eps sv @ [ep]" by (simp add: eps_def h connection_new_def set_last_contact_def)
    have p: "list_all (handler_ok ?n) hs" "responder_ok (eps sv) s" "set (bq_items (sv_responds sv)) \<subseteq> set (eps sv)"
      using ptr by (simp_all add: inv_ptr_def)
    have "qlen sv' c = count (mset (bq_items (sv_responds sv'))) (eps sv' ! c) + sum_list (map (handler_debt c) hs) +
        responder_debt (eps sv') c s" if "c < length (sv_heap sv')" for c
    proof (cases "c = ?n")
      case True
      have "qlen sv' c = 0" by (simp add: qlen_def h True connection_new_def set_last_contact_def bq_new_def)
      moreover have "count (mset (bq_items (sv_responds sv'))) (eps sv' ! c) = 0"
        using p(3) new by (auto simp: same E True nth_append count_eq_zero_iff)
      moreover have "sum_list (map (handler_debt c) hs) = 0"
        using p(1) by (simp add: True list_all_iff handler_debt_new)
      moreover have "responder_debt (eps sv') c s = 0"
        using p(2) new by (cases s) (auto simp: E True nth_append)
      ultimately show ?thesis by simp
    next
      case False
      with that have c: "c < ?n" by (simp add: h)
      then have "responder_debt (eps sv') c s = responder_debt (eps sv) c s"
        by (cases s) (auto simp: E nth_append)
      with resp c show ?thesis by (simp add: inv_resp_def same E nth_append qlen_def h)
    qed
    moreover have "inv_ptr sv' rs hs s"
      using ptr list_all_mono_ok [of ?n _ "Suc ?n"]
      by (cases s) (auto simp: inv_ptr_def same h E list_all_iff intro: reader_ok_mono handler_ok_mono)
    ultimately show ?thesis using reads by (simp add: inv_resp_def)
  qed
qed

lemma inv_after_reader:
  assumes st: "reader_step P d now i stop (rs ! i) sv = Some (Inr (pc', sv'))" and i: "i < length rs" "length rs = num_readers"
    and reads: "inv_reads sv rs" and resp: "inv_resp sv hs s" and ptr: "inv_ptr sv rs hs s"
  shows "inv_reads sv' (rs[i := pc']) \<and> inv_resp sv' hs s \<and> inv_ptr sv' (rs[i := pc']) hs s"
proof -
  from reader_step_reads [OF st i reads] have r: "inv_reads sv' (rs[i := pc'])" and e: "eps sv' = eps sv"
    and v: "response_view sv' = response_view sv" by auto
  have n: "length (sv_heap sv') = length (sv_heap sv)" using e by (metis length_eps)
  have "reader_ok (length (sv_heap sv)) (rs ! i)" using ptr i(1) by (simp add: inv_ptr_def list_all_length)
  moreover have "list_all (call_ok (length (sv_heap sv))) (bq_items (sv_calls sv))" using ptr by (simp add: inv_ptr_def)
  ultimately have "reader_ok (length (sv_heap sv)) pc' \<and> list_all (call_ok (length (sv_heap sv))) (bq_items (sv_calls sv'))"
    by (rule reader_step_ok [OF st])
  with r e v n resp ptr show ?thesis
    by (simp add: inv_resp_def inv_ptr_def response_view_def list_all_update)
qed

lemma inv_after_handler:
  assumes st: "handler_step P stop (hs ! i) sv = Some (Inr (pc', sv'))" and i: "i < length hs"
    and reads: "inv_reads sv rs" and resp: "inv_resp sv hs s" and ptr: "inv_ptr sv rs hs s"
  shows "inv_reads sv' rs \<and> inv_resp sv' (hs[i := pc']) s \<and> inv_ptr sv' rs (hs[i := pc']) s"
proof -
  let ?n = "length (sv_heap sv)"
  have dist: "distinct (eps sv)" using inv_reads_distinct [OF reads] .
  have debt: "handler_debt c (hs ! i) \<le> sum_list (map (handler_debt c) hs)" for c
    using elem_le_sum_list [of i "map (handler_debt c) hs"] i by simp
  have q: "qlen sv c = resp_count sv c + sum_list (map (handler_debt c) hs) + responder_debt (eps sv) c s"
    if "c < ?n" for c using resp that by (simp add: inv_resp_def resp_count_def)
  have cnt: "listener_view sv' = listener_view sv \<and>
    qlen sv' c + resp_count sv c + handler_debt c (hs ! i) = qlen sv c + resp_count sv' c + handler_debt c pc'"
    if "c < ?n" for c
    using handler_step_counts [OF st dist that] q [OF that] debt [of c] by linarith
  have view: "listener_view sv' = listener_view sv"
  proof (cases "?n = 0")
    case False
    then show ?thesis using cnt by blast
  next
    case True
    have ok: "handler_ok ?n (hs ! i)" using ptr i by (simp add: inv_ptr_def list_all_length)
    then show ?thesis using True st handler_take_effect [of sv _ sv'] by (cases "hs ! i") (auto simp: moment_Inr sm_simps call_ok_def)
  qed
  have n: "length (sv_heap sv') = ?n" and e: "eps sv' = eps sv" using view view_heap view_eps by blast+
  have "qlen sv' c = resp_count sv' c + sum_list (map (handler_debt c) (hs[i := pc'])) + responder_debt (eps sv) c s"
    if "c < ?n" for c
    using q [OF that] cnt [OF that] sum_list_update_debt [OF i, of "handler_debt c" pc'] by linarith
  then have "inv_resp sv' (hs[i := pc']) s" by (simp add: inv_resp_def resp_count_def n e)
  moreover have "inv_reads sv' rs" using inv_reads_view [OF view reads] .
  moreover have "inv_ptr sv' rs (hs[i := pc']) s"
  proof -
    have "handler_ok ?n (hs ! i)" using ptr i by (simp add: inv_ptr_def list_all_length)
    with handler_step_ok [OF st] ptr show ?thesis by (simp add: inv_ptr_def n e list_all_update)
  qed
  ultimately show ?thesis by simp
qed

lemma inv_after_responder:
  assumes st: "responder_step P stop s sv = Some (Inr (pc', sv'))"
    and reads: "inv_reads sv rs" and resp: "inv_resp sv hs s" and ptr: "inv_ptr sv rs hs s"
  shows "inv_reads sv' rs \<and> inv_resp sv' hs pc' \<and> inv_ptr sv' rs hs pc'"
proof -
  let ?n = "length (sv_heap sv)"
  have dist: "distinct (eps sv)" using inv_reads_distinct [OF reads] .
  have g: "good_reg (eps sv) (length (sv_socks sv)) (sv_reg sv)" using reads by (simp add: inv_reads_def)
  note cnt = responder_step_counts [OF st dist _ g]
  have p: "responder_ok (eps sv) s" "set (bq_items (sv_responds sv)) \<subseteq> set (eps sv)" using ptr by (simp_all add: inv_ptr_def)
  note ok = responder_step_ok [OF st p g]
  have view: "listener_view sv' = listener_view sv"
  proof (cases "?n = 0")
    case False
    then show ?thesis using cnt by blast
  next
    case True
    then have "eps sv = []" by (simp add: eps_def)
    with p st respond_take_effect [of sv _ sv'] show ?thesis by (cases s) (auto simp: moment_Inr sm_simps)
  qed
  have n: "length (sv_heap sv') = ?n" and e: "eps sv' = eps sv" using view view_heap view_eps by blast+
  have "qlen sv' c = resp_count sv' c + sum_list (map (handler_debt c) hs) + responder_debt (eps sv) c pc'"
    if "c < ?n" for c
    using cnt [OF that] resp that by (auto simp: inv_resp_def resp_count_def)
  then have "inv_resp sv' hs pc'" by (simp add: inv_resp_def resp_count_def n e)
  moreover have "inv_reads sv' rs" using inv_reads_view [OF view reads] .
  moreover have "inv_ptr sv' rs hs pc'" using ok ptr by (simp add: inv_ptr_def n e)
  ultimately show ?thesis by simp
qed

lemma main_step_keeps:
  assumes "main_step cf = Some cf'"
  shows "cf_readers cf' = cf_readers cf \<and> cf_handlers cf' = cf_handlers cf \<and> cf_responder cf' = cf_responder cf \<and>
    (\<exists>b. cf_server cf' = (cf_server cf)\<lparr>sv_stop := b\<rparr>)"
proof -
  have "\<exists>b. cf_server cf = (cf_server cf)\<lparr>sv_stop := b\<rparr>" by (rule exI [of _ "sv_stop (cf_server cf)"]) simp
  with assms show ?thesis by (auto simp: main_step_def stop_defs split: main_pc.splits if_splits)
qed

lemma map_sum_eq_Inr: "map_sum f g x = Inr y \<longleftrightarrow> (\<exists>z. x = Inr z \<and> y = g z)"
  by (cases x) auto

text \<open>The steps of the server, one case for each thread.\<close>

lemma step_cases [consumes 1, case_names accepted readable reader handler responder shutdown]:
  assumes st: "step P d a cf = Some (Inr cf')"
  obtains
    s err where "a = Accepted s err" "cf' = cf\<lparr>cf_server := handle_accept s err (cf_server cf)\<rparr>"
  | ep err now u sv where "a = Readable ep err now" "ep \<in> set (sv_armed (cf_server cf))"
      "handle_read now ep err (cf_server cf) = (Inr u, sv)" "cf' = cf\<lparr>cf_server := sv\<rparr>"
  | k now pc sv where "a = ReaderMove k now" "k < length (cf_readers cf)"
      "reader_step P d now k (cf_reader_stop cf ! k) (cf_readers cf ! k) (cf_server cf) = Some (Inr (pc, sv))"
      "cf' = cf\<lparr>cf_readers := (cf_readers cf)[k := pc], cf_server := sv\<rparr>"
  | k pc sv where "a = HandlerMove k" "k < length (cf_handlers cf)"
      "handler_step P (cf_handler_stop cf ! k) (cf_handlers cf ! k) (cf_server cf) = Some (Inr (pc, sv))"
      "cf' = cf\<lparr>cf_handlers := (cf_handlers cf)[k := pc], cf_server := sv\<rparr>"
  | pc sv where "a = ResponderMove"
      "responder_step P (cf_responder_stop cf) (cf_responder cf) (cf_server cf) = Some (Inr (pc, sv))"
      "cf' = cf\<lparr>cf_responder := pc, cf_server := sv\<rparr>"
  | b where "a = Shutdown" "main_step cf = Some cf'" "cf_readers cf' = cf_readers cf" "cf_handlers cf' = cf_handlers cf"
      "cf_responder cf' = cf_responder cf" "cf_server cf' = (cf_server cf)\<lparr>sv_stop := b\<rparr>"
proof -
  have t: "thread_step P d a cf = Some (Inr cf')" using st by (simp add: step_def split: if_splits)
  show thesis
  proof (cases a)
    case (Accepted s err)
    with t that(1) show thesis by (simp split: if_splits)
  next
    case (Readable ep err now)
    with t that(2) show thesis by (auto split: if_splits prod.splits sum.splits)
  next
    case (ReaderMove k now)
    with t that(3) show thesis by (auto simp: map_sum_eq_Inr split: if_splits)
  next
    case (HandlerMove k)
    with t that(4) show thesis by (auto simp: map_sum_eq_Inr split: if_splits)
  next
    case ResponderMove
    with t that(5) show thesis by (auto simp: map_sum_eq_Inr)
  next
    case Shutdown
    with t have "main_step cf = Some cf'" by auto
    with main_step_keeps [OF this] that(6) [OF Shutdown] show thesis by blast
  qed
qed

lemma server_inv_step:
  assumes inv: "server_inv cf" and st: "step P d a cf = Some (Inr cf')"
  shows "server_inv cf'"
proof -
  let ?sv = "cf_server cf"
  have i: "length (cf_readers cf) = num_readers" "length (cf_handlers cf) = num_handlers"
    "inv_reads ?sv (cf_readers cf)" "inv_resp ?sv (cf_handlers cf) (cf_responder cf)"
    "inv_ptr ?sv (cf_readers cf) (cf_handlers cf) (cf_responder cf)"
    using inv by (simp_all add: server_inv_def)
  from st show ?thesis
  proof (cases rule: step_cases)
    case (accepted s err)
    have "eps (handle_accept s err ?sv) = eps ?sv" "qlen (handle_accept s err ?sv) = qlen ?sv"
      using handle_accept_inv [OF i(3), of s err] by (simp_all add: eps_def qlen_def fun_eq_iff)
    then show ?thesis
      using handle_accept_inv [OF i(3), of s err] i by (simp add: server_inv_def accepted(2) inv_resp_def inv_ptr_def)
  next
    case (readable ep err now u sv)
    from inv_after_read [OF readable(3,2) i(3-5)] i show ?thesis by (simp add: server_inv_def readable(4))
  next
    case (reader k now pc sv)
    from inv_after_reader [OF reader(3,2) i(1,3-5)] i show ?thesis by (simp add: server_inv_def reader(4))
  next
    case (handler k pc sv)
    from inv_after_handler [OF handler(3,2) i(3-5)] i show ?thesis by (simp add: server_inv_def handler(4))
  next
    case (responder pc sv)
    from inv_after_responder [OF responder(2) i(3-5)] i show ?thesis by (simp add: server_inv_def responder(3))
  next
    case (shutdown b)
    have "eps (?sv\<lparr>sv_stop := b\<rparr>) = eps ?sv" "qlen (?sv\<lparr>sv_stop := b\<rparr>) = qlen ?sv"
      by (simp_all add: eps_def qlen_def fun_eq_iff)
    with i show ?thesis by (simp add: server_inv_def shutdown(3-6) inv_reads_def inv_resp_def inv_ptr_def holders_def)
  qed
qed

lemma server_inv_init: "server_inv config_init"
  by (simp add: server_inv_def config_init_def do_accept_def server_new_def inv_reads_def inv_resp_def inv_ptr_def
      good_reg_def good_reads_def at_most_once_def eps_def holders_def num_readers_def num_handlers_def numeral_2_eq_2
      bq_new_def)

lemma reachable_inv: "reachable P d cf \<Longrightarrow> server_inv cf"
  by (induction rule: reachable.induct) (auto intro: server_inv_init server_inv_step)

end
