(* ===== verification/Server_Sending.thy ===== *)
theory Server_Sending
  imports Server_Invariant
begin

text \<open>
  What the running server sends. Every response in a queue or in the hands of a thread holds a
  value and a legal position (\<open>inv_send\<close>), so no attempt to send one fails for a reason of the
  server's own; and while the sockets take whole buffers, no response is ever partly sent, so
  every step sends nothing or one complete response.
\<close>

section \<open>Reading sends nothing\<close>

lemma eats_call_read: "eats 0 (call_read (stream_platform P) d)"
proof -
  have params: "eats 0 (zoom get put (read_params (stream_platform P) (read_fields (stream_platform P) d) k 0))"
    for get put k by (intro eats_intros)
  show ?thesis
    unfolding call_read_def Let_def
    by (rule eats_with_obj eats_if eats_ret eats_try_catch eats_bind0 eats_sock_read eats_modify_obj
        eats_read_string eats_reserve params)+
qed

lemma call_read_silent:
  assumes "duplex P rx tx" and "call_read P d (call, Some s) = (r, (call', p'))"
  shows "\<exists>s'. p' = Some s' \<and> tx s' = tx s"
proof -
  obtain r1 c1 i1 where "call_read (stream_platform P) d (call, Some (rx s, tx s)) = (r1, (c1, Some (i1, tx s)))"
    using eatsE [OF eats_call_read] by metis
  from sim_run [OF sim_call_read [OF assms(1)] this] assms(2) show ?thesis by auto
qed

lemma read_io_silent:
  assumes "duplex P rx tx" and "read_io P d ((call, conn), Some s) = (r, ((call', conn'), p'))"
  shows "\<exists>s'. p' = Some s' \<and> tx s' = tx s"
proof -
  obtain r1 c1 p1 where run: "call_read P d (call, Some s) = (r1, (c1, p1))" by (metis prod.exhaust)
  from call_read_silent [OF assms(1) run] assms(2) show ?thesis by (auto simp: read_io_def zoom_run run)
qed

lemma keeps_call_pos: "keeps (\<lambda>call. sc_pos call = x) (call_read P d)"
proof -
  have "keeps (\<lambda>_. True) m" for m by (simp add: keeps_def)
  then show ?thesis unfolding call_read_def Let_def
    by (intro keeps_intros keeps_modify_obj keeps_zoom [where R = "\<lambda>_. True"]) simp_all
qed

lemma read_io_pos:
  assumes "read_io P d ((call, conn), p) = (r, ((call', conn'), p'))"
  shows "sc_pos call' = sc_pos call"
proof -
  obtain r1 c1 p1 where run: "call_read P d (call, p) = (r1, (c1, p1))" by (metis prod.exhaust)
  from keepsD [OF keeps_call_pos run, of "sc_pos call"] assms show ?thesis
    by (auto simp: read_io_def zoom_run run)
qed

section \<open>The invariant\<close>

text \<open>
  A call that has been computed holds what its method returns for its parameters; with \<open>full\<close>, its
  response is moreover not partly sent.
\<close>

definition valued :: "server_call \<Rightarrow> bool" where
  "valued call \<longleftrightarrow> (\<exists>r. method_call (sc_class call) (sc_method call) (sc_params call) = Inr (Some (IntWritable (Some r))) \<and>
     sc_str_val call = i32_bytes r)"

definition call_good :: "bool \<Rightarrow> server_call \<Rightarrow> bool" where
  "call_good full call \<longleftrightarrow> sendable call \<and> valued call \<and> (full \<longrightarrow> sc_pos call = 0)"

definition call_fresh :: "server_call \<Rightarrow> bool" where
  "call_fresh call \<longleftrightarrow> sc_pos call = 0"

fun reader_good :: "reader_pc \<Rightarrow> bool" where
  "reader_good (RPush c call) = call_fresh call"
| "reader_good _ = True"

fun handler_good :: "bool \<Rightarrow> handler_pc \<Rightarrow> bool" where
  "handler_good full (HCompute call) = call_fresh call"
| "handler_good full (HPush call) = call_good full call"
| "handler_good full (HSend c call) = call_good full call"
| "handler_good full _ = True"

fun responder_good :: "bool \<Rightarrow> responder_pc \<Rightarrow> bool" where
  "responder_good full (SSend c call) = call_good full call"
| "responder_good full _ = True"

definition queues_good :: "bool \<Rightarrow> connection list \<Rightarrow> bool" where
  "queues_good full heap \<longleftrightarrow> list_all (\<lambda>conn. list_all (call_good full) (bq_items (cn_queue conn))) heap"

definition inv_send :: "bool \<Rightarrow> 's config \<Rightarrow> bool" where
  "inv_send full cf \<longleftrightarrow> queues_good full (sv_heap (cf_server cf)) \<and>
     list_all call_fresh (bq_items (sv_calls (cf_server cf))) \<and> list_all reader_good (cf_readers cf) \<and>
     list_all (handler_good full) (cf_handlers cf) \<and> responder_good full (cf_responder cf)"

text \<open>What a step may send: nothing, or on one socket a complete response.\<close>

definition sends_frame :: "('s \<Rightarrow> string) \<Rightarrow> 's list \<Rightarrow> 's list \<Rightarrow> bool" where
  "sends_frame tx ss ss' \<longleftrightarrow> length ss \<le> length ss' \<and>
     (\<forall>e < length ss. tx (ss' ! e) = tx (ss ! e) \<or> (\<exists>i v. tx (ss' ! e) = tx (ss ! e) @ enc_response i v))"

lemma sends_frame_refl [simp]: "sends_frame tx ss ss"
  by (simp add: sends_frame_def)

lemma sends_frame_update:
  assumes "e < length ss" and "tx s' = tx (ss ! e)"
  shows "sends_frame tx ss (ss[e := s'])"
  using assms by (auto simp: sends_frame_def nth_list_update)

lemma queues_good_nth: "queues_good full heap \<Longrightarrow> c < length heap \<Longrightarrow> list_all (call_good full) (bq_items (cn_queue (heap ! c)))"
  by (simp add: queues_good_def list_all_length)

lemma queues_good_update:
  "queues_good full heap \<Longrightarrow> list_all (call_good full) (bq_items (cn_queue conn)) \<Longrightarrow> queues_good full (heap[c := conn])"
  by (simp add: queues_good_def list_all_update)

lemma value_good:
  assumes "handler_compute call = Inr call'" and "call_fresh call"
  shows "call_good full call'"
proof -
  have "(\<exists>r. method_call (sc_class call) (sc_method call) (sc_params call) = Inr (Some (IntWritable (Some r))))"
    using assms(1) method_outcome [of "sc_class call" "sc_method call" "sc_params call"]
    by (auto simp: handler_compute_def call_set_value_def)
  then obtain r where r: "method_call (sc_class call) (sc_method call) (sc_params call) = Inr (Some (IntWritable (Some r)))"
    and "call' = call\<lparr>sc_value := Some (IntWritable (Some r)), sc_str_val := i32_bytes r\<rparr>"
    using handler_compute_value assms(1) by fastforce
  with assms(2) sendable_value [of call r] r show ?thesis by (simp add: call_good_def call_fresh_def valued_def)
qed

lemma good_advance:
  "call_good False call \<Longrightarrow> k < length (unsent call) \<Longrightarrow> call_good False (advance k call)"
  by (simp add: call_good_def sendable_advance) (simp add: valued_def advance_def)

section \<open>Sending one response\<close>

lemma respond_send_good:
  assumes P: "duplex P rx tx" "sends_some P rx tx" "full \<longrightarrow> sends_all P"
    and call: "call_good full call" and heap: "queues_good full (sv_heap sv)"
    and c: "c < length (sv_heap sv)" "ep_of sv c < length (sv_socks sv)"
  shows "\<exists>res sv'. respond_send P c call sv = (Inr res, sv') \<and> queues_good full (sv_heap sv') \<and> sv_calls sv' = sv_calls sv \<and>
     (full \<longrightarrow> res = 0 \<and> sends_frame tx (sv_socks sv) (sv_socks sv')) \<and> (res < 0 \<longrightarrow> \<not> has_room (queue_of sv c))"
proof -
  have snd: "sendable call" using call by (simp add: call_good_def)
  from process_response_attempt [OF P(1,2) snd, of "sv_heap sv ! c" "sock_of sv c"] obtain k s' r call' conn' where
    k: "0 < k" "k \<le> length (unsent call)" and aft: "after_attempt k call (sv_heap sv ! c) = (r, call', conn')"
    and run: "process_response P ((call, sv_heap sv ! c), Some (sock_of sv c)) = (Inr r, ((call', conn'), Some s'))"
    and tx: "tx s' = tx (sock_of sv c) @ sent_header call @ take k (unsent call)"
    and all: "sends_all P \<longrightarrow> k = length (unsent call)" by blast
  let ?sv = "sv\<lparr>sv_heap := (sv_heap sv)[c := conn'], sv_socks := (sv_socks sv)[ep_of sv c := s']\<rparr>"
  have send: "respond_send P c call sv = (Inr r, ?sv)"
    using c run by (simp add: respond_send_def sm_simps on_conn_def Let_def sock_of_def ep_of_def)
  have old: "list_all (call_good full) (bq_items (cn_queue (sv_heap sv ! c)))" using queues_good_nth [OF heap c(1)] .
  have "list_all (call_good full) (bq_items (cn_queue conn'))"
  proof (cases "k = length (unsent call)")
    case True
    then show ?thesis using aft old by (simp add: after_attempt_def)
  next
    case False
    with all P(3) have nf: "\<not> full" by blast
    with False k call have "call_good full (advance k call)" using good_advance by simp
    then show ?thesis using aft old False by (auto simp: after_attempt_def bq_offer_def bq_insert_def split: if_splits)
  qed
  then have "queues_good full (sv_heap ?sv)" using heap by (simp add: queues_good_update)
  moreover have "r = 0 \<and> sends_frame tx (sv_socks sv) (sv_socks ?sv)" if full
  proof -
    have "k = length (unsent call)" "sc_pos call = 0" using that all P(3) call by (auto simp: call_good_def)
    then have "r = 0" "tx s' = tx (sv_socks sv ! ep_of sv c) @ enc_response (sc_id call) (sc_str_val call)"
      using aft tx by (simp_all add: after_attempt_def sent_header_def unsent_def enc_response_def sock_of_def ep_of_def)
    then show ?thesis using c(2) by (auto simp: sends_frame_def nth_list_update)
  qed
  moreover have "r < 0 \<longrightarrow> \<not> has_room (queue_of sv c)"
    using aft by (auto simp: after_attempt_def queue_of_def split: if_splits)
  ultimately show ?thesis using send by auto
qed

section \<open>Every thread keeps the invariant\<close>

text \<open>What a step that sends nothing leaves of the memory.\<close>

definition good_after :: "bool \<Rightarrow> ('s \<Rightarrow> string) \<Rightarrow> 's server \<Rightarrow> 's server \<Rightarrow> bool" where
  "good_after full tx sv sv' \<longleftrightarrow> queues_good full (sv_heap sv') \<and> list_all call_fresh (bq_items (sv_calls sv')) \<and>
     (full \<longrightarrow> sends_frame tx (sv_socks sv) (sv_socks sv'))"

lemma respond_push_good:
  assumes "respond_push call c sv = (Inr ok, sv')" and "call_good full call"
    and "queues_good full (sv_heap sv)" and "list_all call_fresh (bq_items (sv_calls sv))"
  shows "good_after full tx sv sv'"
proof -
  from assms(1) have c: "c < length (sv_heap sv)"
    and sv': "sv' = put_conn c ((sv_heap sv ! c)\<lparr>cn_queue := snd (bq_offer True call (cn_queue (sv_heap sv ! c)))\<rparr>) sv"
    by (auto simp: respond_push_def sm_simps split: if_splits prod.splits)
  have "list_all (call_good full) (bq_items (snd (bq_offer True call (cn_queue (sv_heap sv ! c)))))"
    using queues_good_nth [OF assms(3) c] assms(2) by (simp add: bq_offer_def bq_insert_def)
  with assms(3,4) show ?thesis by (simp add: good_after_def sv' put_heap queues_good_update)
qed

lemma respond_pop_good:
  assumes "respond_pop c sv = (Inr r, sv')" and "queues_good full (sv_heap sv)"
    and "list_all call_fresh (bq_items (sv_calls sv))"
  shows "good_after full tx sv sv' \<and> (\<forall>call. r = Some call \<longrightarrow> call_good full call)"
proof -
  obtain q where c: "c < length (sv_heap sv)" and p: "bq_poll (cn_queue (sv_heap sv ! c)) = (r, q)"
    and sv': "sv' = put_conn c ((sv_heap sv ! c)\<lparr>cn_queue := q\<rparr>) sv"
    using assms(1) by (auto simp: respond_pop_def sm_simps split: if_splits prod.splits)
  have old: "list_all (call_good full) (bq_items (cn_queue (sv_heap sv ! c)))" using queues_good_nth [OF assms(2) c] .
  have "list_all (call_good full) (bq_items q) \<and> (\<forall>call. r = Some call \<longrightarrow> call_good full call)"
    using p old by (auto simp: bq_poll_def bq_remove_def has_item_def bq_size_def split: if_splits list.splits)
  with assms(2,3) show ?thesis by (simp add: good_after_def sv' put_heap queues_good_update)
qed

lemma respond_enqueue_good:
  assumes "respond_enqueue back c sv = (Inr u, sv')" and "queues_good full (sv_heap sv)"
    and "list_all call_fresh (bq_items (sv_calls sv))"
  shows "good_after full tx sv sv'"
  using assms by (auto simp: respond_enqueue_def sm_simps good_after_def split: if_splits prod.splits)

lemma handler_step_good:
  assumes P: "duplex P rx tx" "sends_some P rx tx" "full \<longrightarrow> sends_all P"
    and st: "handler_step P stop pc sv = Some (Inr (pc', sv'))"
    and good: "handler_good full pc" "queues_good full (sv_heap sv)" "list_all call_fresh (bq_items (sv_calls sv))"
    and ok: "handler_ok (length (sv_heap sv)) pc" "good_reg (eps sv) (length (sv_socks sv)) (sv_reg sv)"
  shows "handler_good full pc' \<and> good_after full tx sv sv'"
proof (cases pc)
  case HPop
  with st obtain call where r: "handler_take sv = (Inr (Some call), sv')" and "pc' = HCompute call"
    by (auto simp: moment_Inr)
  moreover have "sv_heap sv' = sv_heap sv \<and> sv_socks sv' = sv_socks sv" using r by (auto simp: handler_take_def sm_simps split: prod.splits)
  ultimately show ?thesis using handler_take_effect [OF r] good by (simp add: good_after_def)
next
  case (HCompute call)
  then show ?thesis using st good by (auto simp: moment_Inr sm_simps good_after_def value_good)
next
  case (HPush call)
  with st obtain c where r: "respond_push call c sv = (Inr True, sv')" and "pc' = HSize c"
    by (auto simp: moment_Inr sm_simps split: option.splits prod.splits sum.splits if_splits)
  with respond_push_good [OF r _ good(2,3)] good(1) HPush show ?thesis by simp
next
  case (HSize c)
  then show ?thesis using st good by (auto simp: moment_Inr good_after_def dest!: respond_alone_effect)
next
  case (HTry c)
  with st obtain r where r: "respond_pop c sv = (Inr r, sv')"
    and pc': "pc' = (case r of None \<Rightarrow> if stop then HStopped else HPop | Some call \<Rightarrow> HSend c call)"
    by (auto simp: moment_Inr)
  with respond_pop_good [OF r good(2,3)] show ?thesis by (cases r) simp_all
next
  case (HSend c call)
  with st obtain res where r: "respond_send P c call sv = (Inr res, sv')"
    and pc': "pc' = (if res = 1 then HRequeue c else if stop then HStopped else HPop)"
    by (auto simp: moment_Inr)
  have c: "c < length (sv_heap sv)" "ep_of sv c < length (sv_socks sv)"
    using ok HSend by (simp_all add: good_reg_def) (metis eps_nth length_eps nth_mem)
  have "call_good full call" using good(1) HSend by simp
  from respond_send_good [OF P this good(2) c] r pc' good(3) show ?thesis by (auto simp: good_after_def)
next
  case (HRequeue c)
  with st obtain u where r: "respond_enqueue False c sv = (Inr u, sv')" and "pc' = (if stop then HStopped else HPop)"
    by (auto simp: moment_Inr)
  with respond_enqueue_good [OF r good(2,3)] show ?thesis by simp
next
  case (HEnqueue c)
  with st obtain u where r: "respond_enqueue True c sv = (Inr u, sv')" and "pc' = (if stop then HStopped else HPop)"
    by (auto simp: moment_Inr)
  with respond_enqueue_good [OF r good(2,3)] show ?thesis by simp
next
  case HStopped
  then show ?thesis using st by simp
qed

lemma responder_step_good:
  assumes P: "duplex P rx tx" "sends_some P rx tx" "full \<longrightarrow> sends_all P"
    and st: "responder_step P stop pc sv = Some (Inr (pc', sv'))"
    and good: "responder_good full pc" "queues_good full (sv_heap sv)" "list_all call_fresh (bq_items (sv_calls sv))"
    and ok: "responder_ok (eps sv) pc" "good_reg (eps sv) (length (sv_socks sv)) (sv_reg sv)"
  shows "responder_good full pc' \<and> good_after full tx sv sv'"
proof (cases pc)
  case SPop
  with st obtain e where r: "respond_take sv = (Inr (Some e), sv')" and "pc' = SFind e" by (auto simp: moment_Inr)
  moreover have "sv_heap sv' = sv_heap sv \<and> sv_socks sv' = sv_socks sv \<and> sv_calls sv' = sv_calls sv"
    using r by (auto simp: respond_take_def sm_simps split: prod.splits)
  ultimately show ?thesis using good by (simp add: good_after_def)
next
  case (SFind e)
  then show ?thesis using st good by (auto simp: moment_Inr good_after_def dest!: respond_find_effect)
next
  case (STry c)
  with st obtain call where r: "respond_pop c sv = (Inr (Some call), sv')" and "pc' = SSend c call"
    by (auto simp: moment_Inr sm_simps split: option.splits prod.splits sum.splits)
  with respond_pop_good [OF r good(2,3)] show ?thesis by simp
next
  case (SSend c call)
  with st obtain res where r: "respond_send P c call sv = (Inr res, sv')"
    and pc': "pc' = (if res = 1 then SRequeue c else if stop then SStopped else SPop)"
    by (auto simp: moment_Inr sm_simps split: prod.splits sum.splits if_splits)
  have c: "c < length (sv_heap sv)" "ep_of sv c < length (sv_socks sv)"
    using ok SSend by (simp_all add: good_reg_def) (metis eps_nth length_eps nth_mem)
  have "call_good full call" using good(1) SSend by simp
  from respond_send_good [OF P this good(2) c] r pc' good(3) show ?thesis by (auto simp: good_after_def)
next
  case (SRequeue c)
  with st obtain u where r: "respond_enqueue False c sv = (Inr u, sv')" and "pc' = (if stop then SStopped else SPop)"
    by (auto simp: moment_Inr)
  with respond_enqueue_good [OF r good(2,3)] show ?thesis by simp
next
  case SStopped
  then show ?thesis using st by simp
qed

lemma reader_read_good:
  assumes P: "duplex P rx tx" and run: "reader_read P d now c sv = (Inr r, sv')"
    and good: "queues_good full (sv_heap sv)" "list_all call_fresh (bq_items (sv_calls sv))"
  shows "good_after full tx sv sv' \<and> (\<forall>call. r = Some call \<longrightarrow> call_fresh call)"
proof -
  obtain ok call sv1 where on: "on_conn c (call_new (Some c)) (read_io P d) sv = (Inr (ok, call), sv1)"
    and rest: "(if ok then bind_sm (deref c) (\<lambda>conn.
         bind_sm (modify (put_conn c (set_last_contact now conn))) (\<lambda>_. ret (Some call)))
       else ret None) sv1 = (Inr r, sv')"
    using run by (auto simp: reader_read_def bind_sm_run [of "on_conn _ _ _"] split: prod.splits sum.splits)
  let ?ep = "cn_ep (sv_heap sv ! c)"
  obtain conn' p' where c: "c < length (sv_heap sv)" "?ep < length (sv_socks sv)"
    and io: "read_io P d ((call_new (Some c), sv_heap sv ! c), Some (sv_socks sv ! ?ep)) = (Inr ok, ((call, conn'), p'))"
    and sv1: "sv1 = sv\<lparr>sv_heap := (sv_heap sv)[c := conn'],
               sv_socks := (case p' of None \<Rightarrow> sv_socks sv | Some s' \<Rightarrow> (sv_socks sv)[?ep := s'])\<rparr>"
    using on by (auto simp: on_conn_def Let_def split: if_splits prod.splits sum.splits)
  from read_io_silent [OF P io] obtain s' where s': "p' = Some s'" "tx s' = tx (sv_socks sv ! ?ep)" by blast
  have conn': "conn' = sv_heap sv ! c" using read_io_effect [OF io] by simp
  have fresh: "call_fresh call" using read_io_pos [OF io] by (simp add: call_fresh_def call_new_def)
  have frame: "sends_frame tx (sv_socks sv) ((sv_socks sv)[?ep := s'])"
    using c(2) s'(2) by (rule sends_frame_update)
  have q: "list_all (call_good full) (bq_items (cn_queue (sv_heap sv ! c)))" using queues_good_nth [OF good(1) c(1)] .
  show ?thesis
  proof (cases ok)
    case True
    then show ?thesis using rest fresh good frame q c(1) s'(1)
      by (auto simp: sm_simps sv1 good_after_def put_conn_def conn' set_last_contact_def queues_good_update)
  next
    case False
    then show ?thesis using rest good frame s'(1) by (auto simp: sm_simps sv1 good_after_def conn')
  qed
qed

lemma reader_step_good:
  assumes P: "duplex P rx tx" "close_silent P tx"
    and st: "reader_step P d now i stop pc sv = Some (Inr (pc', sv'))"
    and good: "reader_good pc" "queues_good full (sv_heap sv)" "list_all call_fresh (bq_items (sv_calls sv))"
    and reg: "good_reg (eps sv) (length (sv_socks sv)) (sv_reg sv)"
  shows "reader_good pc' \<and> good_after full tx sv sv'"
proof (cases pc)
  case RPop
  with st obtain c where r: "reader_take i sv = (Inr (Some c), sv')" and "pc' = RRead c" by (auto simp: moment_Inr)
  moreover from reader_take_effect [OF r] have "sv_heap sv' = sv_heap sv \<and> sv_socks sv' = sv_socks sv \<and> sv_calls sv' = sv_calls sv"
    by auto
  ultimately show ?thesis using good by (simp add: good_after_def)
next
  case (RRead c)
  with st obtain r where r: "reader_read P d now c sv = (Inr r, sv')"
    and pc': "pc' = (case r of None \<Rightarrow> RClose c | Some call \<Rightarrow> RPush c call)" by (auto simp: moment_Inr)
  with reader_read_good [OF P(1) r good(2,3)] show ?thesis by (auto split: option.split)
next
  case (RPush c call)
  with st obtain u where r: "reader_push call sv = (Inr u, sv')" and pc': "pc' = RArm c" by (auto simp: moment_Inr)
  moreover have "sv_heap sv' = sv_heap sv \<and> sv_socks sv' = sv_socks sv"
    using r by (auto simp: reader_push_def sm_simps split: prod.splits if_splits)
  ultimately show ?thesis using reader_push_effect [OF r] good RPush by (simp add: good_after_def)
next
  case (RArm c)
  with st obtain u where r: "reader_arm c sv = (Inr u, sv')" and "pc' = (if stop then RStopped else RPop)"
    by (auto simp: moment_Inr)
  with reader_arm_effect [OF r] good show ?thesis by (simp add: good_after_def)
next
  case (RClose c)
  with st obtain u where r: "close_connection P c sv = (Inr u, sv')" and pc': "pc' = (if stop then RStopped else RPop)"
    by (auto simp: moment_Inr)
  let ?socks = "(sv_socks sv)[cn_ep (sv_heap sv ! c) := asio_close P (sv_socks sv ! cn_ep (sv_heap sv ! c))]"
  from r have c: "c < length (sv_heap sv)" and sv': "sv_heap sv' = sv_heap sv" "sv_calls sv' = sv_calls sv" "sv_socks sv' = ?socks"
    by (auto simp: close_connection_def sm_simps split: if_splits sum.splits)
  have "cn_ep (sv_heap sv ! c) < length (sv_socks sv)"
    using reg c by (simp add: good_reg_def) (metis ep_of_def eps_nth length_eps nth_mem)
  then have "sends_frame tx (sv_socks sv) ?socks"
    using P(2) by (intro sends_frame_update) (simp_all add: close_silent_def)
  with sv' pc' good show ?thesis by (simp add: good_after_def)
next
  case RStopped
  then show ?thesis using st by simp
qed

lemma handle_accept_good:
  assumes "queues_good full (sv_heap sv)" and "list_all call_fresh (bq_items (sv_calls sv))"
  shows "good_after full tx sv (handle_accept s err sv)"
  using assms by (simp add: good_after_def handle_accept_def do_accept_def Let_def sends_frame_def nth_append)

lemma find_or_create_socks: "find_or_create now ep sv = (Inr c, sv') \<Longrightarrow> sv_socks sv' = sv_socks sv"
  by (auto simp: find_or_create_def Let_def split: option.splits sum.splits)

lemma handle_read_good:
  assumes h: "handle_read now ep err sv = (Inr u, sv')" and ep: "ep \<in> set (sv_armed sv)" and inv: "inv_reads sv rs"
    and good: "queues_good full (sv_heap sv)" "list_all call_fresh (bq_items (sv_calls sv))"
  shows "good_after full tx sv sv'"
proof -
  have "sv_socks sv' = sv_socks sv"
    using handle_read_effect [OF h] by (auto dest!: find_or_create_socks)
  moreover have "queues_good full (sv_heap sv')"
    using handle_read_inv [OF h ep inv] good(1)
    by (auto simp: queues_good_def connection_new_def set_last_contact_def bq_new_def)
  ultimately show ?thesis using handle_read_inv [OF h ep inv] good(2) by (simp add: good_after_def)
qed

section \<open>The running server\<close>

lemma inv_send_step:
  assumes P: "duplex P rx tx" "sends_some P rx tx" "full \<longrightarrow> sends_all P" "close_silent P tx"
    and inv: "server_inv cf" and good: "inv_send full cf" and st: "step P d a cf = Some (Inr cf')"
  shows "inv_send full cf' \<and> (full \<longrightarrow> sends_frame tx (sv_socks (cf_server cf)) (sv_socks (cf_server cf')))"
proof -
  let ?sv = "cf_server cf"
  have i: "inv_reads ?sv (cf_readers cf)" "inv_ptr ?sv (cf_readers cf) (cf_handlers cf) (cf_responder cf)"
    using inv by (simp_all add: server_inv_def)
  have g: "queues_good full (sv_heap ?sv)" "list_all call_fresh (bq_items (sv_calls ?sv))"
    "list_all reader_good (cf_readers cf)" "list_all (handler_good full) (cf_handlers cf)"
    "responder_good full (cf_responder cf)" using good by (simp_all add: inv_send_def)
  have reg: "good_reg (eps ?sv) (length (sv_socks ?sv)) (sv_reg ?sv)" using i(1) by (simp add: inv_reads_def)
  from st show ?thesis
  proof (cases rule: step_cases)
    case (accepted s err)
    with g handle_accept_good [OF g(1,2), of tx s err] show ?thesis by (simp add: inv_send_def good_after_def)
  next
    case (readable ep err now u sv)
    with g handle_read_good [OF readable(3,2) i(1) g(1,2), of tx] show ?thesis by (simp add: inv_send_def good_after_def)
  next
    case (reader k now pc sv)
    have "reader_good (cf_readers cf ! k)" using g(3) reader(2) by (simp add: list_all_length)
    from reader_step_good [OF P(1,4) reader(3) this g(1,2) reg] g show ?thesis
      by (simp add: inv_send_def good_after_def reader(4) list_all_update)
  next
    case (handler k pc sv)
    have "handler_good full (cf_handlers cf ! k)" "handler_ok (length (sv_heap ?sv)) (cf_handlers cf ! k)"
      using g(4) i(2) handler(2) by (simp_all add: list_all_length inv_ptr_def)
    from handler_step_good [OF P(1-3) handler(3) this(1) g(1,2) this(2) reg] g show ?thesis
      by (simp add: inv_send_def good_after_def handler(4) list_all_update)
  next
    case (responder pc sv)
    have "responder_ok (eps ?sv) (cf_responder cf)" using i(2) by (simp add: inv_ptr_def)
    from responder_step_good [OF P(1-3) responder(2) g(5,1,2) this reg] g show ?thesis
      by (simp add: inv_send_def good_after_def responder(3))
  next
    case (shutdown b)
    with g show ?thesis by (simp add: inv_send_def)
  qed
qed

lemma reachable_send:
  assumes P: "duplex P rx tx" "sends_some P rx tx" "full \<longrightarrow> sends_all P" "close_silent P tx"
    and r: "reachable P d cf"
  shows "inv_send full cf"
  using r
proof induction
  case start
  show ?case
    by (simp add: inv_send_def config_init_def do_accept_def server_new_def queues_good_def bq_new_def
        num_readers_def num_handlers_def numeral_2_eq_2)
next
  case (move cf a cf')
  from inv_send_step [OF P reachable_inv [OF move.hyps(1)] move.IH move.hyps(2)] show ?case by simp
qed

end
