(* ===== verification/Server_Safety.thy ===== *)
theory Server_Safety
  imports Server_Sending
begin

text \<open>
  What the invariants give: the properties of the running server that hold in every reachable
  configuration, and the schedules that show where its design fails.
\<close>

section \<open>Faults\<close>

text \<open>What can bring the process down, action by action.\<close>

fun reader_fault :: "'s platform \<Rightarrow> nat \<Rightarrow> 's server \<Rightarrow> reader_pc \<Rightarrow> fault \<Rightarrow> bool" where
  "reader_fault P d sv (RRead c) e \<longleftrightarrow> fst (call_read P d (call_new (Some c), Some (sock_of sv c))) = Inl e"
| "reader_fault P d sv (RPush c call) e \<longleftrightarrow> e = Aborted \<and> \<not> has_room (sv_calls sv)"
| "reader_fault P d sv _ e \<longleftrightarrow> False"

fun handler_fault :: "'s server \<Rightarrow> handler_pc \<Rightarrow> fault \<Rightarrow> bool" where
  "handler_fault sv (HCompute call) e \<longleftrightarrow> handler_compute call = Inl e"
| "handler_fault sv (HPush call) e \<longleftrightarrow> e = Aborted \<and> (\<exists>c. sc_conn call = Some c \<and> \<not> has_room (queue_of sv c))"
| "handler_fault sv (HRequeue c) e \<longleftrightarrow> e = Aborted \<and> \<not> has_room (sv_responds sv)"
| "handler_fault sv (HEnqueue c) e \<longleftrightarrow> e = Aborted \<and> \<not> has_room (sv_responds sv)"
| "handler_fault sv _ e \<longleftrightarrow> False"

fun responder_fault :: "'s server \<Rightarrow> responder_pc \<Rightarrow> fault \<Rightarrow> bool" where
  "responder_fault sv (SFind ep) e \<longleftrightarrow> e = Aborted \<and> sv_reg sv ep = None"
| "responder_fault sv (SSend c call) e \<longleftrightarrow> e = Aborted \<and> \<not> has_room (queue_of sv c)"
| "responder_fault sv (SRequeue c) e \<longleftrightarrow> e = Aborted \<and> \<not> has_room (sv_responds sv)"
| "responder_fault sv _ e \<longleftrightarrow> False"

definition accept_fault :: "'s server \<Rightarrow> fault \<Rightarrow> bool" where
  "accept_fault sv e \<longleftrightarrow>
     (e = Undefined SignedOverflow \<and> 2 ^ 31 - 1 \<le> max (sint (sv_index sv)) (sint (sv_count sv))) \<or>
     (e = Aborted \<and> list_all (\<lambda>q. \<not> has_room q) (sv_readers sv))"

fun fault_cause :: "'s platform \<Rightarrow> nat \<Rightarrow> 's config \<Rightarrow> 's action \<Rightarrow> fault \<Rightarrow> bool" where
  "fault_cause P d cf (Accepted s err) e \<longleftrightarrow> False"
| "fault_cause P d cf (Readable ep err now) e \<longleftrightarrow> accept_fault (cf_server cf) e"
| "fault_cause P d cf (ReaderMove i now) e \<longleftrightarrow> reader_fault P d (cf_server cf) (cf_readers cf ! i) e"
| "fault_cause P d cf (HandlerMove i) e \<longleftrightarrow> handler_fault (cf_server cf) (cf_handlers cf ! i) e"
| "fault_cause P d cf ResponderMove e \<longleftrightarrow> responder_fault (cf_server cf) (cf_responder cf) e"
| "fault_cause P d cf Shutdown e \<longleftrightarrow> False"

lemma moment_Inl: "moment m k sv = Some (Inl e) \<longleftrightarrow> (\<exists>sv'. m sv = (Inl e, sv'))"
  by (auto simp: moment_def split: prod.splits sum.splits option.splits)

lemma map_sum_eq_Inl: "map_sum f g x = Inl y \<longleftrightarrow> (\<exists>z. x = Inl z \<and> y = f z)"
  by (cases x) auto

lemma add_i32_Inl: "add_i32 a 1 = Inl e \<Longrightarrow> e = Undefined SignedOverflow \<and> 2 ^ 31 - 1 \<le> sint a"
  by (auto simp: add_i32_def split: if_splits) (use sint_ge [of a] in \<open>simp\<close>)

lemma add_to_reader_fails:
  assumes "add_to_reader c sv = (False, sv')" and "length (sv_readers sv) = num_readers"
  shows "list_all (\<lambda>q. \<not> has_room q) (sv_readers sv)"
proof -
  obtain q0 q1 where q: "sv_readers sv = [q0, q1]"
    using assms(2) by (auto simp: num_readers_def length_Suc_conv numeral_2_eq_2)
  let ?l = "next_reader (sv_last_reader sv)"
  have l: "?l = 0 \<or> ?l = 1" using next_reader_range [of "sv_last_reader sv"] by (auto simp: num_readers_def)
  have n: "next_reader 0 = 1" "next_reader 1 = 0" by (simp_all add: next_reader_def num_readers_def)
  from l assms(1) show ?thesis
    by (elim disjE) (auto simp: add_to_reader_def num_readers_def numeral_2_eq_2 reader_add_cases q n split: if_splits)
qed

lemma handle_read_fault:
  assumes "handle_read now ep err sv = (Inl e, sv')" and "length (sv_readers sv) = num_readers"
  shows "accept_fault sv e"
proof -
  let ?sv = "sv_armed_update (remove1 ep) sv"
  from assms(1) have "\<not> err \<and> \<not> sv_stop sv" by (auto simp: handle_read_def sm_simps split: if_splits)
  with assms(1) consider (create) sv1 where "find_or_create now ep ?sv = (Inl e, sv1)"
    | (full) c sv1 where "find_or_create now ep ?sv = (Inr c, sv1)" "add_to_reader c sv1 = (False, sv')" "e = Aborted"
    by (auto simp: handle_read_def sm_simps split: prod.splits sum.splits bool.splits)
  then show ?thesis
  proof cases
    case create
    then show ?thesis
      by (auto simp: find_or_create_def Let_def bind_sum_def accept_fault_def split: option.splits sum.splits
          dest!: add_i32_Inl)
  next
    case full
    have "sv_readers sv1 = sv_readers sv"
      using full(1) by (auto simp: find_or_create_def Let_def split: option.splits sum.splits)
    with full(3) add_to_reader_fails [OF full(2)] assms(2) show ?thesis by (simp add: accept_fault_def)
  qed
qed

lemma holder_live:
  assumes "inv_reads sv rs" and "c \<in> set (holders sv rs)"
  shows "live sv c"
proof -
  have "c < length (sv_heap sv)" "sv_reg sv (eps sv ! c) = Some c"
    using assms by (simp_all add: inv_reads_def good_reads_def)
  moreover from this have "ep_of sv c < length (sv_socks sv)"
    using assms(1) by (simp add: inv_reads_def good_reg_def) (metis eps_nth length_eps nth_mem)
  ultimately show ?thesis by (simp add: live_def eps_nth ep_of_def)
qed

lemma reader_step_fault:
  assumes st: "reader_step P d now i stop pc sv = Some (Inl e)" and inv: "inv_reads sv rs" and pc: "pc \<in> set rs"
  shows "reader_fault P d sv pc e"
proof -
  have live: "live sv c" if "c \<in> set (reader_conn pc)" for c
    using inv pc that by (intro holder_live [of sv rs]) (auto simp: holders_def)
  have cnt: "0 \<le> sint (sv_count sv)" using inv by (simp add: inv_reads_def)
  show ?thesis
  proof (cases pc)
    case RPop
    then show ?thesis using st by (auto simp: moment_Inl reader_take_def sm_simps split: prod.splits)
  next
    case (RRead c)
    have l: "c < length (sv_heap sv)" "cn_ep (sv_heap sv ! c) < length (sv_socks sv)"
      using live [of c] RRead by (simp_all add: live_def)
    have ep: "cn_ep conn' = cn_ep (sv_heap sv ! c)" if "read_io P d ((x, sv_heap sv ! c), p) = (r, ((x', conn'), p'))" for x p r x' conn' p'
      using read_io_effect [OF that] by simp
    from RRead st l show ?thesis
      by (auto simp: moment_Inl reader_read_def sm_simps on_conn_def Let_def sock_of_def read_io_def
          split: prod.splits sum.splits if_splits)
  next
    case (RPush c call)
    then show ?thesis using st by (auto simp: moment_Inl reader_push_def sm_simps bq_offer_def split: prod.splits if_splits)
  next
    case (RArm c)
    then show ?thesis using st live [of c] by (auto simp: moment_Inl reader_arm_def sm_simps live_def)
  next
    case (RClose c)
    moreover have "add_i32 (sv_count sv) (- 1) = Inr (sv_count sv + - 1)"
      using cnt sint_lt [of "sv_count sv"] by (intro add_i32_ok) simp_all
    ultimately show ?thesis using st live [of c] by (auto simp: moment_Inl close_connection_def sm_simps live_def)
  next
    case RStopped
    then show ?thesis using st by simp
  qed
qed

lemma handler_step_fault:
  assumes P: "duplex P rx tx" "sends_some P rx tx" and st: "handler_step P stop pc sv = Some (Inl e)"
    and ok: "handler_ok (length (sv_heap sv)) pc" and good: "handler_good False pc" "queues_good False (sv_heap sv)"
    and reg: "good_reg (eps sv) (length (sv_socks sv)) (sv_reg sv)"
  shows "handler_fault sv pc e"
proof (cases pc)
  case (HSend c call)
  have c: "c < length (sv_heap sv)" "ep_of sv c < length (sv_socks sv)"
    using ok reg HSend by (simp_all add: good_reg_def) (metis eps_nth length_eps nth_mem)
  have "call_good False call" using good(1) HSend by simp
  from respond_send_good [OF P _ this good(2) c] st HSend show ?thesis by (auto simp: moment_Inl)
next
  case HPop
  then show ?thesis using st by (auto simp: moment_Inl handler_take_def sm_simps split: prod.splits)
next
  case (HPush call)
  then show ?thesis using st ok
    by (auto simp: moment_Inl respond_push_def sm_simps call_ok_def bq_offer_def queue_of_def split: prod.splits if_splits)
qed (use st ok in \<open>auto simp: moment_Inl sm_simps respond_alone_def respond_pop_def respond_enqueue_def bq_offer_def
    split: prod.splits if_splits\<close>)

lemma responder_step_fault:
  assumes P: "duplex P rx tx" "sends_some P rx tx" and st: "responder_step P stop pc sv = Some (Inl e)"
    and ok: "responder_ok (eps sv) pc" and good: "responder_good False pc" "queues_good False (sv_heap sv)"
    and reg: "good_reg (eps sv) (length (sv_socks sv)) (sv_reg sv)"
    and pop: "\<And>c. pc = STry c \<Longrightarrow> 0 < qlen sv c"
  shows "responder_fault sv pc e"
proof (cases pc)
  case (SSend c call)
  have c: "c < length (sv_heap sv)" "ep_of sv c < length (sv_socks sv)"
    using ok reg SSend by (simp_all add: good_reg_def) (metis eps_nth length_eps nth_mem)
  have "call_good False call" using good(1) SSend by simp
  from respond_send_good [OF P _ this good(2) c] st SSend show ?thesis
    by (auto simp: moment_Inl sm_simps split: if_splits)
next
  case SPop
  then show ?thesis using st by (auto simp: moment_Inl respond_take_def sm_simps split: prod.splits)
next
  case (STry c)
  then show ?thesis using st ok pop [OF STry]
    by (auto simp: moment_Inl respond_pop_def sm_simps qlen_def bq_poll_def bq_remove_def has_item_def bq_size_def
        split: prod.splits if_splits list.splits option.splits)
next
  case (SFind ep)
  then show ?thesis using st by (auto simp: moment_Inl respond_find_def sm_simps split: option.splits)
qed (use st ok in \<open>auto simp: moment_Inl sm_simps respond_enqueue_def bq_offer_def split: prod.splits if_splits\<close>)

section \<open>Properties of every reachable configuration\<close>

text \<open>A schedule in which one client connects, has its call read, and the call waits for a handler.\<close>

definition demo_request :: string where
  "demo_request = enc_request 1 ''FSNameSystem'' ''create'' [IntWritable (Some 5)]"

definition demo_actions :: "wire action list" where
  "demo_actions = [Accepted (demo_request, []) False, Readable 0 False 1, ReaderMove 0 1, ReaderMove 0 2, ReaderMove 0 3]"

definition demo_config :: "wire config" where
  "demo_config = (case run (machine 100) 3 demo_actions config_init of Some (Inr cf) \<Rightarrow> cf | _ \<Rightarrow> config_init)"

lemma reachable_run:
  assumes "case run P d as config_init of Some (Inr cf) \<Rightarrow> True | _ \<Rightarrow> False"
  shows "reachable P d (case run P d as config_init of Some (Inr cf) \<Rightarrow> cf | _ \<Rightarrow> config_init)"
  using assms run_reachable [OF reachable.start] by (auto split: option.splits sum.splits)

lemma reachable_demo: "reachable (machine 100) 3 demo_config"
  unfolding demo_config_def by (rule reachable_run) code_simp

lemma at_most_once_distinct: "at_most_once (mset xs) \<Longrightarrow> distinct xs"
  by (induction xs) (simp_all add: at_most_once_add)

lemma debt_in: "pc \<in> set hs \<Longrightarrow> handler_debt c pc = 1 \<Longrightarrow> 1 \<le> sum_list (map (handler_debt c) hs)"
  by (induction hs) auto

text \<open>
  C4. However the threads interleave, an endpoint has at most one read token: it has an
  outstanding asynchronous read, or its connection is once in the queue of one reader, or one
  reader works on it. So no two readers ever read from the same socket, and what they read is
  never torn.
\<close>

theorem reads_exclusive:
  assumes "reachable P d cf"
  shows "distinct (sv_armed (cf_server cf) @ map (ep_of (cf_server cf)) (holders (cf_server cf) (cf_readers cf)))"
proof -
  let ?sv = "cf_server cf" and ?H = "holders (cf_server cf) (cf_readers cf)"
  have inv: "inv_reads ?sv (cf_readers cf)" using reachable_inv [OF assms] by (simp add: server_inv_def)
  have "map ((!) (eps ?sv)) ?H = map (ep_of ?sv) ?H"
    using inv by (auto simp: inv_reads_def good_reads_def eps_nth)
  moreover have "at_most_once (mset (sv_armed ?sv) + mset (map ((!) (eps ?sv)) ?H))"
    using inv by (simp add: inv_reads_def good_reads_def)
  ultimately have "at_most_once (mset (sv_armed ?sv @ map (ep_of ?sv) ?H))" by (simp only: mset_append)
  then show ?thesis by (rule at_most_once_distinct)
qed

theorem reads_exclusive_witness:
  "distinct (sv_armed (cf_server demo_config) @
     map (ep_of (cf_server demo_config)) (holders (cf_server demo_config) (cf_readers demo_config))) \<and>
   holders (cf_server demo_config) (cf_readers demo_config) = [0]"
  using reads_exclusive [OF reachable_demo] by (rule conjI) code_simp

text \<open>
  C5. A thread about to take a response from a connection always finds one: the responder never
  aborts with a failure to pop, and no handler's direct attempt comes to nothing, although up to
  three threads and the endpoints queued in \<open>_bq_respond\<close> compete for the queue.
\<close>

theorem response_pop_succeeds:
  assumes "reachable P d cf" and "HTry c \<in> set (cf_handlers cf) \<or> cf_responder cf = STry c"
  shows "\<exists>call sv'. respond_pop c (cf_server cf) = (Inr (Some call), sv')"
proof -
  let ?sv = "cf_server cf"
  have inv: "inv_resp ?sv (cf_handlers cf) (cf_responder cf)"
    "inv_ptr ?sv (cf_readers cf) (cf_handlers cf) (cf_responder cf)"
    using reachable_inv [OF assms(1)] by (simp_all add: server_inv_def)
  have c: "c < length (sv_heap ?sv)" using assms(2) inv(2) by (auto simp: inv_ptr_def list_all_iff)
  have "0 < qlen ?sv c" using assms(2)
  proof
    assume "HTry c \<in> set (cf_handlers cf)"
    then have "1 \<le> sum_list (map (handler_debt c) (cf_handlers cf))" by (rule debt_in [of "HTry c"]) simp
    with inv(1) c show ?thesis by (simp add: inv_resp_def)
  next
    assume "cf_responder cf = STry c"
    with inv(1) c show ?thesis by (simp add: inv_resp_def)
  qed
  with c show ?thesis
    by (auto simp: respond_pop_def sm_simps qlen_def bq_poll_def bq_remove_def has_item_def bq_size_def
        split: list.split)
qed

text \<open>The schedule goes on until the handler is about to pop.\<close>

definition demo_pop_config :: "wire config" where
  "demo_pop_config = (case run (machine 100) 3 (demo_actions @ replicate 4 (HandlerMove 1)) config_init of
     Some (Inr cf) \<Rightarrow> cf | _ \<Rightarrow> config_init)"

lemma reachable_demo_pop: "reachable (machine 100) 3 demo_pop_config"
  unfolding demo_pop_config_def by (rule reachable_run) code_simp

theorem response_pop_succeeds_witness:
  "\<exists>call sv'. respond_pop 0 (cf_server demo_pop_config) = (Inr (Some call), sv')"
proof (rule response_pop_succeeds [OF reachable_demo_pop])
  have "cf_handlers demo_pop_config = [HPop, HTry 0]" by code_simp
  then show "HTry 0 \<in> set (cf_handlers demo_pop_config) \<or> cf_responder demo_pop_config = STry 0" by simp
qed

text \<open>
  C20. \<open>num_connections\<close> is the number of connections in the map, and the map finds for an
  endpoint only a connection of that endpoint; in particular the count never goes below zero,
  although \<open>close_connection\<close> decreases it without looking.
\<close>

theorem connections_counted:
  assumes "reachable P d cf"
  shows "sint (sv_count (cf_server cf)) = int (card (dom (sv_reg (cf_server cf)))) \<and>
    (\<forall>e c. sv_reg (cf_server cf) e = Some c \<longrightarrow>
       c < length (sv_heap (cf_server cf)) \<and> ep_of (cf_server cf) c = e)"
proof -
  have "inv_reads (cf_server cf) (cf_readers cf)" using reachable_inv [OF assms] by (simp add: server_inv_def)
  then show ?thesis by (auto simp: inv_reads_def good_reg_def simp flip: eps_nth)
qed

theorem connections_counted_witness:
  "sint (sv_count (cf_server demo_config)) = int (card (dom (sv_reg (cf_server demo_config)))) \<and>
   sint (sv_count (cf_server demo_config)) = 1"
proof
  show "sint (sv_count (cf_server demo_config)) = int (card (dom (sv_reg (cf_server demo_config))))"
    using connections_counted [OF reachable_demo] by blast
  show "sint (sv_count (cf_server demo_config)) = 1" by code_simp
qed


text \<open>
  C23, below, is such a schedule: the client closes its side while part of a response waits.
\<close>

definition closing_actions :: "wire action list" where
  "closing_actions = demo_actions @ [ReaderMove 0 4] @ replicate 7 (HandlerMove 0) @
     [Readable 0 False 5, ReaderMove 1 6, ReaderMove 1 7, ReaderMove 1 8, ResponderMove]"

definition closing_config :: "wire config" where
  "closing_config = (case run (slow_machine 100) 3 closing_actions config_init of Some (Inr cf) \<Rightarrow> cf | _ \<Rightarrow> config_init)"

lemma reachable_closing: "reachable (slow_machine 100) 3 closing_config"
  unfolding closing_config_def by (rule reachable_run) code_simp

lemma closing_aborts: "step (slow_machine 100) 3 ResponderMove closing_config = Some (Inl Aborted)"
proof -
  have "case step (slow_machine 100) 3 ResponderMove closing_config of Some (Inl e) \<Rightarrow> e = Aborted | _ \<Rightarrow> False"
    by code_simp
  then show ?thesis by (auto split: option.splits sum.splits)
qed



definition demo_send_config :: "wire config" where
  "demo_send_config = (case step (machine 100) 3 (HandlerMove 1) demo_pop_config of
     Some (Inr cf) \<Rightarrow> cf | _ \<Rightarrow> demo_pop_config)"

definition demo_sent_config :: "wire config" where
  "demo_sent_config = (case step (machine 100) 3 (HandlerMove 1) demo_send_config of
     Some (Inr cf) \<Rightarrow> cf | _ \<Rightarrow> demo_send_config)"


section \<open>Where the design fails\<close>


text \<open>A client is accepted, and its request is read; then the server is stopped.\<close>

definition lost_call_actions :: "wire action list" where
  "lost_call_actions = take 4 demo_actions @ replicate 6 Shutdown"

text \<open>
  A shutdown can lose a call that has been read: \<open>waitToFinish\<close> looks at the queues only, so
  while a reader holds a call between reading it and putting it into \<open>_bq_call\<close>, all queues are
  empty, and the process exits although the client waits for its answer.
\<close>

theorem shutdown_loses_call:
  "case run (machine 100) 3 lost_call_actions config_init of
     Some (Inr cf) \<Rightarrow> cf_main cf = MExit \<and>
       (case cf_readers cf ! 0 of RPush c call \<Rightarrow> c = 0 \<and> sc_id call = 1 \<and> sc_method call = ''create'' | _ \<Rightarrow> False) \<and>
       map snd (sv_socks (cf_server cf)) = [[]]
   | _ \<Rightarrow> False"
  by code_simp

end
