(* ===== verification/Registry.thy ===== *)
theory Registry
  imports Prelude
begin

text \<open>
  The interface of the three caches of the program: the clients of \<open>RPC\<close> by socket type, the
  connections of a client by host and port, and the connections of the server by endpoint. Each
  has one operation, which finds the object of a key in a map or makes it.

  The laws say what a lookup finds after the operation; what a user of a cache relies on, one
  object per key for good, and no object shared by two keys, follows for every cache.
\<close>

locale registry =
  fixes valid :: "'st \<Rightarrow> bool"
    and lookup :: "'st \<Rightarrow> 'k \<Rightarrow> 'v option"
    and acquire :: "'k \<Rightarrow> ('st, 'v) sm"
  assumes found: "lookup st k = Some v \<Longrightarrow> acquire k st = (Inr v, st)"
    and created: "acquire k st = (Inr v, st') \<Longrightarrow> lookup st' k = Some v"
    and others: "acquire k st = (Inr v, st') \<Longrightarrow> k' \<noteq> k \<Longrightarrow> lookup st' k' = lookup st k'"
    and fresh: "valid st \<Longrightarrow> lookup st k = None \<Longrightarrow> acquire k st = (Inr v, st') \<Longrightarrow> lookup st k' \<noteq> Some v"
    and keeps_valid: "valid st \<Longrightarrow> acquire k st = (Inr v, st') \<Longrightarrow> valid st'"
begin

text \<open>A state in which no two keys share an object.\<close>

definition unshared :: "'st \<Rightarrow> bool" where
  "unshared st \<longleftrightarrow> valid st \<and> (\<forall>k k' v. lookup st k = Some v \<longrightarrow> lookup st k' = Some v \<longrightarrow> k = k')"

lemma keeps_found:
  assumes "acquire k st = (Inr v, st')" and "lookup st k' = Some w"
  shows "lookup st' k' = Some w"
proof (cases "k' = k")
  case True
  with assms found show ?thesis by (metis created prod.inject)
next
  case False
  with assms others show ?thesis by simp
qed

lemma again: "acquire k st = (Inr v, st') \<Longrightarrow> acquire k st' = (Inr v, st')"
  using created found by blast

lemma keeps_unshared:
  assumes st: "unshared st" and run: "acquire k st = (Inr v, st')"
  shows "unshared st'"
proof -
  have "valid st'" using st run keeps_valid by (auto simp: unshared_def)
  moreover have "k1 = k2" if "lookup st' k1 = Some w" "lookup st' k2 = Some w" for k1 k2 w
  proof (cases "lookup st k")
    case (Some x)
    then have "st' = st" using found run by (metis prod.inject)
    with st that show ?thesis unfolding unshared_def by blast
  next
    case None
    have new: "lookup st k' \<noteq> Some v" for k' using fresh [OF _ None run] st by (simp add: unshared_def)
    have old: "lookup st' k' = (if k' = k then Some v else lookup st k')" for k'
      using created [OF run] others [OF run] by simp
    from that st new show ?thesis by (auto simp: old unshared_def split: if_splits)
  qed
  ultimately show ?thesis by (simp add: unshared_def)
qed

text \<open>A sequence of uses, and what they are given.\<close>

primrec acquire_all :: "'k list \<Rightarrow> ('st, 'v list) sm" where
  "acquire_all [] = ret []"
| "acquire_all (k # ks) = bind_sm (acquire k) (\<lambda>v. bind_sm (acquire_all ks) (\<lambda>vs. ret (v # vs)))"

lemma acquire_all_Cons:
  assumes "acquire_all (k # ks) st = (Inr vs, st')"
  obtains v st1 vs' where "acquire k st = (Inr v, st1)" "acquire_all ks st1 = (Inr vs', st')" "vs = v # vs'"
  using assms by (auto simp: sm_simps split: prod.splits sum.splits)

lemma acquire_all_lookup:
  assumes "acquire_all ks st = (Inr vs, st')"
  shows "map Some vs = map (lookup st') ks \<and> (\<forall>k v. lookup st k = Some v \<longrightarrow> lookup st' k = Some v)"
  using assms
proof (induction ks arbitrary: st vs)
  case Nil
  then show ?case by (simp add: sm_simps)
next
  case (Cons k ks)
  from Cons.prems obtain v st1 vs' where 1: "acquire k st = (Inr v, st1)" "acquire_all ks st1 = (Inr vs', st')"
    "vs = v # vs'" by (rule acquire_all_Cons)
  from Cons.IH [OF 1(2)] created [OF 1(1)] keeps_found [OF 1(1)] 1(3) show ?case by auto
qed

lemma acquire_all_unshared: "acquire_all ks st = (Inr vs, st') \<Longrightarrow> unshared st \<Longrightarrow> unshared st'"
  by (induction ks arbitrary: st vs) (auto simp: sm_simps elim!: acquire_all_Cons intro: keeps_unshared
      simp del: acquire_all.simps(2))

text \<open>Two uses of a cache get the same object if and only if they use the same key.\<close>

lemma same_iff:
  assumes run: "acquire_all ks st = (Inr vs, st')" and st: "unshared st" and i: "i < length ks" "j < length ks"
  shows "vs ! i = vs ! j \<longleftrightarrow> ks ! i = ks ! j"
proof -
  have all: "map Some vs = map (lookup st') ks" using acquire_all_lookup [OF run] by simp
  then have len: "length vs = length ks" by (metis length_map)
  have "lookup st' (ks ! n) = Some (vs ! n)" if "n < length ks" for n
    using arg_cong [OF all, of "\<lambda>xs. xs ! n"] that len by simp
  with i acquire_all_unshared [OF run st] show ?thesis unfolding unshared_def by (metis option.inject)
qed

end

end
