(* ===== verification/Listener_Connections.thy ===== *)
theory Listener_Connections
  imports Server_Safety Registry
begin

text \<open>
  What the listener promises of its connections: one for each socket, given to the readers in
  turn, and removed when idle by \<open>cleanup_connections\<close>, which the listener does not call.
\<close>

section \<open>One connection for each socket\<close>

definition accepted_valid :: "'s server \<Rightarrow> bool" where
  "accepted_valid sv \<longleftrightarrow> (\<forall>ep c. sv_reg sv ep = Some c \<longrightarrow> c < length (sv_heap sv))"

lemma find_or_create_found: "sv_reg sv ep = Some c \<Longrightarrow> find_or_create now ep sv = (Inr c, sv)"
  by (simp add: find_or_create_def)

lemma find_or_create_Inr:
  assumes "find_or_create now ep sv = (Inr c, sv')"
  shows "sv_reg sv' = (sv_reg sv)(ep := Some c) \<and>
    (if sv_reg sv ep = None then c = length (sv_heap sv) \<and> length (sv_heap sv') = Suc c
     else sv' = sv \<and> sv_reg sv ep = Some c)"
  using assms by (auto simp: find_or_create_def Let_def fun_upd_idem split: option.splits sum.splits)

interpretation accepted: registry accepted_valid sv_reg "find_or_create now"
proof
  fix sv sv' :: "'s server" and ep ep' c
  show "sv_reg sv ep = Some c \<Longrightarrow> find_or_create now ep sv = (Inr c, sv)" by (rule find_or_create_found)
  assume run: "find_or_create now ep sv = (Inr c, sv')"
  note eff = find_or_create_Inr [OF run]
  show "sv_reg sv' ep = Some c" using eff by simp
  show "sv_reg sv' ep' = sv_reg sv ep'" if "ep' \<noteq> ep" using eff that by simp
  show "sv_reg sv ep' \<noteq> Some c" if "accepted_valid sv" "sv_reg sv ep = None"
    using eff that by (auto simp: accepted_valid_def)
  show "accepted_valid sv'" if "accepted_valid sv"
    using eff that by (auto simp: accepted_valid_def less_SucI split: if_splits)
qed

primrec find_connections :: "int \<Rightarrow> nat list \<Rightarrow> ('s server, nat list) sm" where
  "find_connections now [] = ret []"
| "find_connections now (ep # es) =
     bind_sm (find_or_create now ep) (\<lambda>c. bind_sm (find_connections now es) (\<lambda>cs. ret (c # cs)))"

lemma find_connections_acquire: "find_connections now es = accepted.acquire_all now es"
  by (induction es) simp_all

lemma reachable_unshared:
  assumes "reachable P d cf"
  shows "accepted.unshared (cf_server cf)"
proof -
  let ?sv = "cf_server cf"
  have reg: "good_reg (eps ?sv) (length (sv_socks ?sv)) (sv_reg ?sv)"
    using reachable_inv [OF assms] by (simp add: server_inv_def inv_reads_def)
  then have "accepted_valid ?sv" by (auto simp: accepted_valid_def good_reg_def)
  moreover have "e = e'" if "sv_reg ?sv e = Some c" "sv_reg ?sv e' = Some c" for e e' c
    using reg that unfolding good_reg_def by blast
  ultimately show ?thesis by (auto simp: accepted.unshared_def)
qed

text \<open>
  C26. Whatever the server has done before, sockets that become readable get the same connection
  exactly when they are the same socket: the calls of two clients are never mixed on one
  connection, and the calls of one client share its queue of responses.
\<close>

theorem one_connection_per_socket:
  assumes "reachable P d cf" and "find_connections now es (cf_server cf) = (Inr cs, sv)"
    and "i < length es" and "j < length es"
  shows "cs ! i = cs ! j \<longleftrightarrow> es ! i = es ! j"
  using accepted.same_iff [OF assms(2) [unfolded find_connections_acquire] reachable_unshared [OF assms(1)] assms(3,4)] .

theorem one_connection_per_socket_witness:
  "\<exists>sv. find_connections 9 [4, 0, 4] (cf_server demo_config) = (Inr [1, 0, 1], sv) \<and>
     ([1, 0, 1 :: nat] ! 0 = [1, 0, 1] ! 2 \<longleftrightarrow> [4, 0, 4 :: nat] ! 0 = [4, 0, 4] ! 2)"
proof -
  have "fst (find_connections 9 [4, 0, 4] (cf_server demo_config)) = Inr [1, 0, 1]" by code_simp
  then obtain sv where run: "find_connections 9 [4, 0, 4] (cf_server demo_config) = (Inr [1, 0, 1], sv)"
    by (metis prod.collapse)
  from one_connection_per_socket [OF reachable_demo run, of 0 2] run show ?thesis by simp
qed

section \<open>Readers in turn\<close>

definition give_reader :: "nat \<Rightarrow> nat \<Rightarrow> 's server \<Rightarrow> 's server" where
  "give_reader i c sv = sv\<lparr>sv_readers := (sv_readers sv)[i := bq_insert True c (sv_readers sv ! i)],
     sv_last_reader := int i\<rparr>"

lemma next_reader_cases: "next_reader i = 0 \<or> next_reader i = 1"
  by (auto simp: next_reader_def num_readers_def)

lemma next_reader_simps: "next_reader 0 = 1" "next_reader 1 = 0"
  by (simp_all add: next_reader_def num_readers_def)

lemma reader_add_run:
  "reader_add i c sv = (has_room (sv_readers sv ! i),
     if has_room (sv_readers sv ! i) then sv\<lparr>sv_readers := (sv_readers sv)[i := bq_insert True c (sv_readers sv ! i)]\<rparr> else sv)"
  by (simp add: reader_add_def bq_offer_def)

lemma add_to_reader_run:
  fixes sv :: "'s server"
  defines "l \<equiv> nat (next_reader (sv_last_reader sv))"
  shows "add_to_reader c sv =
    (if has_room (sv_readers sv ! l) then (True, give_reader l c sv)
     else if has_room (sv_readers sv ! (1 - l)) then (True, give_reader (1 - l) c sv)
     else (False, sv\<lparr>sv_last_reader := int l\<rparr>))"
  using next_reader_cases [of "sv_last_reader sv"] unfolding l_def
  by (elim disjE)
    (simp_all add: add_to_reader_def num_readers_def numeral_2_eq_2 reader_add_run next_reader_simps give_reader_def)

text \<open>
  C37. Readers take turns: a connection goes to the reader after the last one, or to the other
  one when the queue of that is full; only when both are full is it refused, and then nothing but
  the turn has changed. So two connections in a row, with room for both, go to different readers.
\<close>

theorem readers_take_turns:
  "(let l = nat (next_reader (sv_last_reader sv)) in
     add_to_reader c sv =
      (if has_room (sv_readers sv ! l) then (True, give_reader l c sv)
       else if has_room (sv_readers sv ! (1 - l)) then (True, give_reader (1 - l) c sv)
       else (False, sv\<lparr>sv_last_reader := int l\<rparr>))) \<and>
   (case add_to_reader c sv of (ok, sv1) \<Rightarrow> case add_to_reader c' sv1 of (ok', sv2) \<Rightarrow>
      if ok \<and> has_room (sv_readers sv1 ! nat (next_reader (sv_last_reader sv1)))
      then ok' \<and> sv_last_reader sv2 = 1 - sv_last_reader sv1 else True)"
proof -
  obtain ok sv1 where 1: "add_to_reader c sv = (ok, sv1)" by (metis prod.exhaust)
  obtain ok' sv2 where 2: "add_to_reader c' sv1 = (ok', sv2)" by (metis prod.exhaust)
  have "ok' \<and> sv_last_reader sv2 = 1 - sv_last_reader sv1"
    if "ok" "has_room (sv_readers sv1 ! nat (next_reader (sv_last_reader sv1)))"
  proof -
    have "sv_last_reader sv1 = 0 \<or> sv_last_reader sv1 = 1"
      using 1 that(1) next_reader_cases [of "sv_last_reader sv"]
      by (auto simp: add_to_reader_run give_reader_def split: if_splits)
    with 2 that(2) show ?thesis
      by (auto simp: add_to_reader_run give_reader_def next_reader_simps split: if_splits)
  qed
  then have "case add_to_reader c sv of (ok, sv1) \<Rightarrow> case add_to_reader c' sv1 of (ok', sv2) \<Rightarrow>
      if ok \<and> has_room (sv_readers sv1 ! nat (next_reader (sv_last_reader sv1)))
      then ok' \<and> sv_last_reader sv2 = 1 - sv_last_reader sv1 else True"
    unfolding 1 2 prod.case by simp
  then show ?thesis unfolding Let_def by (rule conjI [OF add_to_reader_run])
qed

section \<open>Removing idle connections\<close>

definition idle_at :: "int \<Rightarrow> 's server \<Rightarrow> nat \<Rightarrow> bool" where
  "idle_at now sv ep \<longleftrightarrow> (case sv_reg sv ep of None \<Rightarrow> False | Some c \<Rightarrow> time_out now (sv_heap sv ! c))"

lemma close_connection_runs:
  assumes "c < length (sv_heap sv)" and "0 \<le> sint (sv_count sv)"
  shows "fst (close_connection P c sv) = Inr ()"
proof -
  have "sint (sv_count sv) < 2 ^ 31" using sint_lt [of "sv_count sv"] by simp
  then have "\<exists>n. add_i32 (sv_count sv) (- 1) = Inr n" using assms(2) by (simp add: add_i32_def)
  then show ?thesis using assms(1) by (auto simp: close_connection_def sm_simps)
qed

lemma cleanup_loop_outcome:
  assumes "accepted_valid sv" and "0 \<le> sint (sv_count sv)"
    and "set keys \<subseteq> dom (sv_reg sv)" and "n \<le> length keys"
  shows "if list_ex (idle_at now sv) (take n keys)
    then fst (cleanup_loop P now keys n sv) = Inl (Undefined BadIterator)
    else cleanup_loop P now keys n sv = (Inr (), sv)"
  using assms(3,4)
proof (induction keys arbitrary: n)
  case Nil
  then show ?case by (simp add: sm_simps)
next
  case (Cons ep keys)
  from Cons.prems(1) obtain c where c: "sv_reg sv ep = Some c" by auto
  then have len: "c < length (sv_heap sv)" using assms(1) by (simp add: accepted_valid_def)
  show ?case
  proof (cases n)
    case 0
    then show ?thesis by (simp add: sm_simps)
  next
    case (Suc m)
    have idle: "idle_at now sv ep = time_out now (sv_heap sv ! c)" by (simp add: idle_at_def c)
    show ?thesis
    proof (cases "time_out now (sv_heap sv ! c)")
      case True
      obtain sv' where "close_connection P c sv = (Inr (), sv')"
        using close_connection_runs [OF len assms(2), of P] by (metis prod.collapse)
      with True c len Suc show ?thesis by (simp add: sm_simps idle)
    next
      case False
      have "if list_ex (idle_at now sv) (take m keys)
        then fst (cleanup_loop P now keys m sv) = Inl (Undefined BadIterator)
        else cleanup_loop P now keys m sv = (Inr (), sv)" using Cons Suc by simp
      with False c len Suc show ?thesis by (simp add: sm_simps idle)
    qed
  qed
qed

text \<open>
  C38. \<open>cleanup_connections\<close> would be of no use where it is not called: with a connection that
  has been idle for too long among those it looks at, it goes on with an iterator whose element
  it has erased, which is undefined, and without one it changes nothing but the time of the last
  cleanup. It never removes a connection and returns.
\<close>

theorem cleanup_never_removes:
  assumes "reachable P d cf" and "set keys = dom (sv_reg (cf_server cf))" and "distinct keys"
  shows "if sv_count (cf_server cf) = 0 \<or> now - sv_last_cleanup (cf_server cf) < conn_cleanup_interval
    then cleanup_connections P now rnd keys (cf_server cf) = (Inr (), cf_server cf)
    else if list_ex (idle_at now (cf_server cf)) (take (Suc (rnd mod length keys)) keys)
    then fst (cleanup_connections P now rnd keys (cf_server cf)) = Inl (Undefined BadIterator)
    else cleanup_connections P now rnd keys (cf_server cf) = (Inr (), (cf_server cf)\<lparr>sv_last_cleanup := now\<rparr>)"
proof (cases "sv_count (cf_server cf) = 0 \<or> now - sv_last_cleanup (cf_server cf) < conn_cleanup_interval")
  case True
  then show ?thesis by (auto simp: cleanup_connections_def sm_simps)
next
  case False
  let ?sv = "cf_server cf" and ?n = "Suc (rnd mod length keys)"
  have "inv_reads ?sv (cf_readers cf)" using reachable_inv [OF assms(1)] by (simp add: server_inv_def)
  moreover have "card (dom (sv_reg ?sv)) = length keys" using assms(2,3) by (metis distinct_card)
  ultimately have count: "sint (sv_count ?sv) = int (length keys)" by (simp add: inv_reads_def)
  moreover have "sint (sv_count ?sv) \<noteq> 0" using False by (simp add: signed_eq_0_iff)
  ultimately have pos: "0 < length keys" by simp
  then have "?n \<le> length keys" by (simp add: Suc_leI)
  moreover have "accepted_valid ?sv" using reachable_unshared [OF assms(1)] by (simp add: accepted.unshared_def)
  ultimately have loop: "if list_ex (idle_at now ?sv) (take ?n keys)
    then fst (cleanup_loop P now keys ?n ?sv) = Inl (Undefined BadIterator)
    else cleanup_loop P now keys ?n ?sv = (Inr (), ?sv)"
    using count assms(2) by (intro cleanup_loop_outcome) auto
  have "nat (int rnd mod \<bar>sint (sv_count ?sv)\<bar>) = rnd mod length keys"
    unfolding count by (simp add: nat_mod_as_int)
  then have "cleanup_connections P now rnd keys ?sv =
      bind_sm (cleanup_loop P now keys ?n) (\<lambda>_. modify (sv_last_cleanup_update (\<lambda>_. now))) ?sv"
    using False by (simp add: cleanup_connections_def sm_simps Let_def del: cleanup_loop.simps)
  moreover obtain r sv' where "cleanup_loop P now keys ?n ?sv = (r, sv')" by (metis prod.exhaust)
  ultimately show ?thesis using False loop
    by (auto simp: sm_simps simp del: cleanup_loop.simps split: if_splits)
qed

theorem cleanup_never_removes_witness:
  "fst (cleanup_connections (machine 100) 1000 5 [0] (cf_server demo_config)) = Inl (Undefined BadIterator)"
proof -
  have dom: "set [0] = dom (sv_reg (cf_server demo_config))"
  proof -
    have "sv_count (cf_server demo_config) = 1" by code_simp
    moreover have "inv_reads (cf_server demo_config) (cf_readers demo_config)"
      using reachable_inv [OF reachable_demo] by (simp add: server_inv_def)
    ultimately have "card (dom (sv_reg (cf_server demo_config))) = 1" by (simp add: inv_reads_def)
    moreover have "sv_reg (cf_server demo_config) 0 = Some 0" by code_simp
    ultimately have "dom (sv_reg (cf_server demo_config)) = {0}" by (metis card_1_singletonE domI singletonD)
    then show ?thesis by simp
  qed
  have "sv_count (cf_server demo_config) \<noteq> 0" "\<not> 1000 - sv_last_cleanup (cf_server demo_config) < conn_cleanup_interval"
    "list_ex (idle_at 1000 (cf_server demo_config)) (take (Suc (5 mod length [0 :: nat])) [0])" by code_simp+
  with cleanup_never_removes [OF reachable_demo dom, of 1000 5] show ?thesis by (simp only: if_False if_True) simp
qed

end
