(* ===== verification/Server_Answers.thy ===== *)
theory Server_Answers
  imports Server_Safety
begin

text \<open>
  What the running server does with the requests of well-behaved clients: at every moment, in every
  interleaving, each request of a client is in exactly one place. It is still to be read, or in the
  hands of a thread or in a queue, or its response has been sent, once, over the socket the request
  came from, with the value its method returns for its parameters.

  The books are kept for each socket (\<open>ledger\<close>); the calls on their way are a multiset of pairs of
  a connection and what has been read of a request (\<open>flight\<close>).
\<close>

section \<open>Requests and answers\<close>

type_synonym request = "i32 \<times> string \<times> string \<times> writable list"

definition enc_requests :: "request list \<Rightarrow> string" where
  "enc_requests qs = concat (map (\<lambda>(i, cn, m, ps). enc_request i cn m ps) qs)"

definition request_ok :: "nat \<Rightarrow> nat \<Rightarrow> request \<Rightarrow> bool" where
  "request_ok M d = (\<lambda>(i, cn, m, ps). wire_ok M (MethodWritable cn m ps) \<and> nest (MethodWritable cn m ps) \<le> Suc d)"

text \<open>What the server reads of a request, and what it has to send for it.\<close>

definition received :: "request \<Rightarrow> request" where
  "received = (\<lambda>(i, cn, m, ps). (i, c_str cn, c_str m, map wire_image ps))"

definition answer :: "request \<Rightarrow> string" where
  "answer = (\<lambda>(i, cn, m, ps). case method_call cn m ps of
       Inr (Some (IntWritable (Some r))) \<Rightarrow> enc_response i (i32_bytes r)
     | _ \<Rightarrow> [])"

definition key :: "server_call \<Rightarrow> request" where
  "key call = (sc_id call, sc_class call, sc_method call, sc_params call)"

lemma answer_key: "valued call \<Longrightarrow> answer (key call) = enc_response (sc_id call) (sc_str_val call)"
  by (auto simp: valued_def answer_def key_def)

lemma key_compute: "handler_compute call = Inr call' \<Longrightarrow> key call' = key call"
  by (auto simp: handler_compute_def call_set_value_def bind_sum_eq_Inr key_def split: option.splits)

section \<open>Calls on their way\<close>

definition queue_entries :: "nat \<Rightarrow> connection \<Rightarrow> (nat \<times> request) list" where
  "queue_entries c conn = map (\<lambda>call. (c, key call)) (bq_items (cn_queue conn))"

definition heap_entries :: "connection list \<Rightarrow> (nat \<times> request) multiset" where
  "heap_entries heap = mset (concat (map (\<lambda>c. queue_entries c (heap ! c)) [0..<length heap]))"

definition call_entry :: "server_call \<Rightarrow> nat \<times> request" where
  "call_entry call = (the (sc_conn call), key call)"

definition shared_flight :: "'s server \<Rightarrow> (nat \<times> request) multiset" where
  "shared_flight sv = image_mset call_entry (mset (bq_items (sv_calls sv))) + heap_entries (sv_heap sv)"

fun reader_entry :: "reader_pc \<Rightarrow> (nat \<times> request) multiset" where
  "reader_entry (RPush c call) = {#(c, key call)#}"
| "reader_entry _ = {#}"

fun handler_entry :: "handler_pc \<Rightarrow> (nat \<times> request) multiset" where
  "handler_entry (HCompute call) = {#call_entry call#}"
| "handler_entry (HPush call) = {#call_entry call#}"
| "handler_entry (HSend c call) = {#(c, key call)#}"
| "handler_entry _ = {#}"

fun responder_entry :: "responder_pc \<Rightarrow> (nat \<times> request) multiset" where
  "responder_entry (SSend c call) = {#(c, key call)#}"
| "responder_entry _ = {#}"

definition flight :: "'s config \<Rightarrow> (nat \<times> request) multiset" where
  "flight cf = shared_flight (cf_server cf) + sum_list (map reader_entry (cf_readers cf)) +
     sum_list (map handler_entry (cf_handlers cf)) + responder_entry (cf_responder cf)"

lemma sum_list_rest:
  fixes g :: "'a \<Rightarrow> 'b multiset"
  assumes "i < length xs"
  obtains R where "sum_list (map g xs) = R + g (xs ! i)" and "\<And>y. sum_list (map g (xs[i := y])) = R + g y"
proof
  let ?R = "sum_list (map g (take i xs)) + sum_list (map g (drop (Suc i) xs))"
  have "sum_list (map g xs) = sum_list (map g (take i xs @ xs ! i # drop (Suc i) xs))"
    using assms by (simp add: id_take_nth_drop [symmetric])
  then show "sum_list (map g xs) = ?R + g (xs ! i)" by (simp add: ac_simps)
  show "sum_list (map g (xs[i := y])) = ?R + g y" for y using assms by (simp add: upd_conv_take_nth_drop ac_simps)
qed

lemma heap_entries_update:
  assumes "c < length heap"
  shows "heap_entries (heap[c := conn]) + mset (queue_entries c (heap ! c)) = heap_entries heap + mset (queue_entries c conn)"
proof -
  have e: "mset (concat (map f xs)) = sum_list (map (\<lambda>x. mset (f x)) xs)" for f :: "nat \<Rightarrow> (nat \<times> request) list" and xs
    by (induction xs) simp_all
  have split: "[0..<length heap] = [0..<c] @ c # [Suc c..<length heap]"
    using assms upt_add_eq_append [of 0 c "length heap - c"] by (simp add: upt_conv_Cons)
  have same: "map (\<lambda>j. mset (queue_entries j (heap[c := conn] ! j))) [0..<c] = map (\<lambda>j. mset (queue_entries j (heap ! j))) [0..<c]"
    "map (\<lambda>j. mset (queue_entries j (heap[c := conn] ! j))) [Suc c..<length heap] = map (\<lambda>j. mset (queue_entries j (heap ! j))) [Suc c..<length heap]"
    by simp_all
  show ?thesis
    unfolding heap_entries_def e length_list_update unfolding split map_append sum_list.append list.map sum_list.Cons unfolding same
    using assms by (simp add: ac_simps)
qed

lemma heap_entries_same:
  "c < length heap \<Longrightarrow> bq_items (cn_queue conn) = bq_items (cn_queue (heap ! c)) \<Longrightarrow> heap_entries (heap[c := conn]) = heap_entries heap"
  using heap_entries_update [of c heap conn] by (simp add: queue_entries_def)

lemma heap_entries_append:
  assumes "bq_items (cn_queue conn) = []"
  shows "heap_entries (heap @ [conn]) = heap_entries heap"
proof -
  have "map (\<lambda>j. queue_entries j ((heap @ [conn]) ! j)) [0..<length (heap @ [conn])] =
      map (\<lambda>j. queue_entries j (heap ! j)) [0..<length heap] @ [[]]"
    using assms by (simp add: nth_append queue_entries_def)
  then show ?thesis by (simp only: heap_entries_def) simp
qed

section \<open>The books of a socket\<close>

text \<open>What is under way for socket \<open>e\<close>, where \<open>E\<close> are the endpoints of the connections.\<close>

definition under_way :: "nat list \<Rightarrow> (nat \<times> request) multiset \<Rightarrow> nat \<Rightarrow> request multiset" where
  "under_way E F e = image_mset snd (filter_mset (\<lambda>(c, k). c < length E \<and> E ! c = e) F)"

definition ledger :: "nat \<Rightarrow> nat \<Rightarrow> ('s \<Rightarrow> string) \<Rightarrow> ('s \<Rightarrow> string) \<Rightarrow> request list \<Rightarrow> request multiset \<Rightarrow> 's \<Rightarrow> bool" where
  "ledger M d rx tx qs F s \<longleftrightarrow> (\<exists>unread sent. list_all (request_ok M d) unread \<and> rx s = enc_requests unread \<and>
     tx s = concat (map answer sent) \<and> mset (map received qs) = mset (map received unread) + F + mset sent)"

definition ledgers :: "nat \<Rightarrow> nat \<Rightarrow> ('s \<Rightarrow> string) \<Rightarrow> ('s \<Rightarrow> string) \<Rightarrow> request list list \<Rightarrow> nat list \<Rightarrow> (nat \<times> request) multiset \<Rightarrow> 's list \<Rightarrow> bool" where
  "ledgers M d rx tx reqs E F ss \<longleftrightarrow> length ss = length reqs \<and>
     (\<forall>e < length reqs. ledger M d rx tx (reqs ! e) (under_way E F e) (ss ! e))"

text \<open>The three ways in which a step changes them: on the socket of one connection, bytes are read, or sent, or neither.\<close>

definition booked :: "nat \<Rightarrow> nat \<Rightarrow> ('s \<Rightarrow> string) \<Rightarrow> ('s \<Rightarrow> string) \<Rightarrow> nat list \<Rightarrow> (nat \<times> request) multiset \<Rightarrow> 's list \<Rightarrow>
    (nat \<times> request) multiset \<Rightarrow> 's list \<Rightarrow> bool" where
  "booked M d rx tx E F ss F' ss' \<longleftrightarrow> (F' = F \<and> ss' = ss) \<or>
     (\<exists>c s'. c < length E \<and> E ! c < length ss \<and> ss' = ss[E ! c := s'] \<and>
       ((rx s' = rx (ss ! (E ! c)) \<and> tx s' = tx (ss ! (E ! c)) \<and> F' = F) \<or>
        (\<exists>k. rx s' = rx (ss ! (E ! c)) \<and> tx s' = tx (ss ! (E ! c)) @ answer k \<and> F = add_mset (c, k) F') \<or>
        (tx s' = tx (ss ! (E ! c)) \<and> (\<forall>unread. list_all (request_ok M d) unread \<longrightarrow> rx (ss ! (E ! c)) = enc_requests unread \<longrightarrow>
          (case unread of [] \<Rightarrow> rx s' = [] \<and> F' = F
           | q # unread' \<Rightarrow> rx s' = enc_requests unread' \<and> F' = add_mset (c, received q) F)))))"

lemma under_way_add: "c < length E \<Longrightarrow> under_way E (add_mset (c, k) F) e = (if E ! c = e then add_mset k (under_way E F e) else under_way E F e)"
  by (simp add: under_way_def)

lemma ledgers_at:
  assumes "ledgers M d rx tx reqs E F ss" and "e < length ss"
  obtains unread sent where "list_all (request_ok M d) unread" "rx (ss ! e) = enc_requests unread" "tx (ss ! e) = concat (map answer sent)"
    "mset (map received (reqs ! e)) = mset (map received unread) + under_way E F e + mset sent"
  using assms by (auto simp: ledgers_def ledger_def)

text \<open>The ledgers after a change that concerns one socket.\<close>

lemma ledgers_update:
  assumes led: "ledgers M d rx tx reqs E F ss" and e: "e < length ss" and new: "ledger M d rx tx (reqs ! e) (under_way E F' e) s'"
    and others: "\<And>e'. e' \<noteq> e \<Longrightarrow> under_way E F' e' = under_way E F e'"
  shows "ledgers M d rx tx reqs E F' (ss[e := s'])"
  using led e new others by (auto simp: ledgers_def nth_list_update)

lemma ledgers_answered:
  assumes led: "ledgers M d rx tx reqs E F ss" and c: "c < length E" "E ! c < length ss"
    and s': "rx s' = rx (ss ! (E ! c))" "tx s' = tx (ss ! (E ! c)) @ answer k" and F: "F = add_mset (c, k) F'"
  shows "ledgers M d rx tx reqs E F' (ss[E ! c := s'])"
proof (rule ledgers_update [OF led c(2)])
  obtain u dn where "list_all (request_ok M d) u" "rx (ss ! (E ! c)) = enc_requests u" "tx (ss ! (E ! c)) = concat (map answer dn)"
    "mset (map received (reqs ! (E ! c))) = mset (map received u) + under_way E F (E ! c) + mset dn"
    by (rule ledgers_at [OF led c(2)])
  then show "ledger M d rx tx (reqs ! (E ! c)) (under_way E F' (E ! c)) s'" unfolding ledger_def
    by (intro exI [of _ u] exI [of _ "dn @ [k]"]) (use c s' in \<open>simp add: F under_way_add\<close>)
  show "under_way E F' e' = under_way E F e'" if "e' \<noteq> E ! c" for e'
    using not_sym [OF that] by (simp add: F under_way_add [OF c(1)])
qed

lemma ledgers_read:
  assumes led: "ledgers M d rx tx reqs E F ss" and c: "c < length E" "E ! c < length ss" and tx: "tx s' = tx (ss ! (E ! c))"
    and read: "\<forall>unread. list_all (request_ok M d) unread \<longrightarrow> rx (ss ! (E ! c)) = enc_requests unread \<longrightarrow>
          (case unread of [] \<Rightarrow> rx s' = [] \<and> F' = F
           | q # unread' \<Rightarrow> rx s' = enc_requests unread' \<and> F' = add_mset (c, received q) F)"
  shows "ledgers M d rx tx reqs E F' (ss[E ! c := s'])"
proof -
  obtain u dn where u: "list_all (request_ok M d) u" "rx (ss ! (E ! c)) = enc_requests u" "tx (ss ! (E ! c)) = concat (map answer dn)"
    "mset (map received (reqs ! (E ! c))) = mset (map received u) + under_way E F (E ! c) + mset dn"
    by (rule ledgers_at [OF led c(2)])
  note now = read [rule_format, OF u(1,2)]
  show ?thesis
  proof (cases u)
    case Nil
    have "ledger M d rx tx (reqs ! (E ! c)) (under_way E F' (E ! c)) s'" unfolding ledger_def
      by (intro exI [of _ "[]"] exI [of _ dn]) (use now tx u Nil in \<open>simp add: enc_requests_def\<close>)
    with now Nil show ?thesis by (intro ledgers_update [OF led c(2)]) simp_all
  next
    case (Cons q u')
    have "ledger M d rx tx (reqs ! (E ! c)) (under_way E F' (E ! c)) s'" unfolding ledger_def
      by (intro exI [of _ u'] exI [of _ dn]) (use now tx u Cons c in \<open>simp add: under_way_add\<close>)
    with now Cons show ?thesis by (intro ledgers_update [OF led c(2)]) (simp_all add: under_way_add [OF c(1)] not_sym)
  qed
qed

lemma booked_ledgers:
  assumes book: "booked M d rx tx E F ss F' ss'" and led: "ledgers M d rx tx reqs E F ss"
  shows "ledgers M d rx tx reqs E F' ss'"
proof -
  consider "F' = F" "ss' = ss"
    | c s' where "c < length E" "E ! c < length ss" "ss' = ss[E ! c := s']"
        "rx s' = rx (ss ! (E ! c))" "tx s' = tx (ss ! (E ! c))" "F' = F"
    | c s' k where "c < length E" "E ! c < length ss" "ss' = ss[E ! c := s']"
        "rx s' = rx (ss ! (E ! c))" "tx s' = tx (ss ! (E ! c)) @ answer k" "F = add_mset (c, k) F'"
    | c s' where "c < length E" "E ! c < length ss" "ss' = ss[E ! c := s']" "tx s' = tx (ss ! (E ! c))"
        "\<forall>unread. list_all (request_ok M d) unread \<longrightarrow> rx (ss ! (E ! c)) = enc_requests unread \<longrightarrow>
          (case unread of [] \<Rightarrow> rx s' = [] \<and> F' = F
           | q # unread' \<Rightarrow> rx s' = enc_requests unread' \<and> F' = add_mset (c, received q) F)"
    using book unfolding booked_def by blast
  then show ?thesis
  proof cases
    case 1
    with led show ?thesis by simp
  next
    case (2 c s')
    with led show ?thesis by (auto simp: ledgers_def ledger_def nth_list_update)
  next
    case (3 c s' k)
    show ?thesis unfolding 3(3) by (rule ledgers_answered [OF led 3(1,2,4-6)])
  next
    case (4 c s')
    show ?thesis unfolding 4(3) by (rule ledgers_read [OF led 4(1,2,4,5)])
  qed
qed

section \<open>Reading\<close>

lemma call_read_empty:
  assumes P: "duplex P rx tx" and s: "rx s = []"
  shows "\<exists>call' s'. call_read P d (call_new (Some c), Some s) = (Inr False, (call', Some s')) \<and> rx s' = [] \<and> tx s' = tx s"
proof -
  have "\<exists>call'. call_read (stream_platform P) d (call_new (Some c), Some (rx s, tx s)) = (Inr False, (call', Some ([], tx s)))"
    using s by (simp add: call_read_def call_new_def sm_simps)
  then obtain call' where "call_read (stream_platform P) d (call_new (Some c), Some (rx s, tx s)) = (Inr False, (call', Some ([], tx s)))" ..
  from sim_run [OF sim_call_read [OF P] this] show ?thesis by blast
qed

lemma call_read_next:
  assumes P: "duplex P rx tx" and ok: "list_all (request_ok (max_alloc P) d) unread" and s: "rx s = enc_requests unread"
  shows "\<exists>r call' s'. call_read P d (call_new (Some c), Some s) = (Inr r, (call', Some s')) \<and> tx s' = tx s \<and>
    (case unread of [] \<Rightarrow> \<not> r \<and> rx s' = [] | q # unread' \<Rightarrow> r \<and> rx s' = enc_requests unread' \<and> key call' = received q)"
proof (cases unread)
  case Nil
  with s call_read_empty [OF P, of s d c] show ?thesis by (auto simp: enc_requests_def)
next
  case (Cons q unread')
  obtain i cn m ps where q: "q = (i, cn, m, ps)" by (metis prod.exhaust)
  have "rx s = enc_request i cn m ps @ enc_requests unread'" using s Cons q by (simp add: enc_requests_def)
  from call_read_receives [OF P this, of d c] ok Cons q show ?thesis
    by (fastforce simp: request_ok_def key_def received_def)
qed

text \<open>A connection whose queue stays as it is.\<close>

lemma shared_flight_same:
  "sv_calls sv' = sv_calls sv \<Longrightarrow> sv_heap sv' = (sv_heap sv)[c := conn] \<Longrightarrow> c < length (sv_heap sv) \<Longrightarrow>
   cn_queue conn = cn_queue (sv_heap sv ! c) \<Longrightarrow> shared_flight sv' = shared_flight sv"
  by (simp add: shared_flight_def heap_entries_same)

lemma reader_read_booked:
  assumes P: "duplex P rx tx" and run: "reader_read P d now c sv = (Inr r, sv')"
  shows "\<exists>s'. ep_of sv c < length (sv_socks sv) \<and> sv_socks sv' = (sv_socks sv)[ep_of sv c := s'] \<and> tx s' = tx (sock_of sv c) \<and>
    shared_flight sv' = shared_flight sv \<and>
    (\<forall>unread. list_all (request_ok (max_alloc P) d) unread \<longrightarrow> rx (sock_of sv c) = enc_requests unread \<longrightarrow>
      (case unread of [] \<Rightarrow> r = None \<and> rx s' = []
       | q # unread' \<Rightarrow> rx s' = enc_requests unread' \<and> (\<exists>call. r = Some call \<and> key call = received q)))"
proof -
  obtain ok call sv1 where on: "on_conn c (call_new (Some c)) (read_io P d) sv = (Inr (ok, call), sv1)"
    and rest: "(if ok then bind_sm (deref c) (\<lambda>conn.
         bind_sm (modify (put_conn c (set_last_contact now conn))) (\<lambda>_. ret (Some call)))
       else ret None) sv1 = (Inr r, sv')"
    using run by (auto simp: reader_read_def bind_sm_run [of "on_conn _ _ _"] split: prod.splits sum.splits)
  let ?ep = "cn_ep (sv_heap sv ! c)"
  obtain conn' p' where c: "c < length (sv_heap sv)" "?ep < length (sv_socks sv)"
    and io: "read_io P d ((call_new (Some c), sv_heap sv ! c), Some (sv_socks sv ! ?ep)) = (Inr ok, ((call, conn'), p'))"
    and sv1: "sv1 = sv\<lparr>sv_heap := (sv_heap sv)[c := conn'],
               sv_socks := (case p' of None \<Rightarrow> sv_socks sv | Some s' \<Rightarrow> (sv_socks sv)[?ep := s'])\<rparr>"
    using on by (auto simp: on_conn_def Let_def split: if_splits prod.splits sum.splits)
  from read_io_silent [OF P io] obtain s' where s': "p' = Some s'" "tx s' = tx (sv_socks sv ! ?ep)" by blast
  have conn': "conn' = sv_heap sv ! c" using read_io_effect [OF io] by simp
  have read: "call_read P d (call_new (Some c), Some (sv_socks sv ! ?ep)) = (Inr ok, (call, Some s'))"
    using io s'(1) by (auto simp: read_io_def zoom_run split: prod.splits)
  have r: "r = (if ok then Some call else None)" and socks: "sv_socks sv' = (sv_socks sv)[?ep := s']"
    and "shared_flight sv' = shared_flight sv"
    using rest c(1) s'(1) shared_flight_same [of sv' sv c "set_last_contact now (sv_heap sv ! c)"]
    by (auto simp: sm_simps sv1 conn' put_conn_def set_last_contact_def shared_flight_def split: if_splits)
  moreover have "case unread of [] \<Rightarrow> r = None \<and> rx s' = []
       | q # unread' \<Rightarrow> rx s' = enc_requests unread' \<and> (\<exists>call. r = Some call \<and> key call = received q)"
    if u: "list_all (request_ok (max_alloc P) d) unread" "rx (sock_of sv c) = enc_requests unread" for unread
    using call_read_next [OF P u, of c] read r by (auto simp: sock_of_def split: list.splits)
  ultimately show ?thesis using c s'(2) by (auto simp: ep_of_def sock_of_def intro!: exI [of _ s'])
qed

section \<open>Sending\<close>

lemma respond_send_whole:
  assumes P: "duplex P rx tx" "sends_some P rx tx" "sends_all P" and call: "call_good True call"
    and c: "c < length (sv_heap sv)" "ep_of sv c < length (sv_socks sv)"
  shows "\<exists>s'. respond_send P c call sv = (Inr 0, sv\<lparr>sv_socks := (sv_socks sv)[ep_of sv c := s']\<rparr>) \<and>
     tx s' = tx (sock_of sv c) @ answer (key call) \<and> rx s' = rx (sock_of sv c)"
proof -
  have snd: "sendable call" and val: "valued call" and pos: "sc_pos call = 0" using call by (simp_all add: call_good_def)
  from process_response_attempt [OF P(1,2) snd, of "sv_heap sv ! c" "sock_of sv c"] P(3) obtain s' r call' conn' where
    aft: "after_attempt (length (unsent call)) call (sv_heap sv ! c) = (r, call', conn')"
    and run: "process_response P ((call, sv_heap sv ! c), Some (sock_of sv c)) = (Inr r, ((call', conn'), Some s'))"
    and tx: "tx s' = tx (sock_of sv c) @ sent_header call @ take (length (unsent call)) (unsent call)" "rx s' = rx (sock_of sv c)"
    by blast
  have r: "r = 0" and conn': "conn' = sv_heap sv ! c" using aft by (simp_all add: after_attempt_def)
  have "respond_send P c call sv =
      (Inr 0, sv\<lparr>sv_heap := (sv_heap sv)[c := sv_heap sv ! c], sv_socks := (sv_socks sv)[ep_of sv c := s']\<rparr>)"
    using c run unfolding r conn' by (simp add: respond_send_def sm_simps on_conn_def Let_def sock_of_def ep_of_def)
  then have "respond_send P c call sv = (Inr 0, sv\<lparr>sv_socks := (sv_socks sv)[ep_of sv c := s']\<rparr>)" by simp
  moreover have "sent_header call @ unsent call = answer (key call)"
    using pos by (simp add: answer_key [OF val] sent_header_def unsent_def enc_response_def)
  ultimately show ?thesis using tx by auto
qed

lemma booked_sent:
  "c < length E \<Longrightarrow> E ! c < length ss \<Longrightarrow> ss' = ss[E ! c := s'] \<Longrightarrow> rx s' = rx (ss ! (E ! c)) \<Longrightarrow>
   tx s' = tx (ss ! (E ! c)) @ answer k \<Longrightarrow> F = add_mset (c, k) F' \<Longrightarrow> booked M d rx tx E F ss F' ss'"
  unfolding booked_def by (rule disjI2) blast

lemma booked_read:
  "c < length E \<Longrightarrow> E ! c < length ss \<Longrightarrow> ss' = ss[E ! c := s'] \<Longrightarrow> tx s' = tx (ss ! (E ! c)) \<Longrightarrow>
   (\<And>unread. list_all (request_ok M d) unread \<Longrightarrow> rx (ss ! (E ! c)) = enc_requests unread \<Longrightarrow>
      (case unread of [] \<Rightarrow> rx s' = [] \<and> F' = F
       | q # unread' \<Rightarrow> rx s' = enc_requests unread' \<and> F' = add_mset (c, received q) F)) \<Longrightarrow> booked M d rx tx E F ss F' ss'"
  unfolding booked_def by (rule disjI2) blast

lemma booked_same: "booked M d rx tx E F ss F ss"
  by (simp add: booked_def)

lemma booked_send:
  assumes "c < length (sv_heap sv)" and "ep_of sv c < length (sv_socks sv)"
    and "tx s' = tx (sock_of sv c) @ answer k" and "rx s' = rx (sock_of sv c)"
  shows "booked M d rx tx (eps sv) (add_mset (c, k) F) (sv_socks sv) F ((sv_socks sv)[ep_of sv c := s'])"
proof -
  have "eps sv ! c = ep_of sv c" "sock_of sv c = sv_socks sv ! ep_of sv c" using assms(1) by (simp_all add: eps_nth sock_of_def ep_of_def)
  with assms show ?thesis by (intro booked_sent [of c]) simp_all
qed

lemma good_ep: "good_reg (eps sv) (length (sv_socks sv)) R \<Longrightarrow> c < length (sv_heap sv) \<Longrightarrow> ep_of sv c < length (sv_socks sv)"
  by (simp add: good_reg_def) (metis eps_nth length_eps nth_mem)

lemma respond_push_flight:
  assumes "respond_push call c sv = (Inr True, sv')"
  shows "shared_flight sv' = add_mset (c, key call) (shared_flight sv) \<and> sv_socks sv' = sv_socks sv"
proof -
  from assms have c: "c < length (sv_heap sv)"
    and sv': "sv' = put_conn c ((sv_heap sv ! c)\<lparr>cn_queue := bq_insert True call (cn_queue (sv_heap sv ! c))\<rparr>) sv"
    by (auto simp: respond_push_def sm_simps bq_offer_def split: if_splits prod.splits)
  show ?thesis
    using heap_entries_update [OF c, of "(sv_heap sv ! c)\<lparr>cn_queue := bq_insert True call (cn_queue (sv_heap sv ! c))\<rparr>"]
    by (simp add: sv' shared_flight_def put_heap queue_entries_def bq_insert_def)
qed

lemma respond_pop_flight:
  assumes "respond_pop c sv = (Inr r, sv')"
  shows "shared_flight sv = shared_flight sv' + (case r of None \<Rightarrow> {#} | Some call \<Rightarrow> {#(c, key call)#}) \<and> sv_socks sv' = sv_socks sv"
proof -
  obtain q where c: "c < length (sv_heap sv)" and p: "bq_poll (cn_queue (sv_heap sv ! c)) = (r, q)"
    and sv': "sv' = put_conn c ((sv_heap sv ! c)\<lparr>cn_queue := q\<rparr>) sv"
    using assms by (auto simp: respond_pop_def sm_simps split: if_splits prod.splits)
  have "bq_items (cn_queue (sv_heap sv ! c)) = (case r of None \<Rightarrow> [] | Some call \<Rightarrow> [call]) @ bq_items q"
    using p by (auto simp: bq_poll_def bq_remove_def has_item_def bq_size_def split: if_splits list.splits)
  then show ?thesis
    using heap_entries_update [OF c, of "(sv_heap sv ! c)\<lparr>cn_queue := q\<rparr>"]
    by (cases r) (simp_all add: sv' shared_flight_def put_heap queue_entries_def)
qed

lemma respond_enqueue_flight:
  "respond_enqueue back c sv = (Inr u, sv') \<Longrightarrow> shared_flight sv' = shared_flight sv \<and> sv_socks sv' = sv_socks sv"
  by (auto simp: respond_enqueue_def sm_simps shared_flight_def split: if_splits prod.splits)

lemma handler_take_flight:
  assumes "handler_take sv = (Inr (Some call), sv')"
  shows "shared_flight sv = add_mset (call_entry call) (shared_flight sv') \<and> sv_socks sv' = sv_socks sv"
proof -
  have "sv_heap sv' = sv_heap sv \<and> sv_socks sv' = sv_socks sv" using assms by (auto simp: handler_take_def sm_simps split: prod.splits)
  then show ?thesis using handler_take_effect [OF assms] by (simp add: shared_flight_def)
qed

section \<open>Every thread keeps the books\<close>

lemma handler_step_booked:
  assumes P: "duplex P rx tx" "sends_some P rx tx" "sends_all P"
    and st: "handler_step P stop pc sv = Some (Inr (pc', sv'))" and good: "handler_good True pc"
    and ok: "handler_ok (length (sv_heap sv)) pc" and reg: "good_reg (eps sv) (length (sv_socks sv)) (sv_reg sv)"
  shows "booked M d rx tx (eps sv) (X + shared_flight sv + handler_entry pc) (sv_socks sv)
    (X + shared_flight sv' + handler_entry pc') (sv_socks sv')"
proof (cases pc)
  case HPop
  with st obtain call where r: "handler_take sv = (Inr (Some call), sv')" and "pc' = HCompute call" by (auto simp: moment_Inr)
  with handler_take_flight [OF r] HPop show ?thesis by (simp add: booked_same)
next
  case (HCompute call)
  with st obtain call' where r: "handler_compute call = Inr call'" and "pc' = HPush call'" "sv' = sv" by (auto simp: moment_Inr sm_simps)
  with HCompute handler_compute_conn [OF r] key_compute [OF r] show ?thesis by (simp add: booked_same call_entry_def)
next
  case (HPush call)
  with st obtain c where c: "sc_conn call = Some c" and r: "respond_push call c sv = (Inr True, sv')" and "pc' = HSize c"
    by (auto simp: moment_Inr sm_simps split: option.splits prod.splits sum.splits if_splits)
  with respond_push_flight [OF r] HPush show ?thesis by (simp add: booked_same call_entry_def)
next
  case (HSize c)
  then show ?thesis using st by (auto simp: moment_Inr booked_same dest!: respond_alone_effect)
next
  case (HTry c)
  with st obtain r where r: "respond_pop c sv = (Inr r, sv')"
    and pc': "pc' = (case r of None \<Rightarrow> if stop then HStopped else HPop | Some call \<Rightarrow> HSend c call)" by (auto simp: moment_Inr)
  with respond_pop_flight [OF r] HTry show ?thesis by (cases r) (simp_all add: booked_same)
next
  case (HSend c call)
  have c: "c < length (sv_heap sv)" using ok HSend by simp
  from respond_send_whole [OF P _ c good_ep [OF reg c]] good HSend obtain s' where
    r: "respond_send P c call sv = (Inr 0, sv\<lparr>sv_socks := (sv_socks sv)[ep_of sv c := s']\<rparr>)"
    and s': "tx s' = tx (sock_of sv c) @ answer (key call)" "rx s' = rx (sock_of sv c)" by auto
  with st HSend have "pc' = (if stop then HStopped else HPop)" "sv' = sv\<lparr>sv_socks := (sv_socks sv)[ep_of sv c := s']\<rparr>"
    by (auto simp: moment_Inr)
  with booked_send [OF c good_ep [OF reg c] s'] HSend show ?thesis by (simp add: shared_flight_def)
next
  case (HRequeue c)
  with st obtain u where r: "respond_enqueue False c sv = (Inr u, sv')" and "pc' = (if stop then HStopped else HPop)"
    by (auto simp: moment_Inr)
  with respond_enqueue_flight [OF r] HRequeue show ?thesis by (simp add: booked_same)
next
  case (HEnqueue c)
  with st obtain u where r: "respond_enqueue True c sv = (Inr u, sv')" and "pc' = (if stop then HStopped else HPop)"
    by (auto simp: moment_Inr)
  with respond_enqueue_flight [OF r] HEnqueue show ?thesis by (simp add: booked_same)
next
  case HStopped
  then show ?thesis using st by simp
qed

lemma responder_step_booked:
  assumes P: "duplex P rx tx" "sends_some P rx tx" "sends_all P"
    and st: "responder_step P stop pc sv = Some (Inr (pc', sv'))" and good: "responder_good True pc"
    and ok: "responder_ok (eps sv) pc" and reg: "good_reg (eps sv) (length (sv_socks sv)) (sv_reg sv)"
  shows "booked M d rx tx (eps sv) (X + shared_flight sv + responder_entry pc) (sv_socks sv)
    (X + shared_flight sv' + responder_entry pc') (sv_socks sv')"
proof (cases pc)
  case SPop
  with st obtain e where r: "respond_take sv = (Inr (Some e), sv')" and "pc' = SFind e" by (auto simp: moment_Inr)
  moreover have "sv_heap sv' = sv_heap sv \<and> sv_socks sv' = sv_socks sv \<and> sv_calls sv' = sv_calls sv"
    using r by (auto simp: respond_take_def sm_simps split: prod.splits)
  ultimately show ?thesis using SPop by (simp add: booked_same shared_flight_def)
next
  case (SFind e)
  then show ?thesis using st by (auto simp: moment_Inr booked_same dest!: respond_find_effect)
next
  case (STry c)
  with st obtain call where r: "respond_pop c sv = (Inr (Some call), sv')" and "pc' = SSend c call"
    by (auto simp: moment_Inr sm_simps split: option.splits prod.splits sum.splits)
  with respond_pop_flight [OF r] STry show ?thesis by (simp add: booked_same)
next
  case (SSend c call)
  have c: "c < length (sv_heap sv)" using ok SSend by simp
  from respond_send_whole [OF P _ c good_ep [OF reg c]] good SSend obtain s' where
    r: "respond_send P c call sv = (Inr 0, sv\<lparr>sv_socks := (sv_socks sv)[ep_of sv c := s']\<rparr>)"
    and s': "tx s' = tx (sock_of sv c) @ answer (key call)" "rx s' = rx (sock_of sv c)" by auto
  with st SSend have "pc' = (if stop then SStopped else SPop)" "sv' = sv\<lparr>sv_socks := (sv_socks sv)[ep_of sv c := s']\<rparr>"
    by (auto simp: moment_Inr sm_simps)
  with booked_send [OF c good_ep [OF reg c] s'] SSend show ?thesis by (simp add: shared_flight_def)
next
  case (SRequeue c)
  with st obtain u where r: "respond_enqueue False c sv = (Inr u, sv')" and "pc' = (if stop then SStopped else SPop)"
    by (auto simp: moment_Inr)
  with respond_enqueue_flight [OF r] SRequeue show ?thesis by (simp add: booked_same)
next
  case SStopped
  then show ?thesis using st by simp
qed

text \<open>A reader that has read a call from a connection holds a call of that connection.\<close>

fun reader_own :: "reader_pc \<Rightarrow> bool" where
  "reader_own (RPush c call) = (sc_conn call = Some c)"
| "reader_own _ = True"

text \<open>Closing a socket, which happens when nothing is left to read, changes nothing of what was sent or read.\<close>

definition close_quiet :: "'s platform \<Rightarrow> ('s \<Rightarrow> string) \<Rightarrow> ('s \<Rightarrow> string) \<Rightarrow> bool" where
  "close_quiet P rx tx \<longleftrightarrow> (\<forall>s. rx (asio_close P s) = rx s \<and> tx (asio_close P s) = tx s)"

lemma close_quiet_machine: "close_quiet (machine M) rx tx"
  by (simp add: close_quiet_def machine_def)

lemma read_booked:
  assumes P: "duplex P rx tx" and r: "reader_read P d now c sv = (Inr r, sv')"
  shows "booked (max_alloc P) d rx tx (eps sv) (X + shared_flight sv) (sv_socks sv)
    (X + shared_flight sv' + reader_entry (case r of None \<Rightarrow> RClose c | Some call \<Rightarrow> RPush c call)) (sv_socks sv')"
    (is "booked _ _ _ _ _ _ _ ?F' _")
proof -
  have c: "c < length (sv_heap sv)" using reader_read_effect [OF r] by simp
  then have ep: "eps sv ! c = ep_of sv c" "sock_of sv c = sv_socks sv ! ep_of sv c" by (simp_all add: eps_nth sock_of_def ep_of_def)
  obtain s' where s': "ep_of sv c < length (sv_socks sv)" "sv_socks sv' = (sv_socks sv)[ep_of sv c := s']" "tx s' = tx (sock_of sv c)"
    "shared_flight sv' = shared_flight sv"
    "\<forall>unread. list_all (request_ok (max_alloc P) d) unread \<longrightarrow> rx (sock_of sv c) = enc_requests unread \<longrightarrow>
      (case unread of [] \<Rightarrow> r = None \<and> rx s' = []
       | q # unread' \<Rightarrow> rx s' = enc_requests unread' \<and> (\<exists>call. r = Some call \<and> key call = received q))"
    using reader_read_booked [OF P r] by blast
  have "case unread of [] \<Rightarrow> rx s' = [] \<and> ?F' = X + shared_flight sv
       | q # unread' \<Rightarrow> rx s' = enc_requests unread' \<and> ?F' = add_mset (c, received q) (X + shared_flight sv)"
    if "list_all (request_ok (max_alloc P) d) unread" "rx (sock_of sv c) = enc_requests unread" for unread
    using s'(5) [rule_format, OF that] s'(4) by (cases unread) auto
  then show ?thesis
    using booked_read [of c "eps sv" "sv_socks sv" "sv_socks sv'" s' tx "max_alloc P" d rx] c s'(1-3) ep by simp
qed

lemma close_booked:
  assumes P: "close_quiet P rx tx" and r: "close_connection P c sv = (Inr u, sv')"
    and reg: "good_reg (eps sv) (length (sv_socks sv)) (sv_reg sv)"
  shows "shared_flight sv' = shared_flight sv \<and> booked M d rx tx (eps sv) F (sv_socks sv) F (sv_socks sv')"
proof
  from r have c: "c < length (sv_heap sv)" and sv': "shared_flight sv' = shared_flight sv"
    "sv_socks sv' = (sv_socks sv)[ep_of sv c := asio_close P (sv_socks sv ! ep_of sv c)]"
    by (auto simp: close_connection_def sm_simps shared_flight_def ep_of_def split: if_splits sum.splits)
  show "shared_flight sv' = shared_flight sv" by (rule sv'(1))
  show "booked M d rx tx (eps sv) F (sv_socks sv) F (sv_socks sv')"
    unfolding booked_def using P c good_ep [OF reg c] sv'(2)
    by (intro disjI2 exI [of _ c] exI [of _ "asio_close P (sv_socks sv ! ep_of sv c)"]) (simp add: eps_nth close_quiet_def)
qed

lemma reader_step_booked:
  assumes P: "duplex P rx tx" "close_quiet P rx tx"
    and st: "reader_step P d now i stop pc sv = Some (Inr (pc', sv'))" and own: "reader_own pc"
    and reg: "good_reg (eps sv) (length (sv_socks sv)) (sv_reg sv)"
  shows "reader_own pc' \<and> booked (max_alloc P) d rx tx (eps sv) (X + shared_flight sv + reader_entry pc) (sv_socks sv)
    (X + shared_flight sv' + reader_entry pc') (sv_socks sv')"
proof (cases pc)
  case RPop
  with st obtain c where r: "reader_take i sv = (Inr (Some c), sv')" and "pc' = RRead c" by (auto simp: moment_Inr)
  moreover from reader_take_effect [OF r] have "sv_heap sv' = sv_heap sv \<and> sv_socks sv' = sv_socks sv \<and> sv_calls sv' = sv_calls sv"
    by auto
  ultimately show ?thesis using RPop by (simp add: booked_same shared_flight_def)
next
  case (RRead c)
  with st obtain r where r: "reader_read P d now c sv = (Inr r, sv')"
    and pc': "pc' = (case r of None \<Rightarrow> RClose c | Some call \<Rightarrow> RPush c call)" by (auto simp: moment_Inr)
  have "booked (max_alloc P) d rx tx (eps sv) (X + shared_flight sv) (sv_socks sv) (X + shared_flight sv' + reader_entry pc') (sv_socks sv')"
    unfolding pc' by (rule read_booked [OF P(1) r])
  moreover have "reader_own pc'" using reader_read_effect [OF r] pc' by (auto split: option.splits)
  ultimately show ?thesis using RRead by simp
next
  case (RPush c call)
  with st obtain u where r: "reader_push call sv = (Inr u, sv')" and pc': "pc' = RArm c" by (auto simp: moment_Inr)
  moreover have "sv_heap sv' = sv_heap sv \<and> sv_socks sv' = sv_socks sv"
    using r by (auto simp: reader_push_def sm_simps split: prod.splits if_splits)
  ultimately show ?thesis using reader_push_effect [OF r] RPush own by (simp add: booked_same shared_flight_def call_entry_def)
next
  case (RArm c)
  with st obtain u where r: "reader_arm c sv = (Inr u, sv')" and "pc' = (if stop then RStopped else RPop)"
    by (auto simp: moment_Inr)
  with reader_arm_effect [OF r] RArm show ?thesis by (simp add: booked_same shared_flight_def)
next
  case (RClose c)
  with st obtain u where r: "close_connection P c sv = (Inr u, sv')" and pc': "pc' = (if stop then RStopped else RPop)"
    by (auto simp: moment_Inr)
  with close_booked [OF P(2) r reg] RClose show ?thesis by simp
next
  case RStopped
  then show ?thesis using st by simp
qed

section \<open>The running server\<close>

text \<open>
  The server with its clients: \<open>reqs\<close> are, by socket, the requests its client sends. A client has
  its requests under way when it is accepted.
\<close>

inductive serves :: "'s platform \<Rightarrow> nat \<Rightarrow> ('s \<Rightarrow> string) \<Rightarrow> ('s \<Rightarrow> string) \<Rightarrow> request list list \<Rightarrow> 's config \<Rightarrow> bool"
  for P d rx tx where
  start: "serves P d rx tx [] config_init"
| client: "serves P d rx tx reqs cf \<Longrightarrow> step P d (Accepted s err) cf = Some (Inr cf') \<Longrightarrow>
    list_all (request_ok (max_alloc P) d) qs \<Longrightarrow> rx s = enc_requests qs \<Longrightarrow> tx s = [] \<Longrightarrow>
    serves P d rx tx (reqs @ [qs]) cf'"
| move: "serves P d rx tx reqs cf \<Longrightarrow> step P d a cf = Some (Inr cf') \<Longrightarrow> \<forall>s err. a \<noteq> Accepted s err \<Longrightarrow>
    serves P d rx tx reqs cf'"

lemma serves_reachable: "serves P d rx tx reqs cf \<Longrightarrow> reachable P d cf"
  by (induction rule: serves.induct) (auto intro: reachable.intros)

definition inv_books :: "nat \<Rightarrow> nat \<Rightarrow> ('s \<Rightarrow> string) \<Rightarrow> ('s \<Rightarrow> string) \<Rightarrow> request list list \<Rightarrow> 's config \<Rightarrow> bool" where
  "inv_books M d rx tx reqs cf \<longleftrightarrow> list_all reader_own (cf_readers cf) \<and>
     ledgers M d rx tx reqs (eps (cf_server cf)) (flight cf) (sv_socks (cf_server cf))"

lemma booked_ledgers_step:
  "ledgers M d rx tx reqs E G ss \<Longrightarrow> booked M d rx tx E F ss F' ss' \<Longrightarrow> G = F \<Longrightarrow> G' = F' \<Longrightarrow> ledgers M d rx tx reqs E G' ss'"
  by (simp add: booked_ledgers)

text \<open>Calls on their way belong to connections that exist.\<close>

lemma flight_ptr:
  assumes "server_inv cf" and "list_all reader_own (cf_readers cf)" and "(c, k) \<in># flight cf"
  shows "c < length (sv_heap (cf_server cf))"
proof -
  let ?n = "length (sv_heap (cf_server cf))"
  have calls: "list_all (call_ok ?n) (bq_items (sv_calls (cf_server cf)))" and rs: "list_all (reader_ok ?n) (cf_readers cf)"
    and hs: "list_all (handler_ok ?n) (cf_handlers cf)" and s: "responder_ok (eps (cf_server cf)) (cf_responder cf)"
    using assms(1) by (simp_all add: server_inv_def inv_ptr_def)
  have r: "c < ?n" if "(c, k) \<in># reader_entry pc" "reader_ok ?n pc" "reader_own pc" for pc
    using that by (cases pc) (auto simp: call_ok_def)
  have h: "c < ?n" if "(c, k) \<in># handler_entry pc" "handler_ok ?n pc" for pc
    using that by (cases pc) (auto simp: call_ok_def call_entry_def)
  have q: "c < ?n" if "(c, k) \<in># shared_flight (cf_server cf)"
    using that calls by (auto simp: shared_flight_def heap_entries_def queue_entries_def call_entry_def call_ok_def list_all_iff)
  have "c < ?n" if "(c, k) \<in># responder_entry (cf_responder cf)"
    using that s by (cases "cf_responder cf") auto
  then show ?thesis using assms(2,3) rs hs r h q by (auto simp: flight_def list_all_iff)
qed

lemma ledgers_extend:
  assumes "ledgers M d rx tx reqs E F ss" and "\<And>c k. (c, k) \<in># F \<Longrightarrow> c < length E"
  shows "ledgers M d rx tx reqs (E @ [e]) F ss"
proof -
  have "filter_mset (\<lambda>(c, k). c < length (E @ [e]) \<and> (E @ [e]) ! c = e') F = filter_mset (\<lambda>(c, k). c < length E \<and> E ! c = e') F" for e'
    using assms(2) by (intro filter_mset_cong) (auto simp: nth_append dest: less_SucI)
  then have "under_way (E @ [e]) F = under_way E F" by (simp add: under_way_def fun_eq_iff)
  with assms(1) show ?thesis by (simp add: ledgers_def)
qed

lemma ledgers_client:
  assumes led: "ledgers M d rx tx reqs E F ss" and reg: "good_reg E (length ss) R"
    and "list_all (request_ok M d) qs" "rx s = enc_requests qs" "tx s = []"
  shows "ledgers M d rx tx (reqs @ [qs]) E F (ss @ [s])"
proof -
  have len: "length ss = length reqs" using led by (simp add: ledgers_def)
  have "filter_mset (\<lambda>(c, k). c < length E \<and> E ! c = length reqs) F = filter_mset (\<lambda>_. False) F"
    using reg len by (intro filter_mset_cong) (auto simp: good_reg_def all_set_conv_all_nth)
  then have "under_way E F (length reqs) = {#}" by (simp add: under_way_def)
  then have "ledger M d rx tx qs (under_way E F (length reqs)) s"
    unfolding ledger_def by (intro exI [of _ qs] exI [of _ "[]"]) (use assms in simp)
  with led len show ?thesis by (auto simp: ledgers_def nth_append less_Suc_eq)
qed

lemma handler_step_eps: "handler_step P stop pc sv = Some (Inr (pc', sv')) \<Longrightarrow> eps sv' = eps sv"
  by (cases pc) (auto simp: moment_Inr sm_simps intro: view_eps dest!: handler_take_effect respond_push_effect respond_alone_effect
      respond_pop_effect respond_send_effect respond_enqueue_effect split: option.splits prod.splits sum.splits if_splits)

lemma responder_step_eps: "responder_step P stop pc sv = Some (Inr (pc', sv')) \<Longrightarrow> eps sv' = eps sv"
  by (cases pc) (auto simp: moment_Inr sm_simps intro: view_eps dest!: respond_take_effect respond_find_effect
      respond_pop_effect respond_send_effect respond_enqueue_effect split: option.splits prod.splits sum.splits if_splits)

lemma books_accept:
  assumes inv: "server_inv cf" and books: "inv_books M d rx tx reqs cf" and st: "step P d (Accepted s err) cf = Some (Inr cf')"
    and qs: "list_all (request_ok M d) qs" "rx s = enc_requests qs" "tx s = []"
  shows "inv_books M d rx tx (reqs @ [qs]) cf'"
proof -
  have reg: "good_reg (eps (cf_server cf)) (length (sv_socks (cf_server cf))) (sv_reg (cf_server cf))"
    using inv by (simp add: server_inv_def inv_reads_def)
  have cf': "cf' = cf\<lparr>cf_server := handle_accept s err (cf_server cf)\<rparr>" using st by (auto simp: step_def split: if_splits)
  have "sv_heap (cf_server cf') = sv_heap (cf_server cf)" "sv_calls (cf_server cf') = sv_calls (cf_server cf)"
    "sv_socks (cf_server cf') = sv_socks (cf_server cf) @ [s]"
    by (simp_all add: cf' handle_accept_def do_accept_def Let_def)
  then have "eps (cf_server cf') = eps (cf_server cf)" "flight cf' = flight cf" "sv_socks (cf_server cf') = sv_socks (cf_server cf) @ [s]"
    by (simp_all add: eps_def flight_def shared_flight_def cf')
  with books ledgers_client [where rx = rx and tx = tx and s = s, OF _ reg qs] show ?thesis by (simp add: inv_books_def cf')
qed

lemma books_readable:
  assumes inv: "server_inv cf" and books: "inv_books M d rx tx reqs cf"
    and ep: "ep \<in> set (sv_armed (cf_server cf))" and h: "handle_read now ep err (cf_server cf) = (Inr u, sv')"
  shows "inv_books M d rx tx reqs (cf\<lparr>cf_server := sv'\<rparr>)"
proof -
  let ?sv = "cf_server cf" and ?cf' = "cf\<lparr>cf_server := sv'\<rparr>"
  have i: "inv_reads ?sv (cf_readers cf)" using inv by (simp add: server_inv_def)
  have own: "list_all reader_own (cf_readers cf)"
    and led: "ledgers M d rx tx reqs (eps ?sv) (flight cf) (sv_socks ?sv)" using books by (simp_all add: inv_books_def)
  have socks: "sv_socks sv' = sv_socks ?sv" using handle_read_effect [OF h] by (auto dest!: find_or_create_socks)
  have calls: "sv_calls sv' = sv_calls ?sv" using handle_read_inv [OF h ep i] by simp
  from handle_read_inv [OF h ep i]
  consider "sv_heap sv' = sv_heap ?sv" | j where "sv_heap sv' = sv_heap ?sv @ [connection_new ep j now]" by blast
  then show ?thesis
  proof cases
    case 1
    with calls socks led own show ?thesis by (simp add: inv_books_def eps_def flight_def shared_flight_def)
  next
    case 2
    have "heap_entries (sv_heap sv') = heap_entries (sv_heap ?sv)"
      unfolding 2 by (rule heap_entries_append) (simp add: connection_new_def set_last_contact_def bq_new_def)
    then have f: "flight ?cf' = flight cf" using calls by (simp add: flight_def shared_flight_def)
    have e: "eps sv' = eps ?sv @ [ep]" unfolding eps_def 2 by (simp add: connection_new_def set_last_contact_def)
    from ledgers_extend [OF led, of ep] flight_ptr [OF inv own] f e socks own show ?thesis by (simp add: inv_books_def)
  qed
qed

lemma books_step:
  assumes P: "duplex P rx tx" "sends_some P rx tx" "sends_all P" "close_quiet P rx tx"
    and inv: "server_inv cf" and good: "inv_send True cf" and books: "inv_books (max_alloc P) d rx tx reqs cf"
    and st: "step P d a cf = Some (Inr cf')" and a: "\<forall>s err. a \<noteq> Accepted s err"
  shows "inv_books (max_alloc P) d rx tx reqs cf'"
proof -
  let ?sv = "cf_server cf"
  have i: "inv_reads ?sv (cf_readers cf)" "inv_ptr ?sv (cf_readers cf) (cf_handlers cf) (cf_responder cf)"
    "length (cf_readers cf) = num_readers" using inv by (simp_all add: server_inv_def)
  have reg: "good_reg (eps ?sv) (length (sv_socks ?sv)) (sv_reg ?sv)" using i(1) by (simp add: inv_reads_def)
  have own: "list_all reader_own (cf_readers cf)"
    and led: "ledgers (max_alloc P) d rx tx reqs (eps ?sv) (flight cf) (sv_socks ?sv)" using books by (simp_all add: inv_books_def)
  note led_step = booked_ledgers_step [OF led]
  from st show ?thesis
  proof (cases rule: step_cases)
    case (accepted s err)
    with a show ?thesis by blast
  next
    case (readable ep err now u sv)
    show ?thesis unfolding readable(4) by (rule books_readable [OF inv books readable(2,3)])
  next
    case (reader k now pc sv)
    obtain R where R: "sum_list (map reader_entry (cf_readers cf)) = R + reader_entry (cf_readers cf ! k)"
      "\<And>y. sum_list (map reader_entry ((cf_readers cf)[k := y])) = R + reader_entry y"
      by (rule sum_list_rest [OF reader(2), of reader_entry]) blast
    have "reader_own (cf_readers cf ! k)" using own reader(2) by (simp add: list_all_length)
    note b = reader_step_booked [OF P(1,4) reader(3) this reg,
        of "R + sum_list (map handler_entry (cf_handlers cf)) + responder_entry (cf_responder cf)"]
    have "eps sv = eps ?sv" using reader_step_reads [OF reader(3,2) i(3,1)] by simp
    with b led_step [OF conjunct2 [OF b], of "flight cf'"] own show ?thesis
      by (simp add: inv_books_def reader(4) list_all_update flight_def R ac_simps)
  next
    case (handler k pc sv)
    obtain R where R: "sum_list (map handler_entry (cf_handlers cf)) = R + handler_entry (cf_handlers cf ! k)"
      "\<And>y. sum_list (map handler_entry ((cf_handlers cf)[k := y])) = R + handler_entry y"
      by (rule sum_list_rest [OF handler(2), of handler_entry]) blast
    have pc: "handler_good True (cf_handlers cf ! k)" "handler_ok (length (sv_heap ?sv)) (cf_handlers cf ! k)"
      using good i(2) handler(2) by (simp_all add: inv_send_def list_all_length inv_ptr_def)
    note b = handler_step_booked [OF P(1-3) handler(3) pc reg, of "max_alloc P" d
        "R + sum_list (map reader_entry (cf_readers cf)) + responder_entry (cf_responder cf)"]
    from led_step [OF b, of "flight cf'"] own handler_step_eps [OF handler(3)] show ?thesis by (simp add: inv_books_def handler(4) flight_def R ac_simps)
  next
    case (responder pc sv)
    have pc: "responder_good True (cf_responder cf)" "responder_ok (eps ?sv) (cf_responder cf)"
      using good i(2) by (simp_all add: inv_send_def inv_ptr_def)
    note b = responder_step_booked [OF P(1-3) responder(2) pc reg, of "max_alloc P" d
        "sum_list (map reader_entry (cf_readers cf)) + sum_list (map handler_entry (cf_handlers cf))"]
    from led_step [OF b, of "flight cf'"] own responder_step_eps [OF responder(2)] show ?thesis by (simp add: inv_books_def responder(3) flight_def ac_simps)
  next
    case (shutdown b)
    with led own show ?thesis by (simp add: inv_books_def eps_def flight_def shared_flight_def)
  qed
qed

lemma serves_books:
  assumes P: "duplex P rx tx" "sends_some P rx tx" "sends_all P" "close_quiet P rx tx"
    and "serves P d rx tx reqs cf"
  shows "inv_books (max_alloc P) d rx tx reqs cf"
  using assms(5)
proof induction
  case start
  show ?case
    by (simp add: inv_books_def config_init_def do_accept_def server_new_def ledgers_def num_readers_def numeral_2_eq_2)
next
  case (client reqs cf s err cf' qs)
  from books_accept [OF reachable_inv [OF serves_reachable [OF client.hyps(1)]] client.IH client.hyps(2-5)] show ?case .
next
  case (move reqs cf a cf')
  have r: "reachable P d cf" using serves_reachable [OF move.hyps(1)] .
  have "inv_send True cf" using reachable_send [OF P(1,2) _ _ r] P(3,4) by (simp add: close_quiet_def close_silent_def)
  from books_step [OF P reachable_inv [OF r] this move.IH move.hyps(2,3)] show ?case .
qed


fun is_accept :: "'s action \<Rightarrow> bool" where
  "is_accept (Accepted s err) = True"
| "is_accept _ = False"

lemma serves_run:
  "serves P d rx tx reqs cf \<Longrightarrow> run P d as cf = Some (Inr cf') \<Longrightarrow> list_all (\<lambda>a. \<not> is_accept a) as \<Longrightarrow> serves P d rx tx reqs cf'"
proof (induction as arbitrary: cf)
  case (Cons a as)
  then obtain cf1 where st: "step P d a cf = Some (Inr cf1)" and rn: "run P d as cf1 = Some (Inr cf')"
    by (auto split: option.splits sum.splits)
  have "serves P d rx tx reqs cf1"
    by (rule serves.move [OF Cons.prems(1) st]) (use Cons.prems(3) in auto)
  from Cons.IH [OF this rn] Cons.prems(3) show ?case by simp
qed simp

text \<open>One client with its requests, accepted first, and a schedule of the threads.\<close>

definition accept_client :: "request list \<Rightarrow> wire config" where
  "accept_client qs = (case step (machine 100) 3 (Accepted (enc_requests qs, []) False) config_init of
     Some (Inr cf) \<Rightarrow> cf | _ \<Rightarrow> config_init)"

definition serve_client :: "request list \<Rightarrow> wire action list \<Rightarrow> wire config" where
  "serve_client qs as = (case run (machine 100) 3 as (accept_client qs) of Some (Inr cf) \<Rightarrow> cf | _ \<Rightarrow> accept_client qs)"

lemma serves_client:
  assumes "list_all (request_ok 100 3) qs" and "list_all (\<lambda>a. \<not> is_accept a) as"
    and run: "case run (machine 100) 3 as (accept_client qs) of Some (Inr cf) \<Rightarrow> Q cf | _ \<Rightarrow> False"
  shows "serves (machine 100) 3 fst snd [qs] (serve_client qs as) \<and> Q (serve_client qs as)"
proof -
  have st: "step (machine 100) 3 (Accepted (enc_requests qs, []) False) config_init = Some (Inr (accept_client qs))"
    by (simp add: accept_client_def step_def config_init_def do_accept_def server_new_def)
  have "serves (machine 100) 3 fst snd ([] @ [qs]) (accept_client qs)"
    by (rule serves.client [OF serves.start st]) (use assms(1) in simp_all)
  then have acc: "serves (machine 100) 3 fst snd [qs] (accept_client qs)" by simp
  from run obtain cf where cf: "run (machine 100) 3 as (accept_client qs) = Some (Inr cf)" "Q cf"
    by (auto split: option.splits sum.splits)
  then show ?thesis using serves_run [OF acc cf(1) assms(2)] by (simp add: serve_client_def)
qed

text \<open>
  A client with two requests: the first is answered, the second is being computed.
\<close>

definition two_requests :: "request list" where
  "two_requests = [(1, ''FSNameSystem'', ''create'', [IntWritable (Some 5)]), (2, ''FSNameSystem'', ''create'', [IntWritable (Some 7)])]"

definition two_actions :: "wire action list" where
  "two_actions = [Readable 0 False 1, ReaderMove 0 1, ReaderMove 0 2, ReaderMove 0 3, ReaderMove 0 4] @ replicate 6 (HandlerMove 1) @
     [Readable 0 False 5, ReaderMove 1 6, ReaderMove 1 7, ReaderMove 1 8, HandlerMove 0]"

definition two_config :: "wire config" where
  "two_config = serve_client two_requests two_actions"

lemma serves_two: "serves (machine 100) 3 fst snd [two_requests] two_config \<and> snd (sv_socks (cf_server two_config) ! 0) = answer (hd two_requests)"
  unfolding two_config_def by (rule serves_client) code_simp+


end
