(* ===== verification/Client.thy ===== *)
theory Client
  imports Wire_Safety Registry Block_Queue
begin

text \<open>
  The client (\<open>include/Client.h\<close>, \<open>src/Client.cpp\<close>): calls, connections with their table of
  calls by id, sending a call, and the receiver thread that matches responses with calls.

  Calls and connections are objects shared by pointers, so the client keeps a heap of each and
  pointers are positions in it. The pointer \<open>_sock\<close> of a connection is not set by the
  constructors: \<open>cc_wild\<close> says that it does not point to a socket although it is not null,
  which is the case in a new connection unless its memory happened to be zero (the argument
  \<open>zeroed\<close> of the definitions), and again after \<open>close\<close> has deleted the socket.
\<close>

section \<open>State\<close>

record client_call =
  cl_class :: string \<comment> \<open>\<open>_valueClass\<close>\<close>
  cl_id :: i32
  cl_conn :: "nat option"
  cl_param :: writable
  cl_value :: "writable option"
  cl_done :: bool

record 's client_conn =
  cc_ep :: endpoint
  cc_sock :: "'s option"
  cc_wild :: bool
  cc_recv_started :: bool
  cc_should_close :: bool
  cc_calls :: "(i32 \<times> nat) list" \<comment> \<open>\<open>_calls\<close>\<close>
  cc_last :: i32 \<comment> \<open>\<open>last_call_index\<close>\<close>
  cc_index :: i32

record 's client =
  ct_calls :: "client_call list" \<comment> \<open>the objects of class \<open>Call\<close>\<close>
  ct_conns :: "'s client_conn list" \<comment> \<open>the objects of class \<open>Connection\<close>\<close>
  ct_reg :: "string \<Rightarrow> nat option" \<comment> \<open>\<open>_connections\<close>\<close>
  ct_index :: i32 \<comment> \<open>\<open>_last_connection_index\<close>, atomic\<close>

definition client_new :: "'s client" where
  "client_new = \<lparr>ct_calls = [], ct_conns = [], ct_reg = (\<lambda>_. None), ct_index = 0\<rparr>"

definition client_call_new :: "writable \<Rightarrow> string \<Rightarrow> client_call" where
  "client_call_new p vc = \<lparr>cl_class = vc, cl_id = 0, cl_conn = None, cl_param = p, cl_value = None, cl_done = False\<rparr>"

definition client_conn_new :: "bool \<Rightarrow> endpoint \<Rightarrow> i32 \<Rightarrow> 's client_conn" where
  "client_conn_new zeroed ep i = \<lparr>cc_ep = ep, cc_sock = None, cc_wild = (\<not> zeroed), cc_recv_started = False,
     cc_should_close = False, cc_calls = [], cc_last = 0, cc_index = i\<rparr>"

definition max_wait_rep :: nat where
  "max_wait_rep = 5"

section \<open>Pointers\<close>

definition call_at :: "nat \<Rightarrow> ('s client, client_call) sm" where
  "call_at k = (\<lambda>ct. if k < length (ct_calls ct) then (Inr (ct_calls ct ! k), ct) else (Inl (Undefined NullDeref), ct))"

definition set_call :: "nat \<Rightarrow> (client_call \<Rightarrow> client_call) \<Rightarrow> ('s client, unit) sm" where
  "set_call k f = modify (\<lambda>ct. ct\<lparr>ct_calls := (ct_calls ct)[k := f (ct_calls ct ! k)]\<rparr>)"

definition cconn_at :: "nat \<Rightarrow> ('s client, 's client_conn) sm" where
  "cconn_at c = (\<lambda>ct. if c < length (ct_conns ct) then (Inr (ct_conns ct ! c), ct) else (Inl (Undefined NullDeref), ct))"

definition set_cconn :: "nat \<Rightarrow> ('s client_conn \<Rightarrow> 's client_conn) \<Rightarrow> ('s client, unit) sm" where
  "set_cconn c f = modify (\<lambda>ct. ct\<lparr>ct_conns := (ct_conns ct)[c := f (ct_conns ct ! c)]\<rparr>)"

text \<open>Using the socket of a connection.\<close>

definition on_sock :: "nat \<Rightarrow> 'x \<Rightarrow> ('x, 's, 'a) io \<Rightarrow> ('s client, 'a \<times> 'x) sm" where
  "on_sock c x m = bind_sm (cconn_at c) (\<lambda>conn.
     if cc_wild conn then fail (Undefined UninitRead)
     else (\<lambda>ct. case m (x, cc_sock conn) of (r, (x', p')) \<Rightarrow>
       (case r of Inl e \<Rightarrow> Inl e | Inr a \<Rightarrow> Inr (a, x'),
        ct\<lparr>ct_conns := (ct_conns ct)[c := conn\<lparr>cc_sock := p'\<rparr>]\<rparr>)))"

section \<open>Finding and opening a connection\<close>

definition conn_key :: "'s platform \<Rightarrow> endpoint \<Rightarrow> string" where
  "conn_key P ep = address_to_string P (ep_address ep) @ '':'' @ dec_nat (unat (ep_port ep))"

definition find_cconn :: "bool \<Rightarrow> string \<times> endpoint \<Rightarrow> ('s client, nat) sm" where
  "find_cconn zeroed = (\<lambda>(key, ep) ct. case ct_reg ct key of
       Some c \<Rightarrow> (Inr c, ct)
     | None \<Rightarrow> (Inr (length (ct_conns ct)), ct\<lparr>
         ct_conns := ct_conns ct @ [client_conn_new zeroed ep (ct_index ct)],
         ct_reg := (ct_reg ct)(key := Some (length (ct_conns ct))),
         ct_index := ct_index ct + 1\<rparr>))"

text \<open>
  \<open>Client::Connection::connect\<close>. A socket that fails to connect stays in \<open>_sock\<close>.
\<close>

definition connect :: "'s platform \<Rightarrow> nat \<Rightarrow> endpoint \<Rightarrow> ('s client, bool) sm" where
  "connect P c ep = bind_sm (cconn_at c) (\<lambda>conn.
     if cc_should_close conn then ret True
     else if cc_wild conn then fail (Undefined UninitRead)
     else if cc_sock conn \<noteq> None then ret True
     else case asio_connect P (asio_socket P) ep of (ok, s) \<Rightarrow>
       bind_sm (set_cconn c (\<lambda>conn. conn\<lparr>cc_sock := Some s\<rparr>)) (\<lambda>_.
       if \<not> ok then ret False
       else bind_sm (set_cconn c (\<lambda>conn. conn\<lparr>cc_recv_started := True\<rparr>)) (\<lambda>_. ret True)))"

text \<open>\<open>addCall\<close>: the next id, and \<open>map::insert\<close>, which keeps an entry that is there.\<close>

definition insert_call :: "i32 \<Rightarrow> nat \<Rightarrow> (i32 \<times> nat) list \<Rightarrow> (i32 \<times> nat) list" where
  "insert_call i k calls = (if map_of calls i = None then (i, k) # calls else calls)"

definition add_call :: "nat \<Rightarrow> nat \<Rightarrow> ('s client, bool) sm" where
  "add_call c k = bind_sm (cconn_at c) (\<lambda>conn.
     bind_sm (lift_sum (add_i32 (cc_last conn) 1)) (\<lambda>next.
     bind_sm (set_call k (\<lambda>call. call\<lparr>cl_id := cc_last conn\<rparr>)) (\<lambda>_.
     bind_sm (set_cconn c (\<lambda>conn'. conn'\<lparr>cc_last := next, cc_calls := insert_call (cc_last conn) k (cc_calls conn')\<rparr>)) (\<lambda>_.
     ret True))))"

text \<open>\<open>getConnection\<close>: what \<open>connect\<close> returns is not looked at.\<close>

definition get_connection :: "'s platform \<Rightarrow> bool \<Rightarrow> endpoint \<Rightarrow> nat \<Rightarrow> ('s client, nat option) sm" where
  "get_connection P zeroed ep k =
     bind_sm (find_cconn zeroed (conn_key P ep, ep)) (\<lambda>c.
     bind_sm (connect P c ep) (\<lambda>_.
     bind_sm (add_call c k) (\<lambda>ok.
     if \<not> ok then ret None
     else bind_sm (set_call k (\<lambda>call. call\<lparr>cl_conn := Some c\<rparr>)) (\<lambda>_. ret (Some c)))))"

section \<open>Sending a call\<close>

text \<open>
  \<open>Client::Call::write\<close>. The log line of a parameter that could not be written asks for its
  \<open>toString\<close>, which throws for a \<open>MethodWritable\<close>.
\<close>

definition call_write_to :: "'s platform \<Rightarrow> client_call \<Rightarrow> (unit, 's, bool) io" where
  "call_write_to P call =
     bind_sm (sock_write P (i32_bytes (cl_id call))) (\<lambda>l.
     if l = 0 then ret False
     else bind_sm (write_fields P (cl_param call)) (\<lambda>r.
       if r < 0 then bind_sm (lift_sum (to_string (cl_param call))) (\<lambda>_. ret False)
       else ret True))"

definition send_call :: "'s platform \<Rightarrow> nat \<Rightarrow> ('s client, bool) sm" where
  "send_call P k = bind_sm (call_at k) (\<lambda>call. case cl_conn call of
       None \<Rightarrow> fail (Undefined NullDeref)
     | Some c \<Rightarrow> bind_sm (on_sock c () (call_write_to P call)) (\<lambda>(ok, _). ret ok))"

text \<open>
  \<open>Client::call\<close> up to the loop in which it waits: a pointer to the call, or \<open>None\<close> where the
  method returns \<open>NULL\<close>. Whether the call was sent is only logged. \<open>client_result\<close> is what the
  loop then waits for (\<open>_should_stop\<close> is never set), and \<open>call_wait\<close> the loop itself.
\<close>

definition client_begin :: "'s platform \<Rightarrow> bool \<Rightarrow> writable \<Rightarrow> string \<Rightarrow> endpoint \<Rightarrow> ('s client, nat option) sm" where
  "client_begin P zeroed p vc ep =
     bind_sm (\<lambda>ct. (Inr (length (ct_calls ct)), ct\<lparr>ct_calls := ct_calls ct @ [client_call_new p vc]\<rparr>)) (\<lambda>k.
     bind_sm (get_connection P zeroed ep k) (\<lambda>r. case r of
       None \<Rightarrow> ret None
     | Some c \<Rightarrow> bind_sm (send_call P k) (\<lambda>_. ret (Some k))))"

definition client_result :: "nat \<Rightarrow> 's client \<Rightarrow> writable option option" where
  "client_result k ct = (if cl_done (ct_calls ct ! k) then Some (cl_value (ct_calls ct ! k)) else None)"

text \<open>
  \<open>Client::Call::wait\<close> and the loop around it. As for a queue, each wait is given what the other
  threads do to the client meanwhile; \<open>None\<close> means that the call has not returned within the
  given waits.
\<close>

definition call_done :: "nat \<Rightarrow> 's client \<Rightarrow> bool" where
  "call_done k ct \<longleftrightarrow> cl_done (ct_calls ct ! k)"

fun call_wait :: "('s client \<Rightarrow> 's client) list list \<Rightarrow> nat \<Rightarrow> 's client \<Rightarrow> writable option option \<times> 's client" where
  "call_wait [] k ct = (client_result k ct, ct)"
| "call_wait (env # rs) k ct =
     (if call_done k ct then (client_result k ct, ct)
      else case wait_for (call_done k) env ct of
          (True, ct') \<Rightarrow> (client_result k ct', ct')
        | (False, ct') \<Rightarrow> call_wait rs k ct')"

text \<open>\<open>Client::call\<close>\<close>

definition call_and_wait :: "'s platform \<Rightarrow> bool \<Rightarrow> ('s client \<Rightarrow> 's client) list list \<Rightarrow> writable \<Rightarrow> string \<Rightarrow> endpoint \<Rightarrow>
    ('s client, writable option option) sm" where
  "call_and_wait P zeroed rs p vc ep = bind_sm (client_begin P zeroed p vc ep) (\<lambda>r. case r of
       None \<Rightarrow> ret (Some None)
     | Some k \<Rightarrow> (\<lambda>ct. case call_wait rs k ct of (res, ct') \<Rightarrow> (Inr res, ct')))"

text \<open>The texts of a call and a connection, for the log.\<close>

definition client_call_to_string :: "client_call \<Rightarrow> fault + string" where
  "client_call_to_string call = bind_sum (print_to_string (cl_param call)) (\<lambda>str.
     Inr (''call id : '' @ dec_int (sint (cl_id call)) @ '', value class: '' @ cl_class call @ '', param : '' @ str))"

definition cconn_to_string :: "'s platform \<Rightarrow> 's client_conn \<Rightarrow> string" where
  "cconn_to_string P conn = address_to_string P (ep_address (cc_ep conn)) @ '':'' @ dec_nat (unat (ep_port (cc_ep conn)))"

section \<open>Receiving responses\<close>

definition recv_id :: "'s platform \<Rightarrow> nat \<Rightarrow> ('s client, i32 option) sm" where
  "recv_id P c = try_catch
     (bind_sm (on_sock c () (sock_read P 4)) (\<lambda>(bs, _). ret (Some (i32_of_bytes bs))))
     (\<lambda>_. ret None)"

definition recv_value :: "'s platform \<Rightarrow> nat \<Rightarrow> nat \<Rightarrow> nat \<Rightarrow> ('s client, writable) sm" where
  "recv_value P d c k = bind_sm (call_at k) (\<lambda>call.
     bind_sm (on_sock c (get_new_instance (cl_class call)) (read_fields P d)) (\<lambda>(_, w). ret w))"

text \<open>\<open>Call::setValue\<close> logs the value before it sets \<open>_done\<close>.\<close>

definition client_set_value :: "nat \<Rightarrow> writable \<Rightarrow> ('s client, unit) sm" where
  "client_set_value k w =
     bind_sm (set_call k (\<lambda>call. call\<lparr>cl_value := Some w\<rparr>)) (\<lambda>_.
     bind_sm (lift_sum (print_to_string w)) (\<lambda>_.
     set_call k (\<lambda>call. call\<lparr>cl_done := True\<rparr>)))"

text \<open>
  \<open>recvRespond\<close>: an unknown id aborts the client, and the handler of exceptions uses the pointer
  to the call, which is null while the id is being read.
\<close>

definition recv_respond :: "'s platform \<Rightarrow> nat \<Rightarrow> nat \<Rightarrow> ('s client, unit) sm" where
  "recv_respond P d c = bind_sm (recv_id P c) (\<lambda>r. case r of
       None \<Rightarrow> fail (Undefined NullDeref)
     | Some i \<Rightarrow> bind_sm (cconn_at c) (\<lambda>conn. case map_of (cc_calls conn) i of
         None \<Rightarrow> fail Aborted
       | Some k \<Rightarrow> try_catch (bind_sm (recv_value P d c k) (client_set_value k)) (\<lambda>_. ret ())))"

section \<open>Waiting for work and closing\<close>

definition mark_closed :: "'s client_conn \<Rightarrow> 's client_conn" where
  "mark_closed conn = conn\<lparr>cc_should_close := True\<rparr>"

definition has_calls :: "'s client_conn \<Rightarrow> bool" where
  "has_calls conn \<longleftrightarrow> 0 < length (cc_calls conn)"

text \<open>
  \<open>waitForWork\<close>: \<open>n\<close> waits are left; each wait is given what other threads do to the connection
  meanwhile, and \<open>None\<close> means that the method has not returned within the given waits.
\<close>

fun wait_rounds :: "nat \<Rightarrow> ('s client_conn \<Rightarrow> 's client_conn) list list \<Rightarrow> 's client_conn \<Rightarrow>
    bool option \<times> 's client_conn" where
  "wait_rounds 0 rs conn = (Some False, mark_closed conn)"
| "wait_rounds (Suc n) [] conn = (None, conn)"
| "wait_rounds (Suc n) (env # rs) conn = (case wait_for has_calls env conn of
       (True, conn') \<Rightarrow> (Some True, conn')
     | (False, conn') \<Rightarrow> wait_rounds n rs conn')"

definition wait_for_work :: "('s client_conn \<Rightarrow> 's client_conn) list list \<Rightarrow> 's client_conn \<Rightarrow>
    bool option \<times> 's client_conn" where
  "wait_for_work = wait_rounds max_wait_rep"

text \<open>\<open>cleanupCalls\<close>: the iterator is advanced after its element has been erased.\<close>

definition cleanup_calls :: "nat \<Rightarrow> ('s client, unit) sm" where
  "cleanup_calls c = bind_sm (cconn_at c) (\<lambda>conn.
     if cc_calls conn = [] then ret ()
     else bind_sm (set_cconn c (\<lambda>conn. conn\<lparr>cc_calls := tl (cc_calls conn)\<rparr>)) (\<lambda>_. fail (Undefined BadIterator)))"

text \<open>\<open>removeConnection\<close>: the result is the number of entries erased, which decides what is logged.\<close>

definition remove_connection :: "'s platform \<Rightarrow> endpoint \<Rightarrow> ('s client, nat) sm" where
  "remove_connection P ep = (\<lambda>ct.
     (Inr (if ct_reg ct (conn_key P ep) = None then 0 else 1), ct\<lparr>ct_reg := (ct_reg ct)(conn_key P ep := None)\<rparr>))"

text \<open>\<open>close\<close>: the socket is closed and deleted, then the connection and its calls are forgotten.\<close>

definition client_close_sock :: "'s platform \<Rightarrow> nat \<Rightarrow> ('s client, unit) sm" where
  "client_close_sock P c = bind_sm (cconn_at c) (\<lambda>conn.
     if cc_wild conn then fail (Undefined UninitRead)
     else if cc_sock conn = None then fail (Undefined NullDeref)
     else set_cconn c (\<lambda>conn. conn\<lparr>cc_sock := map_option (asio_close P) (cc_sock conn), cc_wild := True\<rparr>))"

definition client_close :: "'s platform \<Rightarrow> nat \<Rightarrow> ('s client, unit) sm" where
  "client_close P c = bind_sm (cconn_at c) (\<lambda>conn.
     if \<not> cc_should_close conn then ret ()
     else
       bind_sm (client_close_sock P c) (\<lambda>_.
       bind_sm (remove_connection P (cc_ep conn)) (\<lambda>_.
       cleanup_calls c)))"

text \<open>One round of \<open>recvStart\<close>, which goes on while it returns \<open>True\<close>.\<close>

definition recv_round :: "'s platform \<Rightarrow> nat \<Rightarrow> nat \<Rightarrow> ('s client_conn \<Rightarrow> 's client_conn) list list \<Rightarrow>
    ('s client, bool option) sm" where
  "recv_round P d c rs = bind_sm (cconn_at c) (\<lambda>conn. case wait_for_work rs conn of (r, conn') \<Rightarrow>
     bind_sm (set_cconn c (\<lambda>_. conn')) (\<lambda>_. case r of
       None \<Rightarrow> ret None
     | Some True \<Rightarrow> bind_sm (recv_respond P d c) (\<lambda>_. ret (Some True))
     | Some False \<Rightarrow> bind_sm (client_close P c) (\<lambda>_. ret (Some False))))"

end
