(* ===== verification/Client_Calls.thy ===== *)
theory Client_Calls
  imports Client Server_Connection
begin

text \<open>
  What the client promises: ids that are fresh, responses that reach the call they answer in
  whatever order they come, one connection for each endpoint, and closing after five idle waits;
  and where it fails: on a server that closes the connection and on an endpoint that could not
  be connected to.
\<close>

section \<open>Connections by endpoint\<close>

definition conns_valid :: "'s client \<Rightarrow> bool" where
  "conns_valid ct \<longleftrightarrow> (\<forall>key c. ct_reg ct key = Some c \<longrightarrow> c < length (ct_conns ct))"

interpretation conns: registry conns_valid ct_reg "\<lambda>key. find_cconn zeroed (key, epf key)"
  by unfold_locales
    (auto simp: find_cconn_def conns_valid_def less_SucI split: option.splits if_splits)

text \<open>The text of an address determines it and has no colon, as for IPv4.\<close>

definition address_texts :: "'s platform \<Rightarrow> bool" where
  "address_texts P \<longleftrightarrow> inj (address_to_string P) \<and> (\<forall>a. CHR '':'' \<notin> set (address_to_string P a))"

lemma append_colon_inject:
  assumes "xs @ c # ys = xs' @ c # ys'" and "c \<notin> set xs" and "c \<notin> set xs'"
  shows "xs = xs' \<and> ys = ys'"
  using assms
proof (induction xs arbitrary: xs')
  case Nil
  then show ?case by (cases xs') auto
next
  case (Cons x xs)
  then show ?case by (cases xs') auto
qed

lemma char_of_digit_inject:
  assumes "x < 10" and "y < 10" and "(char_of (48 + x) :: char) = char_of (48 + y)"
  shows "x = (y :: nat)"
proof -
  have "(of_char (char_of (48 + x) :: char) :: nat) = of_char (char_of (48 + y) :: char)" using assms(3) by simp
  then have "(48 + x) mod 256 = (48 + y) mod 256" by (simp only: of_char_of)
  with assms(1,2) show ?thesis by simp
qed

lemma dec_nat_small: "n < 10 \<Longrightarrow> dec_nat n = [char_of (48 + n)]"
  by (subst dec_nat.simps) simp

lemma dec_nat_large: "\<not> n < 10 \<Longrightarrow> dec_nat n = dec_nat (n div 10) @ [char_of (48 + n mod 10)]"
  by (subst dec_nat.simps) simp

lemma dec_nat_not_Nil: "dec_nat n \<noteq> []"
  by (cases "n < 10") (simp_all add: dec_nat_small dec_nat_large)

lemma dec_nat_inject: "dec_nat n = dec_nat m \<Longrightarrow> n = m"
proof (induction n arbitrary: m rule: less_induct)
  case (less n)
  show ?case
  proof (cases "n < 10")
    case True
    have "m < 10"
    proof (rule ccontr)
      assume "\<not> m < 10"
      with less.prems True dec_nat_not_Nil [of "m div 10"] show False
        by (auto simp: dec_nat_small dec_nat_large Cons_eq_append_conv)
    qed
    with True less.prems char_of_digit_inject [of n m] show ?thesis by (simp add: dec_nat_small)
  next
    case False
    have "\<not> m < 10"
    proof
      assume "m < 10"
      with less.prems False show False by (simp add: dec_nat_small dec_nat_large append_eq_Cons_conv dec_nat_not_Nil)
    qed
    with False less.prems have "dec_nat (n div 10) = dec_nat (m div 10)"
      and "(char_of (48 + n mod 10) :: char) = char_of (48 + m mod 10)" by (simp_all add: dec_nat_large)
    with False less.IH [of "n div 10" "m div 10"] char_of_digit_inject [of "n mod 10" "m mod 10"]
    have "n div 10 = m div 10" "n mod 10 = m mod 10" by simp_all
    then show ?thesis by (metis div_mult_mod_eq)
  qed
qed

lemma conn_key_inject:
  assumes "address_texts P"
  shows "conn_key P ep = conn_key P ep' \<longleftrightarrow> ep = ep'"
proof
  assume "conn_key P ep = conn_key P ep'"
  then have "address_to_string P (ep_address ep) @ CHR '':'' # dec_nat (unat (ep_port ep)) =
      address_to_string P (ep_address ep') @ CHR '':'' # dec_nat (unat (ep_port ep'))"
    by (simp add: conn_key_def)
  then have "address_to_string P (ep_address ep) = address_to_string P (ep_address ep') \<and>
      dec_nat (unat (ep_port ep)) = dec_nat (unat (ep_port ep'))"
    by (rule append_colon_inject) (use assms in \<open>simp_all add: address_texts_def\<close>)
  then have "ep_address ep = ep_address ep'" "unat (ep_port ep) = unat (ep_port ep')"
    using assms dec_nat_inject by (auto simp: address_texts_def dest: injD)
  then show "ep = ep'" by (simp add: unsigned_word_eqI)
qed simp

text \<open>The connections that calls to a sequence of endpoints use.\<close>

primrec find_cconns :: "'s platform \<Rightarrow> bool \<Rightarrow> endpoint list \<Rightarrow> ('s client, nat list) sm" where
  "find_cconns P zeroed [] = ret []"
| "find_cconns P zeroed (ep # eps) =
     bind_sm (find_cconn zeroed (conn_key P ep, ep)) (\<lambda>c.
     bind_sm (find_cconns P zeroed eps) (\<lambda>cs. ret (c # cs)))"

lemma find_cconns_acquire:
  assumes "address_texts P"
  shows "find_cconns P zeroed eps = conns.acquire_all zeroed (inv (conn_key P)) (map (conn_key P) eps)"
proof -
  have "inj (conn_key P)" using conn_key_inject [OF assms] by (auto intro: injI)
  then show ?thesis by (induction eps) simp_all
qed

text \<open>
  C25. A client keeps one connection for each endpoint, and never shares one between two: in
  any sequence of calls, two get the same connection exactly when they are to the same endpoint.
\<close>

theorem one_connection_per_endpoint:
  assumes "address_texts P" and "find_cconns P zeroed eps client_new = (Inr cs, ct)"
    and "i < length eps" and "j < length eps"
  shows "cs ! i = cs ! j \<longleftrightarrow> eps ! i = eps ! j"
proof -
  have "conns.unshared client_new" by (simp add: conns.unshared_def conns_valid_def client_new_def)
  from conns.same_iff [OF assms(2) [unfolded find_cconns_acquire [OF assms(1)]] this, of i j] assms(3,4)
  show ?thesis by (simp add: conn_key_inject [OF assms(1)])
qed

lemma dec_nat_digits: "CHR '':'' \<notin> set (dec_nat n)"
proof (induction n rule: less_induct)
  case (less n)
  have digit: "(char_of (48 + d) :: char) \<noteq> CHR '':''" if "d < 10" for d :: nat
  proof
    assume "(char_of (48 + d) :: char) = CHR '':''"
    then have "(of_char (char_of (48 + d) :: char) :: nat) = of_char (CHR '':'')" by simp
    then have "(48 + d) mod 256 = 58" by (simp only: of_char_of) simp
    with that show False by simp
  qed
  show ?case
  proof (cases "n < 10")
    case True
    then show ?thesis using digit [of n] by (simp add: dec_nat_small)
  next
    case False
    with less.IH [of "n div 10"] digit [of "n mod 10"] show ?thesis by (simp add: dec_nat_large)
  qed
qed

definition demo_platform :: "wire platform" where
  "demo_platform = (machine 100)\<lparr>address_to_string := (\<lambda>a. dec_nat (unat a))\<rparr>"

lemma address_texts_demo: "address_texts demo_platform"
proof -
  have "inj (\<lambda>a :: u32. dec_nat (unat a))" by (rule injI) (metis dec_nat_inject unsigned_word_eqI)
  then show ?thesis by (simp add: address_texts_def demo_platform_def dec_nat_digits)
qed

theorem one_connection_per_endpoint_witness:
  "\<exists>ct. find_cconns demo_platform True
       [\<lparr>ep_address = 1, ep_port = 80\<rparr>, \<lparr>ep_address = 1, ep_port = 81\<rparr>, \<lparr>ep_address = 1, ep_port = 80\<rparr>] client_new =
     (Inr [0, 1, 0], ct) \<and>
   ([0, 1, 0 :: nat] ! 0 = [0, 1, 0] ! 2 \<longleftrightarrow>
     \<lparr>ep_address = 1, ep_port = 80\<rparr> = (\<lparr>ep_address = 1, ep_port = 80\<rparr> :: endpoint))"
proof -
  let ?eps = "[\<lparr>ep_address = 1, ep_port = 80\<rparr>, \<lparr>ep_address = 1, ep_port = 81\<rparr>, \<lparr>ep_address = 1, ep_port = 80\<rparr>]"
  have "fst (find_cconns demo_platform True ?eps client_new) = Inr [0, 1, 0]" by code_simp
  then obtain ct where run: "find_cconns demo_platform True ?eps client_new = (Inr [0, 1, 0], ct)"
    by (metis prod.collapse)
  from one_connection_per_endpoint [OF address_texts_demo run, of 0 2] run show ?thesis by simp
qed

section \<open>Call ids\<close>

text \<open>The table of calls of a connection: the ids given out so far, each once.\<close>

definition table_ok :: "'s client_conn \<Rightarrow> bool" where
  "table_ok conn \<longleftrightarrow> 0 \<le> sint (cc_last conn) \<and> distinct (map fst (cc_calls conn)) \<and>
     (\<forall>i \<in> fst ` set (cc_calls conn). 0 \<le> sint i \<and> sint i < sint (cc_last conn))"

text \<open>
  A call gets an id no earlier call of its connection has, until 2^31 calls have been made:
  its entry is new, the entries of the other calls stay as they are, and the ids remain unique.
\<close>

theorem call_ids_fresh:
  assumes "c < length (ct_conns ct)" and "table_ok (ct_conns ct ! c)" and "sint (cc_last (ct_conns ct ! c)) < 2 ^ 31 - 1"
  shows "\<exists>ct' i. add_call c k ct = (Inr True, ct') \<and> i = cc_last (ct_conns ct ! c) \<and>
     map_of (cc_calls (ct_conns ct ! c)) i = None \<and>
     map_of (cc_calls (ct_conns ct' ! c)) = (map_of (cc_calls (ct_conns ct ! c)))(i := Some k) \<and>
     table_ok (ct_conns ct' ! c) \<and> ct_calls ct' = (ct_calls ct)[k := (ct_calls ct ! k)\<lparr>cl_id := i\<rparr>]"
proof -
  let ?conn = "ct_conns ct ! c" and ?i = "cc_last (ct_conns ct ! c)"
  have add: "add_i32 ?i 1 = Inr (?i + 1)" using assms(2,3) by (intro add_i32_ok) (simp_all add: table_ok_def)
  note nxt = add_i32_Inr [OF add]
  have new: "map_of (cc_calls ?conn) ?i = None" using assms(2) by (auto simp: table_ok_def map_of_eq_None_iff)
  let ?ct = "ct\<lparr>ct_calls := (ct_calls ct)[k := (ct_calls ct ! k)\<lparr>cl_id := ?i\<rparr>],
    ct_conns := (ct_conns ct)[c := ?conn\<lparr>cc_last := ?i + 1, cc_calls := (?i, k) # cc_calls ?conn\<rparr>]\<rparr>"
  have "add_call c k ct = (Inr True, ?ct)"
    using assms(1) new by (simp add: add_call_def cconn_at_def sm_simps add set_call_def set_cconn_def insert_call_def)
  moreover have "table_ok (ct_conns ?ct ! c)"
    using assms(1,2) nxt new by (auto simp: table_ok_def map_of_eq_None_iff intro: less_trans)
  ultimately show ?thesis using assms(1) new by (intro exI [of _ ?ct] exI [of _ ?i]) (simp add: fun_eq_iff)
qed

definition demo_conn :: "string \<Rightarrow> wire client_conn" where
  "demo_conn bytes = (client_conn_new True \<lparr>ep_address = 1, ep_port = 80\<rparr> 0)\<lparr>cc_sock := Some (bytes, [])\<rparr>"

theorem call_ids_fresh_witness:
  "\<exists>ct' i. add_call 0 0 (client_new\<lparr>ct_conns := [demo_conn []], ct_calls := [client_call_new Writable []]\<rparr>) = (Inr True, ct') \<and>
     i = 0 \<and> map_of (cc_calls (ct_conns ct' ! 0)) i = Some 0"
proof -
  let ?ct = "client_new\<lparr>ct_conns := [demo_conn []], ct_calls := [client_call_new Writable []]\<rparr>"
  have "0 < length (ct_conns ?ct)" "table_ok (ct_conns ?ct ! 0)" "sint (cc_last (ct_conns ?ct ! 0)) < 2 ^ 31 - 1"
    "cc_last (ct_conns ?ct ! 0) = 0"
    by (simp_all add: demo_conn_def client_conn_new_def table_ok_def)
  from call_ids_fresh [OF this(1-3), of 0] this(4) show ?thesis by (metis fun_upd_same)
qed

section \<open>Receiving\<close>

text \<open>The client after the response with value \<open>x\<close> has reached call \<open>k\<close>.\<close>

definition delivered :: "nat \<Rightarrow> 's \<Rightarrow> nat \<Rightarrow> i32 \<Rightarrow> 's client \<Rightarrow> 's client" where
  "delivered c s k x ct = ct\<lparr>
     ct_calls := (ct_calls ct)[k := (ct_calls ct ! k)\<lparr>cl_value := Some (IntWritable (Some (trunc8 x))), cl_done := True\<rparr>],
     ct_conns := (ct_conns ct)[c := (ct_conns ct ! c)\<lparr>cc_sock := Some s\<rparr>]\<rparr>"

text \<open>A connection that is open, with its socket.\<close>

definition open_conn :: "'s client \<Rightarrow> nat \<Rightarrow> 's \<Rightarrow> bool" where
  "open_conn ct c s \<longleftrightarrow> c < length (ct_conns ct) \<and> \<not> cc_wild (ct_conns ct ! c) \<and> cc_sock (ct_conns ct ! c) = Some s"

lemma open_delivered: "open_conn ct c s \<Longrightarrow> open_conn (delivered c s' k x ct) c s'"
  by (simp add: open_conn_def delivered_def)

lemma delivered_simps [simp]:
  assumes "open_conn ct c s"
  shows "cc_calls (ct_conns (delivered c s' k x ct) ! c) = cc_calls (ct_conns ct ! c)"
    "length (ct_calls (delivered c s' k x ct)) = length (ct_calls ct)"
    "cl_class (ct_calls (delivered c s' k x ct) ! j) = cl_class (ct_calls ct ! j)"
    "j \<noteq> k \<Longrightarrow> ct_calls (delivered c s' k x ct) ! j = ct_calls ct ! j"
proof -
  show "cc_calls (ct_conns (delivered c s' k x ct) ! c) = cc_calls (ct_conns ct ! c)"
    using assms by (simp add: delivered_def open_conn_def)
  show "length (ct_calls (delivered c s' k x ct)) = length (ct_calls ct)" by (simp add: delivered_def)
  show "cl_class (ct_calls (delivered c s' k x ct) ! j) = cl_class (ct_calls ct ! j)"
    by (cases "k < length (ct_calls ct)") (simp_all add: delivered_def nth_list_update not_less list_update_beyond)
  show "j \<noteq> k \<Longrightarrow> ct_calls (delivered c s' k x ct) ! j = ct_calls ct ! j" by (simp add: delivered_def)
qed

lemma sock_read_receives:
  assumes "duplex P rx tx" and "rx s = bs @ rest"
  shows "\<exists>s'. sock_read P (length bs) (ob, Some s) = (Inr bs, (ob, Some s')) \<and> rx s' = rest \<and> tx s' = tx s"
proof -
  have "sock_read (stream_platform P) (length bs) (ob, Some (rx s, tx s)) = (Inr bs, (ob, Some (rest, tx s)))"
    using assms(2) by (simp add: sm_simps)
  from sim_run [OF sim_sock_read [OF assms(1)] this] show ?thesis .
qed

lemma sock_read_throws:
  assumes "duplex P rx tx" and "length (rx s) < n"
  shows "\<exists>s'. sock_read P n (ob, Some s) = (Inl (Throw SystemError), (ob, Some s'))"
proof -
  have "sock_read (stream_platform P) n (ob, Some (rx s, tx s)) = (Inl (Throw SystemError), (ob, Some ([], tx s)))"
    using assms(2) by (simp add: sm_simps)
  from sim_run [OF sim_sock_read [OF assms(1)] this] show ?thesis by blast
qed

lemma on_sock_run:
  assumes "open_conn ct c s" and "m (x, Some s) = (Inr a, (x', Some s'))"
  shows "on_sock c x m ct = (Inr (a, x'), ct\<lparr>ct_conns := (ct_conns ct)[c := (ct_conns ct ! c)\<lparr>cc_sock := Some s'\<rparr>]\<rparr>)"
  using assms by (simp add: on_sock_def cconn_at_def sm_simps open_conn_def)

lemma enc_response_int: "enc_response i (i32_bytes x) = i32_bytes i @ enc (IntWritable (Some x))"
  by (simp add: enc_response_def)

text \<open>The two reads of \<open>recvRespond\<close>: an id, and an integer for a call that waits for one.\<close>

lemma recv_id_run:
  assumes P: "duplex P rx tx" and conn: "open_conn ct c s" and rx: "rx s = i32_bytes i @ rest"
  shows "\<exists>s'. recv_id P c ct = (Inr (Some i), ct\<lparr>ct_conns := (ct_conns ct)[c := (ct_conns ct ! c)\<lparr>cc_sock := Some s'\<rparr>]\<rparr>) \<and>
     rx s' = rest \<and> tx s' = tx s"
proof -
  from sock_read_receives [OF P rx, of "()"] obtain s' where
    s': "sock_read P 4 ((), Some s) = (Inr (i32_bytes i), ((), Some s'))" "rx s' = rest" "tx s' = tx s" by auto
  from on_sock_run [where m = "sock_read P 4", OF conn s'(1)] s'(2,3) show ?thesis
    by (auto simp: recv_id_def sm_simps)
qed

lemma recv_int_run:
  assumes P: "duplex P rx tx" "5 \<le> max_alloc P" and conn: "open_conn ct c s"
    and call: "k < length (ct_calls ct)" "cl_class (ct_calls ct ! k) = ''IntWritable''"
    and rx: "rx s = enc (IntWritable (Some x)) @ rest"
  shows "\<exists>s'. recv_value P (Suc d) c k ct =
      (Inr (IntWritable (Some (trunc8 x))), ct\<lparr>ct_conns := (ct_conns ct)[c := (ct_conns ct ! c)\<lparr>cc_sock := Some s'\<rparr>]\<rparr>) \<and>
     rx s' = rest \<and> tx s' = tx s"
proof -
  from read_fields_receives [OF P(1), of "IntWritable (Some x)" "Suc d" s rest] P(2) rx obtain s' where
    s': "read_fields P (Suc d) (IntWritable None, Some s) =
      (Inr (rw_code (IntWritable (Some x))), (IntWritable (Some (trunc8 x)), Some s'))" "rx s' = rest" "tx s' = tx s"
    by (auto simp: get_new_instance_def simp del: read_fields.simps)
  then show ?thesis
    using call on_sock_run [where m = "read_fields P (Suc d)", OF conn s'(1)]
    by (intro exI [of _ s']) (simp add: recv_value_def call_at_def sm_simps get_new_instance_def del: read_fields.simps)
qed

lemma recv_respond_delivers:
  assumes P: "duplex P rx tx" "5 \<le> max_alloc P" and conn: "open_conn ct c s"
    and call: "map_of (cc_calls (ct_conns ct ! c)) i = Some k" "k < length (ct_calls ct)"
      "cl_class (ct_calls ct ! k) = ''IntWritable''"
    and rx: "rx s = enc_response i (i32_bytes x) @ rest"
  shows "\<exists>s'. recv_respond P (Suc d) c ct = (Inr (), delivered c s' k x ct) \<and> rx s' = rest \<and> tx s' = tx s"
proof -
  have "rx s = i32_bytes i @ (enc (IntWritable (Some x)) @ rest)" using rx by (simp add: enc_response_int)
  from recv_id_run [where rx = rx, OF P(1) conn this] obtain s1 where
    1: "recv_id P c ct = (Inr (Some i), ct\<lparr>ct_conns := (ct_conns ct)[c := (ct_conns ct ! c)\<lparr>cc_sock := Some s1\<rparr>]\<rparr>)"
      "rx s1 = enc (IntWritable (Some x)) @ rest" "tx s1 = tx s" by blast
  let ?ct1 = "ct\<lparr>ct_conns := (ct_conns ct)[c := (ct_conns ct ! c)\<lparr>cc_sock := Some s1\<rparr>]\<rparr>"
  have open1: "open_conn ?ct1 c s1" using conn by (simp add: open_conn_def)
  from recv_int_run [where rx = rx, OF P open1 _ _ 1(2)] call obtain s2 where
    2: "recv_value P (Suc d) c k ?ct1 = (Inr (IntWritable (Some (trunc8 x))),
      ct\<lparr>ct_conns := (ct_conns ct)[c := (ct_conns ct ! c)\<lparr>cc_sock := Some s2\<rparr>]\<rparr>)" "rx s2 = rest" "tx s2 = tx s1"
    using conn by (auto simp: open_conn_def)
  have "recv_respond P (Suc d) c ct = (Inr (), delivered c s2 k x ct)"
    using call conn
    by (simp add: recv_respond_def sm_simps 1(1) 2(1) cconn_at_def open_conn_def client_set_value_def set_call_def
        print_to_string_def delivered_def)
  with 1 2 show ?thesis by auto
qed

text \<open>The receiver thread over \<open>n\<close> responses.\<close>

fun recv_responses :: "'s platform \<Rightarrow> nat \<Rightarrow> nat \<Rightarrow> nat \<Rightarrow> ('s client, unit) sm" where
  "recv_responses P d c 0 = ret ()"
| "recv_responses P d c (Suc n) = bind_sm (recv_respond P d c) (\<lambda>_. recv_responses P d c n)"

definition response_bytes :: "(i32 \<times> i32) list \<Rightarrow> string" where
  "response_bytes rs = concat (map (\<lambda>(i, x). enc_response i (i32_bytes x)) rs)"

text \<open>Every response is for a call that waits for an integer, and no two for the same call.\<close>

definition expected :: "'s client \<Rightarrow> nat \<Rightarrow> (i32 \<times> i32) list \<Rightarrow> bool" where
  "expected ct c rs \<longleftrightarrow> distinct (map (\<lambda>(i, x). map_of (cc_calls (ct_conns ct ! c)) i) rs) \<and>
     (\<forall>(i, x) \<in> set rs. case map_of (cc_calls (ct_conns ct ! c)) i of None \<Rightarrow> False
        | Some k \<Rightarrow> k < length (ct_calls ct) \<and> cl_class (ct_calls ct ! k) = ''IntWritable'')"

lemma recv_responses_deliver:
  assumes P: "duplex P rx tx" "5 \<le> max_alloc P"
  shows "open_conn ct c s \<Longrightarrow> expected ct c rs \<Longrightarrow> rx s = response_bytes rs @ rest \<Longrightarrow>
    \<exists>ct' s'. recv_responses P (Suc d) c (length rs) ct = (Inr (), ct') \<and> open_conn ct' c s' \<and> rx s' = rest \<and> tx s' = tx s \<and>
      (\<forall>k. ct_calls ct' ! k = ct_calls ct ! k \<or>
        (\<exists>(i, x) \<in> set rs. map_of (cc_calls (ct_conns ct ! c)) i = Some k)) \<and>
      (\<forall>(i, x) \<in> set rs. \<forall>k. map_of (cc_calls (ct_conns ct ! c)) i = Some k \<longrightarrow>
        client_result k ct' = Some (Some (IntWritable (Some (trunc8 x)))))"
proof (induction rs arbitrary: ct s)
  case Nil
  then show ?case by (auto simp: sm_simps response_bytes_def)
next
  case (Cons r rs)
  obtain i x where r: "r = (i, x)" by (metis prod.exhaust)
  let ?tab = "map_of (cc_calls (ct_conns ct ! c))"
  from Cons.prems(2) obtain k where k: "?tab i = Some k" "k < length (ct_calls ct)"
    "cl_class (ct_calls ct ! k) = ''IntWritable''" by (auto simp: expected_def r split: option.splits)
  have "rx s = enc_response i (i32_bytes x) @ (response_bytes rs @ rest)"
    using Cons.prems(3) by (simp add: response_bytes_def r)
  from recv_respond_delivers [OF P Cons.prems(1) k this] obtain s1 where
    1: "recv_respond P (Suc d) c ct = (Inr (), delivered c s1 k x ct)" "rx s1 = response_bytes rs @ rest" "tx s1 = tx s"
    by blast
  let ?ct = "delivered c s1 k x ct"
  note sims = delivered_simps [OF Cons.prems(1)]
  have "expected ?ct c rs" using Cons.prems(2) unfolding expected_def sims(1-3) by simp
  from Cons.IH [OF open_delivered [OF Cons.prems(1)] this 1(2)] obtain ct' s' where
    2: "recv_responses P (Suc d) c (length rs) ?ct = (Inr (), ct')" "open_conn ct' c s'" "rx s' = rest" "tx s' = tx s1"
    and old: "\<And>j. ct_calls ct' ! j = ct_calls ?ct ! j \<or> (\<exists>(i, x) \<in> set rs. ?tab i = Some j)"
    and new: "\<forall>(i, x) \<in> set rs. \<forall>k. ?tab i = Some k \<longrightarrow> client_result k ct' = Some (Some (IntWritable (Some (trunc8 x))))"
    by (auto simp: sims)
  have "\<not> (\<exists>(i', x') \<in> set rs. ?tab i' = Some k)"
    using Cons.prems(2) k(1) by (force simp: expected_def r)
  with old [of k] have "ct_calls ct' ! k = ct_calls ?ct ! k" by blast
  then have "client_result k ct' = Some (Some (IntWritable (Some (trunc8 x))))"
    using k(2) by (simp add: client_result_def delivered_def)
  moreover have "ct_calls ct' ! j = ct_calls ct ! j \<or> (\<exists>(i, x) \<in> set (r # rs). ?tab i = Some j)" for j
    using old [of j] k(1) sims(4) [of j k s1 x] by (auto simp: r)
  ultimately show ?case
    using 1 2 new k(1) by (intro exI [of _ ct'] exI [of _ s']) (auto simp: sm_simps r)
qed

text \<open>
  C15. Responses reach the calls they answer, in whatever order the server sends them: after as
  many rounds of the receiver as there are responses, each of these calls is done with the value
  of its own response (as one byte carries it), no other call is touched, and what follows on
  the stream is left unread.
\<close>

theorem responses_any_order:
  assumes "duplex P rx tx" and "5 \<le> max_alloc P" and "open_conn ct c s" and "expected ct c rs"
    and "rx s = response_bytes rs @ rest"
  shows "\<exists>ct' s'. recv_responses P (Suc d) c (length rs) ct = (Inr (), ct') \<and> open_conn ct' c s' \<and> rx s' = rest \<and> tx s' = tx s \<and>
    (\<forall>k. ct_calls ct' ! k = ct_calls ct ! k \<or>
      (\<exists>(i, x) \<in> set rs. map_of (cc_calls (ct_conns ct ! c)) i = Some k)) \<and>
    (\<forall>(i, x) \<in> set rs. \<forall>k. map_of (cc_calls (ct_conns ct ! c)) i = Some k \<longrightarrow>
      client_result k ct' = Some (Some (IntWritable (Some (trunc8 x)))))"
  by (rule recv_responses_deliver [OF assms])

definition demo_client :: "wire client" where
  "demo_client = client_new\<lparr>
     ct_calls := [client_call_new Writable ''IntWritable'', client_call_new Writable ''IntWritable''],
     ct_conns := [(demo_conn (response_bytes [(1, 9), (0, 300)]))\<lparr>cc_calls := [(1, 1), (0, 0)]\<rparr>]\<rparr>"

theorem responses_any_order_witness:
  "\<exists>ct'. recv_responses (machine 100) 1 0 2 demo_client = (Inr (), ct') \<and>
     client_result 0 ct' = Some (Some (IntWritable (Some 44))) \<and>
     client_result 1 ct' = Some (Some (IntWritable (Some 9)))"
proof -
  let ?rs = "[(1, 9), (0, 300)] :: (i32 \<times> i32) list"
  have "5 \<le> max_alloc (machine 100)" by simp
  moreover have "open_conn demo_client 0 (response_bytes ?rs, [])"
    by (simp add: open_conn_def demo_client_def demo_conn_def client_conn_new_def)
  moreover have "expected demo_client 0 ?rs"
    by (simp add: expected_def demo_client_def demo_conn_def client_conn_new_def client_call_new_def)
  moreover have "fst (response_bytes ?rs, []) = response_bytes ?rs @ []" by simp
  ultimately obtain ct' where run: "recv_responses (machine 100) (Suc 0) 0 (length ?rs) demo_client = (Inr (), ct')"
    and all: "\<forall>(i, x) \<in> set ?rs. \<forall>k. map_of (cc_calls (ct_conns demo_client ! 0)) i = Some k \<longrightarrow>
      client_result k ct' = Some (Some (IntWritable (Some (trunc8 x))))"
    using responses_any_order [OF duplex_machine, of 100 demo_client 0 _ ?rs "[]" 0] by blast
  have tab: "map_of (cc_calls (ct_conns demo_client ! 0)) 0 = Some 0" "map_of (cc_calls (ct_conns demo_client ! 0)) 1 = Some 1"
    by (simp_all add: demo_client_def)
  have tr: "trunc8 300 = 44" "trunc8 9 = 9" by code_simp+
  from all tab tr have "client_result 0 ct' = Some (Some (IntWritable (Some 44)))"
    "client_result 1 ct' = Some (Some (IntWritable (Some 9)))" by auto
  with run show ?thesis by (auto simp: numeral_2_eq_2)
qed

text \<open>
  A server that closes its side stops the client: with fewer than four bytes left the
  receiver thread fails to read an id, and the handler of that exception uses the pointer to the
  call, which is still null. An id no call has aborts the client.
\<close>

theorem closed_server_crashes_client:
  assumes "duplex P rx tx" and "open_conn ct c s"
    and "length (rx s) < 4 \<or> (\<exists>i rest. rx s = i32_bytes i @ rest \<and> map_of (cc_calls (ct_conns ct ! c)) i = None)"
  shows "fst (recv_respond P d c ct) = Inl (if length (rx s) < 4 then Undefined NullDeref else Aborted)"
proof (cases "length (rx s) < 4")
  case True
  from sock_read_throws [OF assms(1) this, of "()"] obtain s' where
    "sock_read P 4 ((), Some s) = (Inl (Throw SystemError), ((), Some s'))" by blast
  then show ?thesis using assms(2) True
    by (simp add: recv_respond_def recv_id_def sm_simps on_sock_def cconn_at_def open_conn_def)
next
  case False
  with assms(3) obtain i rest where i: "rx s = i32_bytes i @ rest" "map_of (cc_calls (ct_conns ct ! c)) i = None" by blast
  from sock_read_receives [OF assms(1) i(1), of "()"] obtain s' where
    "sock_read P 4 ((), Some s) = (Inr (i32_bytes i), ((), Some s'))" by auto
  from on_sock_run [where m = "sock_read P 4", OF assms(2) this] show ?thesis
    using False i(2) assms(2) by (simp add: recv_respond_def recv_id_def sm_simps cconn_at_def open_conn_def)
qed

theorem closed_server_crashes_client_witness:
  "fst (recv_respond (machine 100) 1 0 (client_new\<lparr>ct_conns := [demo_conn []]\<rparr>)) = Inl (Undefined NullDeref)"
proof -
  have "open_conn (client_new\<lparr>ct_conns := [demo_conn []]\<rparr>) 0 ([], [])"
    by (simp add: open_conn_def demo_conn_def client_conn_new_def)
  from closed_server_crashes_client [where P = "machine 100" and d = 1, OF duplex_machine this] show ?thesis by simp
qed

section \<open>Idle connections\<close>

lemma wait_for_stays: "p q \<Longrightarrow> wait_for p env q = (True, q)"
  by (cases env) simp_all

text \<open>What the other threads have done before wait \<open>n\<close>.\<close>

definition wait_start :: "('q \<Rightarrow> 'q) list list \<Rightarrow> nat \<Rightarrow> 'q \<Rightarrow> 'q" where
  "wait_start rs n q = after (concat (take n rs)) q"

definition call_seen :: "('s client_conn \<Rightarrow> 's client_conn) list list \<Rightarrow> 's client_conn \<Rightarrow> nat \<Rightarrow> bool" where
  "call_seen rs conn n \<longleftrightarrow> (\<exists>k \<le> length (rs ! n). has_calls (after (take k (rs ! n)) (wait_start rs n conn)))"

lemma ex_less_Suc_shift: "(\<exists>n < Suc m. Q n) \<longleftrightarrow> Q 0 \<or> (\<exists>n < m. Q (Suc n))"
  using less_Suc_eq_0_disj by auto

lemma wait_rounds_result:
  "(fst (wait_rounds m rs conn) = Some True \<longleftrightarrow> (\<exists>n < min m (length rs). call_seen rs conn n)) \<and>
   (fst (wait_rounds m rs conn) = Some False \<longleftrightarrow> m \<le> length rs \<and> \<not> (\<exists>n < m. call_seen rs conn n)) \<and>
   (fst (wait_rounds m rs conn) = Some False \<longrightarrow> cc_should_close (snd (wait_rounds m rs conn)))"
proof (induction m rs conn rule: wait_rounds.induct)
  case (1 rs conn)
  then show ?case by (simp add: mark_closed_def)
next
  case (2 n conn)
  then show ?case by simp
next
  case (3 n env rs conn)
  obtain b conn' where w: "wait_for has_calls env conn = (b, conn')" by (metis prod.exhaust)
  have b: "b \<longleftrightarrow> call_seen (env # rs) conn 0"
    using wait_for_succeeds_iff [of has_calls env conn] w by (simp add: call_seen_def wait_start_def)
  have mn: "min (Suc n) (length (env # rs)) = Suc (min n (length rs))" by simp
  show ?case
  proof (cases b)
    case True
    with b w show ?thesis by (auto simp: ex_less_Suc_shift)
  next
    case False
    then have "conn' = after env conn" using w wait_for_fails by metis
    then have "call_seen (env # rs) conn (Suc k) \<longleftrightarrow> call_seen rs conn' k" for k
      by (simp add: call_seen_def wait_start_def)
    with False b w 3 [OF w [symmetric]] show ?thesis unfolding mn ex_less_Suc_shift by auto
  qed
qed

text \<open>
  C28. The receiver thread gives a connection up exactly after five waits in none of which a call
  was there, and then marks it closed; it goes on to receive as soon as one is there. As no call
  is ever removed from the table of an open connection, a connection that has been used once is
  never given up.
\<close>

theorem wait_for_work_outcomes:
  "(fst (wait_for_work rs conn) = Some True \<longleftrightarrow> (\<exists>n < min 5 (length rs). call_seen rs conn n)) \<and>
   (fst (wait_for_work rs conn) = Some False \<longleftrightarrow> 5 \<le> length rs \<and> \<not> (\<exists>n < 5. call_seen rs conn n)) \<and>
   (if fst (wait_for_work rs conn) = Some False then cc_should_close (snd (wait_for_work rs conn)) else True) \<and>
   (if has_calls conn \<and> rs \<noteq> [] then wait_for_work rs conn = (Some True, conn) else True)"
proof -
  have "wait_rounds (Suc 4) rs conn = (Some True, conn)" if "has_calls conn" "rs \<noteq> []"
    using that by (cases rs) (simp_all add: wait_for_stays numeral_eq_Suc)
  then have "has_calls conn \<and> rs \<noteq> [] \<longrightarrow> wait_for_work rs conn = (Some True, conn)"
    by (simp add: wait_for_work_def max_wait_rep_def)
  moreover note wait_rounds_result [of 5 rs conn]
  ultimately show ?thesis unfolding wait_for_work_def max_wait_rep_def by (simp only: if_bool_eq_conj) blast
qed

section \<open>Failed connections\<close>

text \<open>
  A connection whose endpoint could not be connected to is taken for a good one from then
  on: the first attempt reports the failure, which \<open>getConnection\<close> ignores, and every later one
  reports success, because the pointer to the dead socket is not null.
\<close>

theorem failed_connect_reported_once:
  assumes "c < length (ct_conns ct)" and "ct_conns ct ! c = client_conn_new True ep i"
    and "asio_connect P (asio_socket P) ep = (False, s)"
  shows "\<exists>ct'. connect P c ep ct = (Inr False, ct') \<and> connect P c ep ct' = (Inr True, ct') \<and>
    cc_sock (ct_conns ct' ! c) = Some s \<and> \<not> cc_recv_started (ct_conns ct' ! c)"
  using assms
  by (intro exI [of _ "ct\<lparr>ct_conns := (ct_conns ct)[c := (ct_conns ct ! c)\<lparr>cc_sock := Some s\<rparr>]\<rparr>"])
    (simp add: connect_def cconn_at_def sm_simps set_cconn_def client_conn_new_def)

theorem failed_connect_reported_once_witness:
  "\<exists>ct'. connect ((machine 100)\<lparr>asio_connect := (\<lambda>s ep. (False, s))\<rparr>) 0 \<lparr>ep_address = 1, ep_port = 80\<rparr>
       (client_new\<lparr>ct_conns := [client_conn_new True \<lparr>ep_address = 1, ep_port = 80\<rparr> 0]\<rparr>) = (Inr False, ct') \<and>
     cc_sock (ct_conns ct' ! 0) = Some ([], [])"
proof -
  let ?P = "(machine 100)\<lparr>asio_connect := (\<lambda>s ep. (False, s))\<rparr>" and ?ep = "\<lparr>ep_address = 1, ep_port = 80\<rparr> :: endpoint"
  have "asio_connect ?P (asio_socket ?P) ?ep = (False, ([], []))" by (simp add: machine_def)
  from failed_connect_reported_once [OF _ _ this, of 0 "client_new\<lparr>ct_conns := [client_conn_new True ?ep 0]\<rparr>" 0]
  show ?thesis by auto
qed

section \<open>Waiting for the value\<close>

text \<open>The states a thread may find while others do \<open>env\<close>, one after the other.\<close>

primrec history :: "('q \<Rightarrow> 'q) list \<Rightarrow> 'q \<Rightarrow> 'q list" where
  "history [] q = [q]"
| "history (f # fs) q = q # history fs (f q)"

lemma history_start: "\<exists>qs. history fs q = q # qs"
  by (cases fs) simp_all

lemma find_history_append:
  "find p (history (fs @ gs) q) =
     (case find p (history fs q) of None \<Rightarrow> find p (history gs (after fs q)) | Some q' \<Rightarrow> Some q')"
proof (induction fs arbitrary: q)
  case Nil
  then show ?case using history_start [of gs q] by auto
next
  case (Cons f fs)
  then show ?case by (simp split: option.split)
qed

lemma wait_for_history:
  "wait_for p env q = (case find p (history env q) of None \<Rightarrow> (False, after env q) | Some q' \<Rightarrow> (True, q'))"
  by (induction env arbitrary: q) (simp_all split: option.split)

lemma call_wait_history:
  "fst (call_wait rs k ct) = map_option (\<lambda>ct'. cl_value (ct_calls ct' ! k)) (find (call_done k) (history (concat rs) ct))"
proof (induction rs k ct rule: call_wait.induct)
  case (1 k ct)
  then show ?case by (simp add: client_result_def call_done_def)
next
  case (2 env rs k ct)
  show ?case
  proof (cases "call_done k ct")
    case True
    then show ?thesis using history_start [of "env @ concat rs" ct] by (auto simp: client_result_def call_done_def)
  next
    case False
    show ?thesis
    proof (cases "find (call_done k) (history env ct)")
      case None
      then show ?thesis using False 2 by (simp add: wait_for_history find_history_append)
    next
      case (Some ct')
      then have "call_done k ct'" by (auto simp: find_Some_iff)
      with False Some show ?thesis by (simp add: wait_for_history find_history_append client_result_def) (simp add: call_done_def)
    qed
  qed
qed

text \<open>
  C27. A thread that waits for the value of its call returns as soon as the call is done, however
  the waits cut what the other threads do in pieces: its result is the value the call has in the
  first state in which it is done, and when there is none it goes on waiting, with no limit.
\<close>

theorem call_returns_when_done:
  "fst (call_wait rs k ct) =
     map_option (\<lambda>ct'. cl_value (ct_calls ct' ! k)) (find (call_done k) (history (concat rs) ct))"
  by (rule call_wait_history)

section \<open>A call that cannot be sent\<close>

text \<open>
  \<open>sendCall\<close> never gets to log that a call was not sent: when the parameter of a call, a
  \<open>MethodWritable\<close>, cannot be written, the text its log line asks for throws, and with that the
  call leaves the client with an exception.
\<close>

theorem unsent_call_throws:
  assumes "\<And>s bs n s'. asio_write P s bs = (Some n, s') \<Longrightarrow> n = length bs"
    and "cl_param call = MethodWritable c m ps"
  shows "fst (call_write_to P call ((), Some s)) \<noteq> Inr False \<and>
    (\<forall>s1 s2 r. if asio_write P s (i32_bytes (cl_id call)) = (Some 4, s1) \<and>
        write_fields P (cl_param call) ((), Some s1) = (Inr r, s2) \<and> r < 0
      then call_write_to P call ((), Some s) = (Inl (Throw LogicError), s2) else True)"
proof -
  obtain l s1 where w: "asio_write P s (i32_bytes (cl_id call)) = (l, s1)" by (metis prod.exhaust)
  have l: "l = None \<or> l = Some 4" using assms(1) [of s "i32_bytes (cl_id call)"] w by (cases l) auto
  have throws: "to_string (cl_param call) = Inl (Throw LogicError)" by (simp add: assms(2) to_string_def)
  show ?thesis using l w
    by (auto simp: call_write_to_def sm_simps sock_write_def throws split: prod.splits sum.splits)
qed

text \<open>A socket that takes four bytes and then breaks.\<close>

definition breaking_machine :: "wire platform" where
  "breaking_machine = (machine 100)\<lparr>asio_write := (\<lambda>(i, out) bs.
     if length out + length bs \<le> 4 then (Some (length bs), (i, out @ bs)) else (None, (i, out)))\<rparr>"

theorem unsent_call_throws_witness:
  "fst (call_write_to breaking_machine (client_call_new (MethodWritable ''NameNode'' ''create'' []) ''IntWritable'')
     ((), Some ([], []))) = Inl (Throw LogicError)"
proof -
  let ?call = "client_call_new (MethodWritable ''NameNode'' ''create'' []) ''IntWritable''"
  have whole: "\<And>s bs n s'. asio_write breaking_machine s bs = (Some n, s') \<Longrightarrow> n = length bs"
    by (auto simp: breaking_machine_def split: prod.splits if_splits)
  have param: "cl_param ?call = MethodWritable ''NameNode'' ''create'' []" by (simp add: client_call_new_def)
  have "fst (write_fields breaking_machine (cl_param ?call) ((), Some ([], i32_bytes 0))) = Inr (- 1)" by code_simp
  then obtain s2 where "write_fields breaking_machine (cl_param ?call) ((), Some ([], i32_bytes 0)) = (Inr (- 1), s2)"
    by (metis prod.collapse)
  moreover have "asio_write breaking_machine ([], []) (i32_bytes (cl_id ?call)) = (Some 4, ([], i32_bytes 0))" by code_simp
  moreover note unsent_call_throws [where s = "([], [])", OF whole param, THEN conjunct2, THEN spec [of _ "([], i32_bytes 0)"], THEN spec [of _ s2],
    THEN spec [of _ "- 1"]]
  ultimately have "call_write_to breaking_machine ?call ((), Some ([], [])) = (Inl (Throw LogicError), s2)" by simp
  then show ?thesis by simp
qed

section \<open>The first call\<close>

text \<open>
  The pointer to the socket is not set when a connection is made: where its memory is not
  zero, the first call of a client reads it and from then on anything may happen, whatever the
  call and the network are.
\<close>

theorem first_call_reads_unset_pointer:
  "fst (client_begin P False p vc ep client_new) = Inl (Undefined UninitRead)"
  by (simp add: client_begin_def sm_simps client_new_def get_connection_def find_cconn_def connect_def cconn_at_def
      client_conn_new_def)

end
