(* ===== verification/RPC.thy ===== *)
theory RPC
  imports Client_Calls
begin

text \<open>
  The calling interface: the cache of clients (\<open>RPC::ClientCache\<close>, \<open>include/RPC.h\<close>), the
  invocation of a method with its parameters (\<open>include/Invocation.h\<close>) and the one protocol the
  repository defines (\<open>include/DataNodeProtocol.h\<close>).

  The parameter pack of a template is the list of its arguments. A call is modelled up to the
  point where it waits for its value, as for \<open>Client::call\<close>.
\<close>

section \<open>The cache of clients\<close>

record 's rpc =
  rp_clients :: "'s client list" \<comment> \<open>the objects of class \<open>Client\<close>\<close>
  rp_reg :: "string \<Rightarrow> nat option" \<comment> \<open>\<open>_clients\<close>\<close>

definition rpc_new :: "'s rpc" where
  "rpc_new = \<lparr>rp_clients = [], rp_reg = (\<lambda>_. None)\<rparr>"

definition get_client :: "string \<Rightarrow> ('s rpc, nat) sm" where
  "get_client sock_type = (\<lambda>st. case rp_reg st sock_type of
       Some n \<Rightarrow> (Inr n, st)
     | None \<Rightarrow> (Inr (length (rp_clients st)), st\<lparr>rp_clients := rp_clients st @ [client_new],
         rp_reg := (rp_reg st)(sock_type := Some (length (rp_clients st)))\<rparr>))"

definition rpc_valid :: "'s rpc \<Rightarrow> bool" where
  "rpc_valid st \<longleftrightarrow> (\<forall>key n. rp_reg st key = Some n \<longrightarrow> n < length (rp_clients st))"

interpretation clients: registry rpc_valid rp_reg get_client
  by unfold_locales (auto simp: get_client_def rpc_valid_def less_SucI split: option.splits if_splits)

primrec get_clients :: "string list \<Rightarrow> ('s rpc, nat list) sm" where
  "get_clients [] = ret []"
| "get_clients (t # ts) = bind_sm (get_client t) (\<lambda>n. bind_sm (get_clients ts) (\<lambda>ns. ret (n # ns)))"

lemma get_clients_acquire: "get_clients ts = clients.acquire_all ts"
  by (induction ts) simp_all

text \<open>
  The cache has one client for each socket type: in any sequence of invocations, two use
  the same client exactly when they name the same type.
\<close>

theorem one_client_per_type:
  assumes "get_clients ts rpc_new = (Inr ns, st)" and "i < length ts" and "j < length ts"
  shows "ns ! i = ns ! j \<longleftrightarrow> ts ! i = ts ! j"
proof -
  have "clients.unshared rpc_new" by (simp add: clients.unshared_def rpc_valid_def rpc_new_def)
  from clients.same_iff [OF assms(1) [unfolded get_clients_acquire] this assms(2,3)] show ?thesis .
qed

theorem one_client_per_type_witness:
  "\<exists>st. get_clients [''standard'', ''ssl'', ''standard''] (rpc_new :: wire rpc) = (Inr [0, 1, 0], st) \<and>
     ([0, 1, 0 :: nat] ! 0 = [0, 1, 0] ! 2 \<longleftrightarrow> ''standard'' = ''standard'')"
proof -
  let ?ts = "[''standard'', ''ssl'', ''standard'']"
  have "fst (get_clients ?ts (rpc_new :: wire rpc)) = Inr [0, 1, 0]" by code_simp
  then obtain st where run: "get_clients ?ts (rpc_new :: wire rpc) = (Inr [0, 1, 0], st)" by (metis prod.collapse)
  from one_client_per_type [OF run, of 0 2] run show ?thesis by simp
qed

section \<open>Invocation\<close>

text \<open>\<open>getParams\<close>: each parameter is appended and its text is logged.\<close>

fun get_params :: "writable list \<Rightarrow> writable list \<Rightarrow> fault + writable list" where
  "get_params params [] = Inr params"
| "get_params params (p # ps) = bind_sum (print_to_string p) (\<lambda>_. get_params (params @ [p]) ps)"

text \<open>\<open>Invocation::invoke\<close>, on a client: an exception aborts the program.\<close>

definition invocation_invoke :: "'s platform \<Rightarrow> bool \<Rightarrow> endpoint \<Rightarrow> string \<Rightarrow> string \<Rightarrow> string \<Rightarrow> writable list \<Rightarrow>
    ('s client, nat option) sm" where
  "invocation_invoke P zeroed ep value_class class_name method_name args = try_catch
     (bind_sm (lift_sum (get_params [] args)) (\<lambda>params.
      client_begin P zeroed (MethodWritable class_name method_name params) value_class ep))
     (\<lambda>_. fail Aborted)"

text \<open>\<open>RPC::invoke\<close>: the client of the socket type, and the call it has begun.\<close>

definition on_client :: "nat \<Rightarrow> ('s client, 'a) sm \<Rightarrow> ('s rpc, 'a) sm" where
  "on_client n m = (\<lambda>st. if n < length (rp_clients st) then
       (case m (rp_clients st ! n) of (r, ct) \<Rightarrow> (r, st\<lparr>rp_clients := (rp_clients st)[n := ct]\<rparr>))
     else (Inl (Undefined NullDeref), st))"

definition rpc_invoke :: "'s platform \<Rightarrow> bool \<Rightarrow> string \<Rightarrow> endpoint \<Rightarrow> string \<Rightarrow> string \<Rightarrow> string \<Rightarrow> writable list \<Rightarrow>
    ('s rpc, nat \<times> nat option) sm" where
  "rpc_invoke P zeroed sock_type ep value_class class_name method_name args =
     bind_sm (get_client sock_type) (\<lambda>n.
     bind_sm (on_client n (invocation_invoke P zeroed ep value_class class_name method_name args)) (\<lambda>r.
     ret (n, r)))"

section \<open>The protocol\<close>

text \<open>
  The constructor of \<open>DataNodeProtocol\<close>: a host that is not the text of an address gives the
  address 0.0.0.0, since the error code is not looked at, and the port is cut to 16 bits.
  \<open>parse\<close> is \<open>address_v4::from_string\<close>.
\<close>

definition protocol_endpoint :: "(string \<Rightarrow> u32 option) \<Rightarrow> string \<Rightarrow> i32 \<Rightarrow> endpoint" where
  "protocol_endpoint parse host port =
     \<lparr>ep_address = (case parse host of None \<Rightarrow> 0 | Some a \<Rightarrow> a), ep_port = ucast port\<rparr>"

definition protocol_create :: "'s platform \<Rightarrow> bool \<Rightarrow> endpoint \<Rightarrow> writable \<Rightarrow> writable \<Rightarrow> writable \<Rightarrow> writable \<Rightarrow>
    ('s rpc, nat \<times> nat option) sm" where
  "protocol_create P zeroed ep a0 a1 a2 a3 =
     rpc_invoke P zeroed ''standard'' ep ''IntWritable'' ''NameNode'' ''create'' [a0, a1, a2, a3]"

section \<open>What an invocation sends\<close>

lemma get_params_all:
  assumes "list_all (\<lambda>w. \<exists>str. print_to_string w = Inr str) ps"
  shows "get_params params ps = Inr (params @ ps)"
  using assms by (induction ps arbitrary: params) auto

text \<open>The first call of a client to an endpoint that can be connected to.\<close>

definition first_conn :: "endpoint \<Rightarrow> 's \<Rightarrow> 's client_conn" where
  "first_conn ep s = (client_conn_new True ep 0)\<lparr>cc_sock := Some s, cc_recv_started := True, cc_last := 1, cc_calls := [(0, 0)]\<rparr>"

definition first_call :: "writable \<Rightarrow> string \<Rightarrow> client_call" where
  "first_call p vc = (client_call_new p vc)\<lparr>cl_conn := Some 0\<rparr>"

lemma rw_code_nonneg: "0 \<le> rw_code w"
  by (cases w) simp_all

lemma call_write_sends:
  assumes "duplex P rx tx" and "initialised (cl_param call)"
  shows "\<exists>s'. call_write_to P call ((), Some s) = (Inr True, ((), Some s')) \<and>
     tx s' = tx s @ i32_bytes (cl_id call) @ enc (cl_param call) \<and> rx s' = rx s"
proof -
  from sock_write_duplex [OF assms(1), of "i32_bytes (cl_id call)" "()" s] obtain s1 where
    1: "sock_write P (i32_bytes (cl_id call)) ((), Some s) = (Inr 4, ((), Some s1))"
      "tx s1 = tx s @ i32_bytes (cl_id call)" "rx s1 = rx s" by auto
  from write_fields_sends [OF assms, of "()" s1] obtain s2 where
    2: "write_fields P (cl_param call) ((), Some s1) = (Inr (rw_code (cl_param call)), ((), Some s2))"
      "rx s2 = rx s1" "tx s2 = tx s1 @ enc (cl_param call)" by blast
  with 1 show ?thesis using rw_code_nonneg [of "cl_param call"] by (auto simp: call_write_to_def sm_simps)
qed

lemma client_begin_sends:
  assumes P: "duplex P rx tx" and conn: "asio_connect P (asio_socket P) ep = (True, s)" and p: "initialised p"
  shows "\<exists>s'. client_begin P True p vc ep client_new =
      (Inr (Some 0), \<lparr>ct_calls = [first_call p vc], ct_conns = [first_conn ep s'],
        ct_reg = (\<lambda>_. None)(conn_key P ep := Some 0), ct_index = 1\<rparr>) \<and>
     tx s' = tx s @ i32_bytes 0 @ enc p \<and> rx s' = rx s"
proof -
  have add: "add_i32 0 1 = Inr 1" by (simp add: add_i32_def)
  let ?ct = "\<lambda>s. \<lparr>ct_calls = [first_call p vc], ct_conns = [first_conn ep s],
        ct_reg = (\<lambda>_. None)(conn_key P ep := Some 0), ct_index = 1\<rparr>"
  have get: "get_connection P True ep 0 (client_new\<lparr>ct_calls := [client_call_new p vc]\<rparr>) = (Inr (Some 0), ?ct s)"
    by (simp add: get_connection_def find_cconn_def client_new_def sm_simps connect_def cconn_at_def set_cconn_def
        client_conn_new_def conn add_call_def add set_call_def insert_call_def first_conn_def first_call_def
        client_call_new_def)
  from call_write_sends [OF P, of "first_call p vc" s] p obtain s' where
    w: "call_write_to P (first_call p vc) ((), Some s) = (Inr True, ((), Some s'))"
      "tx s' = tx s @ i32_bytes 0 @ enc p" "rx s' = rx s"
    by (auto simp: first_call_def client_call_new_def)
  have send: "send_call P 0 (?ct s) = (Inr True, ?ct s')"
  proof -
    have "cl_conn (first_call p vc) = Some 0" by (simp add: first_call_def)
    with w(1) show ?thesis
      by (simp add: send_call_def call_at_def sm_simps on_sock_def cconn_at_def first_conn_def client_conn_new_def)
  qed
  have "client_begin P True p vc ep client_new = (Inr (Some 0), ?ct s')"
    using get send by (simp add: client_begin_def sm_simps client_new_def)
  with w show ?thesis by blast
qed

end
