(* ===== verification/Client_Core.thy ===== *)
theory Client_Core
  imports RPC
begin

text \<open>
  A client whose calls run at the same time (\<open>src/Client.cpp\<close>): one thread for each call, one
  receiver thread for each connection, and the network. As for the server, a thread is a program
  counter, a step is what the code does under a lock or on data of its own thread, and an action
  says which thread moves.

  A caller holds \<open>_mutex_client\<close> from finding its connection until the call is in its table;
  \<open>removeConnection\<close> waits for that lock too. Sending is under \<open>_mutex_send_call\<close>, one step. Bytes
  arrive in steps of the environment; a read of more bytes than have arrived is a read from a
  connection the peer has closed, as in the contract of the sockets.
\<close>

section \<open>Threads\<close>

datatype caller_pc =
    CFind endpoint
  | CAdd nat
  | CSend
  | CWait
  | CDone
  | CNull

datatype receiver_pc =
    VWait nat
  | VRead
  | VFind i32
  | VValue nat
  | VSet nat writable
  | VClose
  | VRemove
  | VClean
  | VOff

record 's cl_config =
  cg_client :: "'s client"
  cg_callers :: "caller_pc list" \<comment> \<open>the thread of each call\<close>
  cg_receivers :: "receiver_pc list" \<comment> \<open>the receiver of each connection\<close>
  cg_lock :: "nat option" \<comment> \<open>the caller that holds \<open>_mutex_client\<close>\<close>

definition cl_init :: "'s cl_config" where
  "cl_init = \<lparr>cg_client = client_new, cg_callers = [], cg_receivers = [], cg_lock = None\<rparr>"

text \<open>A moment of a thread on the client, after which \<open>f\<close> moves the program counters.\<close>

definition cmoment :: "('s client, 'a) sm \<Rightarrow> ('a \<Rightarrow> 's cl_config \<Rightarrow> 's cl_config) \<Rightarrow> 's cl_config \<Rightarrow> fault + 's cl_config" where
  "cmoment m f cg = (case m (cg_client cg) of
       (Inl e, ct) \<Rightarrow> Inl e
     | (Inr a, ct) \<Rightarrow> Inr (f a (cg\<lparr>cg_client := ct\<rparr>)))"

definition caller_to :: "nat \<Rightarrow> caller_pc \<Rightarrow> 's cl_config \<Rightarrow> 's cl_config" where
  "caller_to k pc cg = cg\<lparr>cg_callers := (cg_callers cg)[k := pc]\<rparr>"

definition receiver_to :: "nat \<Rightarrow> receiver_pc \<Rightarrow> 's cl_config \<Rightarrow> 's cl_config" where
  "receiver_to c pc cg = cg\<lparr>cg_receivers := (cg_receivers cg)[c := pc]\<rparr>"

text \<open>A new connection has a receiver, which does not move before \<open>connect\<close> starts it.\<close>

definition pad_receivers :: "'s cl_config \<Rightarrow> 's cl_config" where
  "pad_receivers cg = cg\<lparr>cg_receivers := cg_receivers cg @
     replicate (length (ct_conns (cg_client cg)) - length (cg_receivers cg)) (VWait 0)\<rparr>"

text \<open>\<open>getConnection\<close> in two moments: finding and connecting, then adding the call.\<close>

definition find_connect :: "'s platform \<Rightarrow> bool \<Rightarrow> endpoint \<Rightarrow> ('s client, nat) sm" where
  "find_connect P zeroed ep =
     bind_sm (find_cconn zeroed (conn_key P ep, ep)) (\<lambda>c. bind_sm (connect P c ep) (\<lambda>_. ret c))"

definition add_to_conn :: "nat \<Rightarrow> nat \<Rightarrow> ('s client, bool) sm" where
  "add_to_conn c k = bind_sm (add_call c k) (\<lambda>ok.
     if ok then bind_sm (set_call k (\<lambda>call. call\<lparr>cl_conn := Some c\<rparr>)) (\<lambda>_. ret True) else ret False)"

lemma get_connection_moments:
  "get_connection P zeroed ep k = bind_sm (find_connect P zeroed ep) (\<lambda>c.
     bind_sm (add_to_conn c k) (\<lambda>ok. ret (if ok then Some c else None)))"
  by (rule ext) (simp add: get_connection_def find_connect_def add_to_conn_def sm_simps split: prod.split sum.split)

fun caller_step :: "'s platform \<Rightarrow> bool \<Rightarrow> nat \<Rightarrow> caller_pc \<Rightarrow> 's cl_config \<Rightarrow> (fault + 's cl_config) option" where
  "caller_step P zeroed k (CFind ep) cg = (if cg_lock cg \<noteq> None then None
     else Some (cmoment (find_connect P zeroed ep)
       (\<lambda>c cg. pad_receivers (caller_to k (CAdd c) (cg\<lparr>cg_lock := Some k\<rparr>))) cg))"
| "caller_step P zeroed k (CAdd c) cg = Some (cmoment (add_to_conn c k)
     (\<lambda>ok cg. caller_to k (if ok then CSend else CNull) (cg\<lparr>cg_lock := None\<rparr>)) cg)"
| "caller_step P zeroed k CSend cg = Some (cmoment (send_call P k) (\<lambda>_. caller_to k CWait) cg)"
| "caller_step P zeroed k CWait cg = (if cl_done (ct_calls (cg_client cg) ! k) then Some (Inr (caller_to k CDone cg)) else None)"
| "caller_step P zeroed k CDone cg = None"
| "caller_step P zeroed k CNull cg = None"

text \<open>The moments of \<open>recvRespond\<close>.\<close>

definition recv_find :: "nat \<Rightarrow> i32 \<Rightarrow> ('s client, nat) sm" where
  "recv_find c i = bind_sm (cconn_at c) (\<lambda>conn. case map_of (cc_calls conn) i of
       None \<Rightarrow> fail Aborted
     | Some k \<Rightarrow> ret k)"

fun receiver_step :: "'s platform \<Rightarrow> nat \<Rightarrow> nat \<Rightarrow> receiver_pc \<Rightarrow> 's cl_config \<Rightarrow> (fault + 's cl_config) option" where
  "receiver_step P d c (VWait n) cg =
     (if has_calls (ct_conns (cg_client cg) ! c) then Some (Inr (receiver_to c VRead cg))
      else if Suc n < max_wait_rep then Some (Inr (receiver_to c (VWait (Suc n)) cg))
      else Some (cmoment (set_cconn c mark_closed) (\<lambda>_. receiver_to c VClose) cg))"
| "receiver_step P d c VRead cg = Some (cmoment
     (bind_sm (recv_id P c) (\<lambda>r. case r of None \<Rightarrow> fail (Undefined NullDeref) | Some i \<Rightarrow> ret i))
     (\<lambda>i. receiver_to c (VFind i)) cg)"
| "receiver_step P d c (VFind i) cg = Some (cmoment (recv_find c i) (\<lambda>k. receiver_to c (VValue k)) cg)"
| "receiver_step P d c (VValue k) cg = Some (cmoment
     (try_catch (bind_sm (recv_value P d c k) (\<lambda>w. ret (Some w))) (\<lambda>_. ret None))
     (\<lambda>r. receiver_to c (case r of None \<Rightarrow> VWait 0 | Some w \<Rightarrow> VSet k w)) cg)"
| "receiver_step P d c (VSet k w) cg = Some (cmoment
     (try_catch (client_set_value k w) (\<lambda>_. ret ())) (\<lambda>_. receiver_to c (VWait 0)) cg)"
| "receiver_step P d c VClose cg = Some (cmoment (client_close_sock P c) (\<lambda>_. receiver_to c VRemove) cg)"
| "receiver_step P d c VRemove cg = (if cg_lock cg \<noteq> None then None
     else Some (cmoment (remove_connection P (cc_ep (ct_conns (cg_client cg) ! c))) (\<lambda>_. receiver_to c VClean) cg))"
| "receiver_step P d c VClean cg = Some (cmoment (cleanup_calls c) (\<lambda>_. receiver_to c VOff) cg)"
| "receiver_step P d c VOff cg = None"

datatype 's cl_action =
    NewCall writable string endpoint \<comment> \<open>a thread calls \<open>Client::call\<close>\<close>
  | CallerMove nat
  | ReceiverMove nat
  | Arrive nat 's \<comment> \<open>bytes arrive on a socket, which is then in the given state\<close>

fun client_step :: "'s platform \<Rightarrow> bool \<Rightarrow> nat \<Rightarrow> 's cl_action \<Rightarrow> 's cl_config \<Rightarrow> (fault + 's cl_config) option" where
  "client_step P zeroed d (NewCall p vc ep) cg = Some (Inr (cg\<lparr>
     cg_client := (cg_client cg)\<lparr>ct_calls := ct_calls (cg_client cg) @ [client_call_new p vc]\<rparr>,
     cg_callers := cg_callers cg @ [CFind ep]\<rparr>))"
| "client_step P zeroed d (CallerMove k) cg =
     (if k < length (cg_callers cg) then caller_step P zeroed k (cg_callers cg ! k) cg else None)"
| "client_step P zeroed d (ReceiverMove c) cg =
     (if c < length (cg_receivers cg) \<and> cc_recv_started (ct_conns (cg_client cg) ! c)
      then receiver_step P d c (cg_receivers cg ! c) cg else None)"
| "client_step P zeroed d (Arrive c s) cg =
     (if c < length (ct_conns (cg_client cg)) \<and> cc_sock (ct_conns (cg_client cg) ! c) \<noteq> None
      then Some (Inr (cg\<lparr>cg_client := (cg_client cg)\<lparr>ct_conns := (ct_conns (cg_client cg))
        [c := (ct_conns (cg_client cg) ! c)\<lparr>cc_sock := Some s\<rparr>]\<rparr>\<rparr>))
      else None)"

text \<open>
  What the environment may do: bytes that arrive leave what has been sent alone, and a caller
  passes a parameter whose integers are set (\<open>getParams\<close> has printed them).
\<close>

definition sent_on :: "('s \<Rightarrow> string) \<Rightarrow> 's client_conn \<Rightarrow> string" where
  "sent_on tx conn = (case cc_sock conn of None \<Rightarrow> [] | Some s \<Rightarrow> tx s)"

fun fair_action :: "('s \<Rightarrow> string) \<Rightarrow> 's cl_action \<Rightarrow> 's cl_config \<Rightarrow> bool" where
  "fair_action tx (NewCall p vc ep) cg \<longleftrightarrow> initialised p"
| "fair_action tx (Arrive c s) cg \<longleftrightarrow> tx s = sent_on tx (ct_conns (cg_client cg) ! c)"
| "fair_action tx _ cg \<longleftrightarrow> True"

inductive client_reachable :: "'s platform \<Rightarrow> ('s \<Rightarrow> string) \<Rightarrow> bool \<Rightarrow> nat \<Rightarrow> 's cl_config \<Rightarrow> bool" for P tx zeroed d where
  start: "client_reachable P tx zeroed d cl_init"
| move: "client_reachable P tx zeroed d cg \<Longrightarrow> fair_action tx a cg \<Longrightarrow> client_step P zeroed d a cg = Some (Inr cg') \<Longrightarrow>
    client_reachable P tx zeroed d cg'"

fun client_run :: "'s platform \<Rightarrow> bool \<Rightarrow> nat \<Rightarrow> 's cl_action list \<Rightarrow> 's cl_config \<Rightarrow> (fault + 's cl_config) option" where
  "client_run P zeroed d [] cg = Some (Inr cg)"
| "client_run P zeroed d (a # as) cg = (case client_step P zeroed d a cg of
       None \<Rightarrow> None
     | Some (Inl e) \<Rightarrow> Some (Inl e)
     | Some (Inr cg') \<Rightarrow> client_run P zeroed d as cg')"

section \<open>Runs\<close>

fun fair_run :: "'s platform \<Rightarrow> ('s \<Rightarrow> string) \<Rightarrow> bool \<Rightarrow> nat \<Rightarrow> 's cl_action list \<Rightarrow> 's cl_config \<Rightarrow> bool" where
  "fair_run P tx zeroed d [] cg \<longleftrightarrow> True"
| "fair_run P tx zeroed d (a # as) cg \<longleftrightarrow> fair_action tx a cg \<and> (case client_step P zeroed d a cg of
       Some (Inr cg') \<Rightarrow> fair_run P tx zeroed d as cg'
     | _ \<Rightarrow> True)"

lemma client_run_reachable:
  "client_reachable P tx zeroed d cg \<Longrightarrow> fair_run P tx zeroed d as cg \<Longrightarrow> client_run P zeroed d as cg = Some (Inr cg') \<Longrightarrow>
   client_reachable P tx zeroed d cg'"
  by (induction as arbitrary: cg) (auto split: option.splits sum.splits intro: client_reachable.move)

end
