(* ===== verification/Client_Invariant.thy ===== *)
theory Client_Invariant
  imports Client_Core
begin

text \<open>
  The invariant of a client whose threads run at the same time: each connection has a table of the
  calls that have been added to it, under ids that differ and are below the next one, and its
  socket has been given the requests of the calls that have been sent, each whole. A moment either
  leaves what a connection shows (\<open>same_view\<close>), or adds one call to one table, or sends one request.
\<close>

section \<open>What each moment changes\<close>

text \<open>The documented behaviour of the network: connecting and closing send nothing.\<close>

definition client_net :: "'s platform \<Rightarrow> ('s \<Rightarrow> string) \<Rightarrow> ('s \<Rightarrow> string) \<Rightarrow> bool" where
  "client_net P rx tx \<longleftrightarrow> duplex P rx tx \<and> close_silent P tx \<and> (\<forall>ep. tx (snd (asio_connect P (asio_socket P) ep)) = [])"

definition cview :: "('s \<Rightarrow> string) \<Rightarrow> 's client_conn \<Rightarrow> (i32 \<times> nat) list \<times> i32 \<times> string" where
  "cview tx conn = (cc_calls conn, cc_last conn, sent_on tx conn)"

definition views :: "('s \<Rightarrow> string) \<Rightarrow> 's client \<Rightarrow> ((i32 \<times> nat) list \<times> i32 \<times> string) list" where
  "views tx ct = map (cview tx) (ct_conns ct)"

definition socks_ok :: "'s client \<Rightarrow> bool" where
  "socks_ok ct \<longleftrightarrow> (\<forall>conn \<in> set (ct_conns ct). cc_recv_started conn \<longrightarrow> cc_sock conn \<noteq> None)"

text \<open>A moment that changes neither the calls nor what the connections show.\<close>

definition same_view :: "('s \<Rightarrow> string) \<Rightarrow> 's client \<Rightarrow> 's client \<Rightarrow> bool" where
  "same_view tx ct ct' \<longleftrightarrow> ct_calls ct' = ct_calls ct \<and> views tx ct' = views tx ct \<and>
     (conns_valid ct \<longrightarrow> conns_valid ct') \<and> (socks_ok ct \<longrightarrow> socks_ok ct')"

lemma same_view_refl: "same_view tx ct ct"
  by (simp add: same_view_def)

lemma length_views [simp]: "length (views tx ct) = length (ct_conns ct)"
  by (simp add: views_def)

lemma views_nth: "c < length (ct_conns ct) \<Longrightarrow> views tx ct ! c = cview tx (ct_conns ct ! c)"
  by (simp add: views_def)

lemma socks_ok_update:
  "socks_ok ct \<Longrightarrow> (cc_recv_started conn \<Longrightarrow> cc_sock conn \<noteq> None) \<Longrightarrow> socks_ok (ct\<lparr>ct_conns := (ct_conns ct)[c := conn]\<rparr>)"
  unfolding socks_ok_def using set_update_subset_insert [of "ct_conns ct" c conn] by auto

lemma same_view_update:
  assumes "c < length (ct_conns ct)" and "cview tx conn = cview tx (ct_conns ct ! c)"
    and "cc_recv_started conn \<Longrightarrow> cc_sock (ct_conns ct ! c) \<noteq> None \<Longrightarrow> cc_sock conn \<noteq> None"
    and "cc_recv_started conn = cc_recv_started (ct_conns ct ! c)"
  shows "same_view tx ct (ct\<lparr>ct_conns := (ct_conns ct)[c := conn]\<rparr>)"
proof -
  have "views tx (ct\<lparr>ct_conns := (ct_conns ct)[c := conn]\<rparr>) = (views tx ct)[c := views tx ct ! c]"
    using assms(1,2) by (simp add: views_def map_update)
  moreover have "cc_sock conn \<noteq> None" if "socks_ok ct" "cc_recv_started conn"
    using that assms by (simp add: socks_ok_def)
  ultimately show ?thesis
    using socks_ok_update [of ct conn c] by (auto simp: same_view_def conns_valid_def)
qed

lemma on_sock_effect:
  assumes "on_sock c x m ct = (r, ct')"
  shows "ct' = ct \<or> (c < length (ct_conns ct) \<and> (\<exists>r' x' p'. m (x, cc_sock (ct_conns ct ! c)) = (r', (x', p')) \<and>
     ct' = ct\<lparr>ct_conns := (ct_conns ct)[c := (ct_conns ct ! c)\<lparr>cc_sock := p'\<rparr>]\<rparr>))"
  using assms by (auto simp: on_sock_def sm_simps cconn_at_def split: if_splits prod.splits sum.splits)

text \<open>Reading sends nothing.\<close>

definition silent :: "('s \<Rightarrow> string) \<Rightarrow> ('x, 's, 'a) io \<Rightarrow> bool" where
  "silent tx m \<longleftrightarrow> (\<forall>x s. \<exists>r x' s'. m (x, Some s) = (r, (x', Some s')) \<and> tx s' = tx s)"

lemma silent_sim:
  assumes "sim rx tx m m'" and "eats k m'"
  shows "silent tx m"
  unfolding silent_def
proof (intro allI)
  fix x s
  obtain r x' i where "m' (x, Some (rx s, tx s)) = (r, (x', Some (i, tx s)))" using eatsE [OF assms(2)] by metis
  from sim_run [OF assms(1) this] show "\<exists>r x' s'. m (x, Some s) = (r, (x', Some s')) \<and> tx s' = tx s" by blast
qed

lemma on_sock_silent:
  assumes "silent tx m" and "on_sock c x m ct = (r, ct')" and "c < length (ct_conns ct) \<Longrightarrow> cc_sock (ct_conns ct ! c) \<noteq> None"
  shows "same_view tx ct ct'"
  using on_sock_effect [OF assms(2)]
proof
  assume "ct' = ct"
  then show ?thesis by (simp add: same_view_refl)
next
  let ?conn = "ct_conns ct ! c"
  assume "c < length (ct_conns ct) \<and> (\<exists>r' x' p'. m (x, cc_sock ?conn) = (r', (x', p')) \<and>
     ct' = ct\<lparr>ct_conns := (ct_conns ct)[c := ?conn\<lparr>cc_sock := p'\<rparr>]\<rparr>)"
  then obtain r' x' p' where c: "c < length (ct_conns ct)" and run: "m (x, cc_sock ?conn) = (r', (x', p'))"
    and ct': "ct' = ct\<lparr>ct_conns := (ct_conns ct)[c := ?conn\<lparr>cc_sock := p'\<rparr>]\<rparr>" by blast
  obtain s where s: "cc_sock ?conn = Some s" using assms(3) [OF c] by auto
  then obtain s' where "p' = Some s'" "tx s' = tx s" using assms(1) run unfolding silent_def by (metis prod.inject)
  then show ?thesis unfolding ct' using c s by (intro same_view_update) (simp_all add: cview_def sent_on_def)
qed

lemma silent_sock_read: "duplex P rx tx \<Longrightarrow> silent tx (sock_read P n)"
  by (rule silent_sim [OF sim_sock_read eats_sock_read])

lemma silent_read_fields: "duplex P rx tx \<Longrightarrow> silent tx (read_fields P d)"
  by (rule silent_sim [OF sim_read_fields eats_read_fields])

lemma net_duplex: "client_net P rx tx \<Longrightarrow> duplex P rx tx"
  by (simp add: client_net_def)

lemma recv_id_effect:
  assumes "client_net P rx tx" and "recv_id P c ct = (r, ct')" and "c < length (ct_conns ct) \<Longrightarrow> cc_sock (ct_conns ct ! c) \<noteq> None"
  shows "same_view tx ct ct'"
proof -
  obtain r1 ct1 where run: "on_sock c () (sock_read P 4) ct = (r1, ct1)" by (metis prod.exhaust)
  then have "ct' = ct1" using assms(2)
    by (auto simp: recv_id_def sm_simps split: sum.splits fault.splits prod.splits)
  with on_sock_silent [OF silent_sock_read [OF net_duplex [OF assms(1)]] run assms(3)] show ?thesis by simp
qed

lemma recv_value_effect:
  assumes "client_net P rx tx" and "recv_value P d c k ct = (r, ct')" and "c < length (ct_conns ct) \<Longrightarrow> cc_sock (ct_conns ct ! c) \<noteq> None"
  shows "same_view tx ct ct'"
proof (cases "k < length (ct_calls ct)")
  case True
  let ?x = "get_new_instance (cl_class (ct_calls ct ! k))"
  obtain r1 ct1 where run: "on_sock c ?x (read_fields P d) ct = (r1, ct1)" by (metis prod.exhaust)
  then have "ct' = ct1" using assms(2) True
    by (auto simp: recv_value_def call_at_def sm_simps split: sum.splits prod.splits)
  with on_sock_silent [OF silent_read_fields [OF net_duplex [OF assms(1)]] run assms(3)] show ?thesis by simp
next
  case False
  with assms(2) show ?thesis by (simp add: recv_value_def call_at_def sm_simps same_view_refl)
qed

lemma mark_closed_effect:
  assumes "set_cconn c mark_closed ct = (r, ct')" and "c < length (ct_conns ct)"
  shows "same_view tx ct ct'"
proof -
  have "ct' = ct\<lparr>ct_conns := (ct_conns ct)[c := mark_closed (ct_conns ct ! c)]\<rparr>"
    using assms(1) by (simp add: set_cconn_def sm_simps)
  then show ?thesis
    using assms(2) by (simp add: same_view_update mark_closed_def cview_def sent_on_def)
qed

lemma close_sock_effect:
  assumes "client_net P rx tx" and "client_close_sock P c ct = (Inr u, ct')"
  shows "same_view tx ct ct'"
proof -
  let ?conn = "ct_conns ct ! c"
  have c: "c < length (ct_conns ct)" and s: "cc_sock ?conn \<noteq> None" and
    ct': "ct' = ct\<lparr>ct_conns := (ct_conns ct)[c := ?conn\<lparr>cc_sock := map_option (asio_close P) (cc_sock ?conn), cc_wild := True\<rparr>]\<rparr>"
    using assms(2) by (auto simp: client_close_sock_def cconn_at_def sm_simps set_cconn_def split: if_splits)
  have "tx (asio_close P s) = tx s" for s using assms(1) by (simp add: client_net_def close_silent_def)
  then show ?thesis unfolding ct' using c s
    by (intro same_view_update) (auto simp: cview_def sent_on_def)
qed

lemma remove_connection_effect: "remove_connection P ep ct = (r, ct') \<Longrightarrow> same_view tx ct ct'"
  by (auto simp: remove_connection_def same_view_def views_def conns_valid_def socks_ok_def split: if_splits)

lemma cleanup_calls_effect: "cleanup_calls c ct = (Inr u, ct') \<Longrightarrow> ct' = ct"
  by (auto simp: cleanup_calls_def cconn_at_def sm_simps set_cconn_def split: if_splits)

lemma connect_effect:
  assumes net: "client_net P rx tx" and run: "connect P c ep ct = (Inr b, ct')"
  shows "c < length (ct_conns ct) \<and> ct_calls ct' = ct_calls ct \<and> views tx ct' = views tx ct \<and> ct_reg ct' = ct_reg ct \<and>
     (socks_ok ct \<longrightarrow> socks_ok ct')"
proof -
  obtain ok s where con: "asio_connect P (asio_socket P) ep = (ok, s)" by (metis prod.exhaust)
  then have s: "tx s = []" using net unfolding client_net_def by (metis snd_conv)
  let ?conn = "ct_conns ct ! c"
  have c: "c < length (ct_conns ct)" using run by (auto simp: connect_def cconn_at_def sm_simps split: if_splits)
  show ?thesis
  proof (cases "cc_should_close ?conn \<or> cc_sock ?conn \<noteq> None")
    case True
    then show ?thesis using run c by (auto simp: connect_def cconn_at_def sm_simps split: if_splits)
  next
    case False
    let ?conn' = "?conn\<lparr>cc_sock := Some s, cc_recv_started := (ok \<or> cc_recv_started ?conn)\<rparr>"
    have ct': "ct' = ct\<lparr>ct_conns := (ct_conns ct)[c := ?conn']\<rparr>"
      using run c False con by (cases ok) (auto simp: connect_def cconn_at_def sm_simps set_cconn_def split: if_splits)
    have "cview tx ?conn' = cview tx ?conn" using False s by (simp add: cview_def sent_on_def)
    then have "views tx ct' = (views tx ct)[c := views tx ct ! c]" using c by (simp add: ct' views_def map_update)
    then show ?thesis using c socks_ok_update [of ct ?conn' c] by (simp add: ct')
  qed
qed

lemma find_connect_effect:
  assumes net: "client_net P rx tx" and run: "find_connect P zeroed ep ct = (Inr c, ct')" and ok: "conns_valid ct" "socks_ok ct"
  shows "ct_calls ct' = ct_calls ct \<and> conns_valid ct' \<and> socks_ok ct' \<and> c < length (ct_conns ct') \<and>
     (views tx ct' = views tx ct \<or> views tx ct' = views tx ct @ [([], 0, [])])"
proof -
  obtain ct1 b where find: "find_cconn zeroed (conn_key P ep, ep) ct = (Inr c, ct1)" and con: "connect P c ep ct1 = (Inr b, ct')"
    using run by (auto simp: find_connect_def sm_simps split: prod.splits sum.splits)
  note eff = connect_effect [OF net con]
  have 1: "ct_calls ct1 = ct_calls ct \<and> conns_valid ct1 \<and> socks_ok ct1 \<and>
     (views tx ct1 = views tx ct \<or> views tx ct1 = views tx ct @ [([], 0, [])])"
    using find ok by (auto simp: find_cconn_def conns_valid_def socks_ok_def views_def cview_def sent_on_def
        client_conn_new_def less_SucI split: option.splits if_splits)
  have "length (ct_conns ct') = length (ct_conns ct1)" using eff by (metis length_views)
  with 1 eff show ?thesis by (auto simp: conns_valid_def)
qed

text \<open>The two moments that do change what a connection shows.\<close>

lemma add_to_conn_effect:
  assumes run: "add_to_conn c k ct = (Inr ok, ct')" and c: "c < length (ct_conns ct)" and k: "k < length (ct_calls ct)"
    and new: "map_of (cc_calls (ct_conns ct ! c)) (cc_last (ct_conns ct ! c)) = None"
  shows "ok \<and> (let i = cc_last (ct_conns ct ! c) in sint (i + 1) = sint i + 1 \<and>
     ct_calls ct' = (ct_calls ct)[k := (ct_calls ct ! k)\<lparr>cl_id := i, cl_conn := Some c\<rparr>] \<and>
     views tx ct' = (views tx ct)[c := ((i, k) # cc_calls (ct_conns ct ! c), i + 1, sent_on tx (ct_conns ct ! c))]) \<and>
     (conns_valid ct \<longrightarrow> conns_valid ct') \<and> (socks_ok ct \<longrightarrow> socks_ok ct')"
proof -
  let ?conn = "ct_conns ct ! c" and ?i = "cc_last (ct_conns ct ! c)"
  obtain n where add: "add_i32 ?i 1 = Inr n"
    using run c by (cases "add_i32 ?i 1") (auto simp: add_to_conn_def add_call_def cconn_at_def sm_simps)
  then have n: "n = ?i + 1" "sint (?i + 1) = sint ?i + 1"
    using add_i32_Inr [OF add] by (auto simp: add_i32_def split: if_splits)
  let ?conn' = "?conn\<lparr>cc_last := ?i + 1, cc_calls := (?i, k) # cc_calls ?conn\<rparr>"
  have ok: ok and ct': "ct' = ct\<lparr>ct_calls := (ct_calls ct)[k := (ct_calls ct ! k)\<lparr>cl_id := ?i, cl_conn := Some c\<rparr>],
      ct_conns := (ct_conns ct)[c := ?conn']\<rparr>"
    using run c k new n by (auto simp: add_to_conn_def add_call_def cconn_at_def sm_simps add n(1) set_call_def set_cconn_def insert_call_def)
  have "views tx ct' = (views tx ct)[c := ((?i, k) # cc_calls ?conn, ?i + 1, sent_on tx ?conn)]"
    using c by (simp add: ct' views_def map_update cview_def sent_on_def)
  moreover have "socks_ok ct'" if "socks_ok ct"
  proof -
    have "socks_ok (ct\<lparr>ct_conns := (ct_conns ct)[c := ?conn']\<rparr>)"
      using that c by (intro socks_ok_update) (auto simp: socks_ok_def)
    then show ?thesis by (simp add: ct' socks_ok_def)
  qed
  ultimately show ?thesis using ok n by (simp add: ct' Let_def conns_valid_def)
qed

definition request_of :: "client_call \<Rightarrow> string" where
  "request_of call = i32_bytes (cl_id call) @ enc (cl_param call)"

lemma send_call_effect:
  assumes net: "client_net P rx tx" and run: "send_call P k ct = (Inr b, ct')" and k: "k < length (ct_calls ct)"
    and c: "cl_conn (ct_calls ct ! k) = Some c" "c < length (ct_conns ct)" and p: "initialised (cl_param (ct_calls ct ! k))"
  shows "ct_calls ct' = ct_calls ct \<and>
     views tx ct' = (views tx ct)[c := (cc_calls (ct_conns ct ! c), cc_last (ct_conns ct ! c),
       sent_on tx (ct_conns ct ! c) @ request_of (ct_calls ct ! k))] \<and>
     (conns_valid ct \<longrightarrow> conns_valid ct') \<and> (socks_ok ct \<longrightarrow> socks_ok ct')"
proof -
  let ?call = "ct_calls ct ! k" and ?conn = "ct_conns ct ! c"
  have wild: "\<not> cc_wild ?conn"
    using run k c by (auto simp: send_call_def call_at_def sm_simps on_sock_def cconn_at_def split: if_splits)
  have "cc_sock ?conn \<noteq> None"
  proof
    assume none: "cc_sock ?conn = None"
    then have "fst (call_write_to P ?call ((), None)) = Inl (Undefined NullDeref)" by (simp add: call_write_to_def sm_simps)
    then show False
      using run k c wild none by (auto simp: send_call_def call_at_def sm_simps on_sock_def cconn_at_def split: prod.splits)
  qed
  then obtain s where s: "cc_sock ?conn = Some s" by auto
  from call_write_sends [OF net_duplex [OF net] p, of s] obtain s' where
    w: "call_write_to P ?call ((), Some s) = (Inr True, ((), Some s'))" "tx s' = tx s @ request_of ?call"
    by (auto simp: request_of_def)
  have ct': "ct' = ct\<lparr>ct_conns := (ct_conns ct)[c := ?conn\<lparr>cc_sock := Some s'\<rparr>]\<rparr>"
    using run k c wild s w(1) by (auto simp: send_call_def call_at_def sm_simps on_sock_def cconn_at_def)
  have "views tx ct' = (views tx ct)[c := (cc_calls ?conn, cc_last ?conn, sent_on tx ?conn @ request_of ?call)]"
    using c(2) s w(2) by (simp add: ct' views_def map_update cview_def sent_on_def)
  then show ?thesis using socks_ok_update [of ct "?conn\<lparr>cc_sock := Some s'\<rparr>" c] by (simp add: ct' conns_valid_def)
qed

section \<open>The invariant\<close>

fun call_added :: "caller_pc \<Rightarrow> bool" where
  "call_added CSend = True"
| "call_added CWait = True"
| "call_added CDone = True"
| "call_added _ = False"

fun call_sent :: "caller_pc \<Rightarrow> bool" where
  "call_sent CWait = True"
| "call_sent CDone = True"
| "call_sent _ = False"

lemma sent_added: "call_sent pc \<Longrightarrow> call_added pc"
  by (cases pc) simp_all

text \<open>The calls of connection \<open>c\<close> whose threads are at a point that satisfies \<open>S\<close>.\<close>

definition mine :: "client_call list \<Rightarrow> caller_pc list \<Rightarrow> nat \<Rightarrow> (caller_pc \<Rightarrow> bool) \<Rightarrow> nat set" where
  "mine calls callers c S = {k. k < length calls \<and> S (callers ! k) \<and> cl_conn (calls ! k) = Some c}"

text \<open>
  A call and its thread; a connection, whose table has the calls that have been added and whose
  socket has been given the requests of those that have been sent; a receiver.
\<close>

definition call_inv :: "nat \<Rightarrow> caller_pc \<Rightarrow> client_call \<Rightarrow> bool" where
  "call_inv n pc call \<longleftrightarrow> initialised (cl_param call) \<and> (cl_done call \<longrightarrow> cl_value call \<noteq> None) \<and> (pc = CDone \<longrightarrow> cl_done call) \<and>
     (call_added pc \<longrightarrow> (\<exists>c < n. cl_conn call = Some c)) \<and> (\<forall>c. pc = CAdd c \<longrightarrow> c < n)"

definition table_inv :: "client_call list \<Rightarrow> nat set \<Rightarrow> (i32 \<times> nat) list \<Rightarrow> i32 \<Rightarrow> bool" where
  "table_inv calls ks tab nxt \<longleftrightarrow> 0 \<le> sint nxt \<and> distinct (map fst tab) \<and>
     (\<forall>i \<in> fst ` set tab. 0 \<le> sint i \<and> sint i < sint nxt) \<and> set tab = (\<lambda>k. (cl_id (calls ! k), k)) ` ks"

definition stream_inv :: "client_call list \<Rightarrow> nat set \<Rightarrow> string \<Rightarrow> bool" where
  "stream_inv calls ks out \<longleftrightarrow> (\<exists>order. distinct order \<and> set order = ks \<and> out = concat (map (\<lambda>k. request_of (calls ! k)) order))"

definition conn_inv :: "client_call list \<Rightarrow> caller_pc list \<Rightarrow> nat \<Rightarrow> (i32 \<times> nat) list \<times> i32 \<times> string \<Rightarrow> bool" where
  "conn_inv calls callers c v \<longleftrightarrow> (case v of (tab, nxt, out) \<Rightarrow>
     table_inv calls (mine calls callers c call_added) tab nxt \<and> stream_inv calls (mine calls callers c call_sent) out)"

definition recv_inv :: "client_call list \<Rightarrow> caller_pc list \<Rightarrow> nat \<Rightarrow> receiver_pc \<Rightarrow> bool" where
  "recv_inv calls callers c pc \<longleftrightarrow>
     (\<forall>k. pc = VValue k \<or> (\<exists>w. pc = VSet k w) \<longrightarrow> k \<in> mine calls callers c call_added)"

definition client_inv :: "('s \<Rightarrow> string) \<Rightarrow> 's cl_config \<Rightarrow> bool" where
  "client_inv tx cg \<longleftrightarrow> (let ct = cg_client cg; calls = ct_calls ct; callers = cg_callers cg; n = length (ct_conns ct) in
     length callers = length calls \<and> length (cg_receivers cg) = n \<and> conns_valid ct \<and> socks_ok ct \<and>
     (\<forall>k < length calls. call_inv n (callers ! k) (calls ! k)) \<and>
     (\<forall>c < n. conn_inv calls callers c (views tx ct ! c)) \<and>
     (\<forall>c < n. recv_inv calls callers c (cg_receivers cg ! c)))"

lemma mine_subset: "mine calls callers c call_sent \<subseteq> mine calls callers c call_added"
  by (auto simp: mine_def sent_added)

lemma mine_update:
  assumes "k < length calls" and "length callers = length calls"
  shows "mine calls (callers[k := pc]) c S =
    (if S pc \<and> cl_conn (calls ! k) = Some c then insert k (mine calls callers c S) else mine calls callers c S - {k})"
  using assms by (auto simp: mine_def nth_list_update)

lemma mine_calls:
  assumes "\<And>k. k < length calls \<Longrightarrow> cl_conn (calls' ! k) = cl_conn (calls ! k)" and "length calls' = length calls"
  shows "mine calls' callers c S = mine calls callers c S"
  using assms by (auto simp: mine_def)

lemma mine_append:
  assumes "length callers = length calls" and "\<not> S pc"
  shows "mine (calls @ [call]) (callers @ [pc]) c S = mine calls callers c S"
  using assms by (auto simp: mine_def nth_append less_Suc_eq)

lemma conn_inv_frame:
  assumes "\<And>S. S = call_added \<or> S = call_sent \<Longrightarrow> mine calls' callers' c S = mine calls callers c S"
    and "\<And>k. k \<in> mine calls callers c call_added \<Longrightarrow> cl_id (calls' ! k) = cl_id (calls ! k) \<and> cl_param (calls' ! k) = cl_param (calls ! k)"
  shows "conn_inv calls' callers' c v = conn_inv calls callers c v"
proof -
  obtain tab nxt out where v: "v = (tab, nxt, out)" by (metis prod.exhaust)
  have "(\<lambda>k. (cl_id (calls' ! k), k)) ` mine calls callers c call_added = (\<lambda>k. (cl_id (calls ! k), k)) ` mine calls callers c call_added"
    using assms(2) by (intro image_cong) simp_all
  then have t: "table_inv calls' (mine calls callers c call_added) tab nxt = table_inv calls (mine calls callers c call_added) tab nxt"
    by (simp add: table_inv_def)
  have "map (\<lambda>k. request_of (calls' ! k)) order = map (\<lambda>k. request_of (calls ! k)) order"
    if "set order = mine calls callers c call_sent" for order
    using assms(2) mine_subset [of calls callers c] that by (auto simp: request_of_def)
  then have "stream_inv calls' (mine calls callers c call_sent) out = stream_inv calls (mine calls callers c call_sent) out"
    unfolding stream_inv_def by metis
  with t show ?thesis using assms(1) by (simp add: conn_inv_def v)
qed

text \<open>Calls whose ids, parameters and connections stay, with threads that stay or move on unseen.\<close>

lemma client_inv_frame:
  assumes inv: "client_inv tx cg"
    and ct: "length (ct_conns (cg_client cg')) = length (ct_conns (cg_client cg))" "views tx (cg_client cg') = views tx (cg_client cg)"
      "conns_valid (cg_client cg')" "socks_ok (cg_client cg')"
    and len: "length (ct_calls (cg_client cg')) = length (ct_calls (cg_client cg))" "length (cg_callers cg') = length (cg_callers cg)"
      "length (cg_receivers cg') = length (cg_receivers cg)"
    and pcs: "\<And>k. k < length (cg_callers cg) \<Longrightarrow> call_added (cg_callers cg' ! k) = call_added (cg_callers cg ! k) \<and>
      call_sent (cg_callers cg' ! k) = call_sent (cg_callers cg ! k)"
    and calls: "\<And>k. k < length (ct_calls (cg_client cg)) \<Longrightarrow>
      cl_id (ct_calls (cg_client cg') ! k) = cl_id (ct_calls (cg_client cg) ! k) \<and>
      cl_param (ct_calls (cg_client cg') ! k) = cl_param (ct_calls (cg_client cg) ! k) \<and>
      cl_conn (ct_calls (cg_client cg') ! k) = cl_conn (ct_calls (cg_client cg) ! k)"
    and callers: "\<And>k. k < length (ct_calls (cg_client cg)) \<Longrightarrow>
      call_inv (length (ct_conns (cg_client cg))) (cg_callers cg' ! k) (ct_calls (cg_client cg') ! k)"
    and receivers: "\<And>c. c < length (ct_conns (cg_client cg)) \<Longrightarrow>
      recv_inv (ct_calls (cg_client cg)) (cg_callers cg) c (cg_receivers cg' ! c)"
  shows "client_inv tx cg'"
proof -
  have lens: "length (cg_callers cg) = length (ct_calls (cg_client cg))" "length (cg_receivers cg) = length (ct_conns (cg_client cg))"
    using inv by (simp_all add: client_inv_def Let_def)
  have mine: "mine (ct_calls (cg_client cg')) (cg_callers cg') c S = mine (ct_calls (cg_client cg)) (cg_callers cg) c S"
    if "S = call_added \<or> S = call_sent" for c S
    using that pcs calls len lens by (auto simp: mine_def)
  have "conn_inv (ct_calls (cg_client cg')) (cg_callers cg') c v = conn_inv (ct_calls (cg_client cg)) (cg_callers cg) c v" for c v
    by (rule conn_inv_frame) (use mine calls in \<open>auto simp: mine_def\<close>)
  moreover have "recv_inv (ct_calls (cg_client cg')) (cg_callers cg') c pc = recv_inv (ct_calls (cg_client cg)) (cg_callers cg) c pc" for c pc
    using mine by (simp add: recv_inv_def)
  ultimately show ?thesis
    using inv ct len lens callers receivers by (simp add: client_inv_def Let_def)
qed

section \<open>Receivers keep the invariant\<close>

lemma cmoment_Inr:
  "cmoment m f cg = Inr cg' \<longleftrightarrow> (\<exists>a ct. m (cg_client cg) = (Inr a, ct) \<and> cg' = f a (cg\<lparr>cg_client := ct\<rparr>))"
  by (auto simp: cmoment_def split: prod.splits sum.splits)

lemma inv_lengths:
  assumes "client_inv tx cg"
  shows "length (cg_callers cg) = length (ct_calls (cg_client cg))" "length (cg_receivers cg) = length (ct_conns (cg_client cg))"
    "conns_valid (cg_client cg)" "socks_ok (cg_client cg)"
  using assms by (simp_all add: client_inv_def Let_def)

lemma inv_call: "client_inv tx cg \<Longrightarrow> k < length (ct_calls (cg_client cg)) \<Longrightarrow>
    call_inv (length (ct_conns (cg_client cg))) (cg_callers cg ! k) (ct_calls (cg_client cg) ! k)"
  by (simp add: client_inv_def Let_def)

lemma inv_conn: "client_inv tx cg \<Longrightarrow> c < length (ct_conns (cg_client cg)) \<Longrightarrow>
    conn_inv (ct_calls (cg_client cg)) (cg_callers cg) c (views tx (cg_client cg) ! c)"
  by (simp add: client_inv_def Let_def)

lemma inv_recv: "client_inv tx cg \<Longrightarrow> c < length (ct_conns (cg_client cg)) \<Longrightarrow>
    recv_inv (ct_calls (cg_client cg)) (cg_callers cg) c (cg_receivers cg ! c)"
  by (simp add: client_inv_def Let_def)

lemma same_view_conns: "same_view tx ct ct' \<Longrightarrow> length (ct_conns ct') = length (ct_conns ct)"
  by (metis length_views same_view_def)

lemma receiver_moment_inv:
  assumes inv: "client_inv tx cg" and ct: "same_view tx (cg_client cg) ct"
    and pc: "recv_inv (ct_calls (cg_client cg)) (cg_callers cg) c pc"
  shows "client_inv tx (receiver_to c pc (cg\<lparr>cg_client := ct\<rparr>))"
proof (rule client_inv_frame [OF inv])
  fix c'
  assume "c' < length (ct_conns (cg_client cg))"
  then show "recv_inv (ct_calls (cg_client cg)) (cg_callers cg) c' (cg_receivers (receiver_to c pc (cg\<lparr>cg_client := ct\<rparr>)) ! c')"
    using pc inv_recv [OF inv] inv_lengths(2) [OF inv] by (cases "c' = c") (simp_all add: receiver_to_def)
qed (use ct inv_lengths [OF inv] same_view_conns [OF ct] inv_call [OF inv] in \<open>simp_all add: receiver_to_def same_view_def\<close>)

lemma set_value_inv:
  assumes inv: "client_inv tx cg" and k: "k \<in> mine (ct_calls (cg_client cg)) (cg_callers cg) c call_added"
    and b: "cl_done (ct_calls (cg_client cg) ! k) \<longrightarrow> b"
    and ct: "ct = (cg_client cg)\<lparr>ct_calls := (ct_calls (cg_client cg))
      [k := (ct_calls (cg_client cg) ! k)\<lparr>cl_value := Some w, cl_done := b\<rparr>]\<rparr>"
  shows "client_inv tx (receiver_to c (VWait 0) (cg\<lparr>cg_client := ct\<rparr>))"
proof (rule client_inv_frame [OF inv])
  fix c'
  assume "c' < length (ct_conns (cg_client cg))"
  then show "recv_inv (ct_calls (cg_client cg)) (cg_callers cg) c' (cg_receivers (receiver_to c (VWait 0) (cg\<lparr>cg_client := ct\<rparr>)) ! c')"
    using inv_recv [OF inv] inv_lengths(2) [OF inv] by (cases "c' = c") (simp_all add: receiver_to_def recv_inv_def)
next
  fix j
  assume j: "j < length (ct_calls (cg_client cg))"
  show "call_inv (length (ct_conns (cg_client cg))) (cg_callers (receiver_to c (VWait 0) (cg\<lparr>cg_client := ct\<rparr>)) ! j)
      (ct_calls (cg_client (receiver_to c (VWait 0) (cg\<lparr>cg_client := ct\<rparr>))) ! j)"
    using inv_call [OF inv j] b j by (cases "j = k") (auto simp: receiver_to_def ct call_inv_def)
  show "cl_id (ct_calls (cg_client (receiver_to c (VWait 0) (cg\<lparr>cg_client := ct\<rparr>))) ! j) = cl_id (ct_calls (cg_client cg) ! j) \<and>
      cl_param (ct_calls (cg_client (receiver_to c (VWait 0) (cg\<lparr>cg_client := ct\<rparr>))) ! j) = cl_param (ct_calls (cg_client cg) ! j) \<and>
      cl_conn (ct_calls (cg_client (receiver_to c (VWait 0) (cg\<lparr>cg_client := ct\<rparr>))) ! j) = cl_conn (ct_calls (cg_client cg) ! j)"
    using j by (cases "j = k") (simp_all add: receiver_to_def ct)
qed (use inv_lengths [OF inv] in \<open>simp_all add: receiver_to_def ct views_def conns_valid_def socks_ok_def\<close>)

lemma table_lookup:
  assumes "conn_inv calls callers c v" and "map_of (fst v) i = Some k"
  shows "k \<in> mine calls callers c call_added \<and> cl_id (calls ! k) = i"
proof -
  have "(i, k) \<in> set (fst v)" using assms(2) by (rule map_of_SomeD)
  then show ?thesis using assms(1) by (auto simp: conn_inv_def table_inv_def split: prod.splits)
qed

text \<open>The moves of a receiver, with what each does to the client.\<close>

lemma set_value_effect:
  assumes "try_catch (client_set_value k w) (\<lambda>_. ret ()) ct = (Inr u, ct')"
  obtains b where "cl_done (ct_calls ct ! k) \<longrightarrow> b" and "b \<longrightarrow> cl_done (ct_calls ct ! k) \<or> w \<noteq> Writable"
    and "ct' = ct\<lparr>ct_calls := (ct_calls ct)[k := (ct_calls ct ! k)\<lparr>cl_value := Some w, cl_done := b\<rparr>]\<rparr>"
proof (cases "print_to_string w")
  case (Inl e)
  then show ?thesis
    using assms by (intro that [of "cl_done (ct_calls ct ! k)"])
      (auto simp: client_set_value_def set_call_def sm_simps split: fault.splits)
next
  case (Inr str)
  then have "w \<noteq> Writable" by (auto simp: print_to_string_def)
  moreover have "ct' = ct\<lparr>ct_calls := (ct_calls ct)[k := (ct_calls ct ! k)\<lparr>cl_value := Some w, cl_done := True\<rparr>]\<rparr>"
    using assms Inr by (cases "k < length (ct_calls ct)")
      (auto simp: client_set_value_def set_call_def sm_simps list_update_beyond)
  ultimately show ?thesis by (intro that [of True]) simp_all
qed

lemma receiver_stepE [consumes 2, case_names work again idle read find dropped valued set closed removed cleaned]:
  assumes st: "receiver_step P d c (cg_receivers cg ! c) cg = Some (Inr cg')" and c: "c < length (ct_conns (cg_client cg))"
  obtains
    n where "cg_receivers cg ! c = VWait n" "has_calls (ct_conns (cg_client cg) ! c)" "cg' = receiver_to c VRead cg"
  | n where "cg_receivers cg ! c = VWait n" "\<not> has_calls (ct_conns (cg_client cg) ! c)" "cg' = receiver_to c (VWait (Suc n)) cg"
  | n ct where "cg_receivers cg ! c = VWait n" "\<not> has_calls (ct_conns (cg_client cg) ! c)"
      "ct = (cg_client cg)\<lparr>ct_conns := (ct_conns (cg_client cg))[c := mark_closed (ct_conns (cg_client cg) ! c)]\<rparr>"
      "cg' = receiver_to c VClose (cg\<lparr>cg_client := ct\<rparr>)"
  | i ct where "cg_receivers cg ! c = VRead" "recv_id P c (cg_client cg) = (Inr (Some i), ct)"
      "cg' = receiver_to c (VFind i) (cg\<lparr>cg_client := ct\<rparr>)"
  | i k where "cg_receivers cg ! c = VFind i" "map_of (cc_calls (ct_conns (cg_client cg) ! c)) i = Some k"
      "cg' = receiver_to c (VValue k) cg"
  | k e ct where "cg_receivers cg ! c = VValue k" "recv_value P d c k (cg_client cg) = (Inl (Throw e), ct)"
      "cg' = receiver_to c (VWait 0) (cg\<lparr>cg_client := ct\<rparr>)"
  | k w ct where "cg_receivers cg ! c = VValue k" "recv_value P d c k (cg_client cg) = (Inr w, ct)"
      "cg' = receiver_to c (VSet k w) (cg\<lparr>cg_client := ct\<rparr>)"
  | k w b ct where "cg_receivers cg ! c = VSet k w"
      "cl_done (ct_calls (cg_client cg) ! k) \<longrightarrow> b" "b \<longrightarrow> cl_done (ct_calls (cg_client cg) ! k) \<or> w \<noteq> Writable"
      "ct = (cg_client cg)\<lparr>ct_calls := (ct_calls (cg_client cg))
        [k := (ct_calls (cg_client cg) ! k)\<lparr>cl_value := Some w, cl_done := b\<rparr>]\<rparr>"
      "cg' = receiver_to c (VWait 0) (cg\<lparr>cg_client := ct\<rparr>)"
  | u ct where "cg_receivers cg ! c = VClose" "client_close_sock P c (cg_client cg) = (Inr u, ct)"
      "cg' = receiver_to c VRemove (cg\<lparr>cg_client := ct\<rparr>)"
  | ep u ct where "cg_receivers cg ! c = VRemove" "cg_lock cg = None" "remove_connection P ep (cg_client cg) = (Inr u, ct)"
      "cg' = receiver_to c VClean (cg\<lparr>cg_client := ct\<rparr>)"
  | "cg_receivers cg ! c = VClean" "cc_calls (ct_conns (cg_client cg) ! c) = []" "cg' = receiver_to c VOff cg"
proof (cases "cg_receivers cg ! c")
  case (VWait n)
  show thesis
  proof (cases "has_calls (ct_conns (cg_client cg) ! c)")
    case True
    with st VWait show thesis using that(1) by simp
  next
    case False
    show thesis
    proof (cases "Suc n < max_wait_rep")
      case True
      with st VWait False show thesis using that(2) by simp
    next
      case last: False
      with st VWait False show thesis using that(3) by (simp add: cmoment_Inr set_cconn_def sm_simps)
    qed
  qed
next
  case VRead
  with st show thesis using that(4) by (auto simp: cmoment_Inr sm_simps split: prod.splits sum.splits option.splits)
next
  case (VFind i)
  with st show thesis using that(5) by (auto simp: cmoment_Inr recv_find_def sm_simps cconn_at_def split: if_splits option.splits)
next
  case (VValue k)
  obtain r ct where run: "recv_value P d c k (cg_client cg) = (r, ct)" by (metis prod.exhaust)
  then show thesis using st VValue that(6) [OF VValue] that(7) [OF VValue]
    by (auto simp: cmoment_Inr sm_simps split: sum.splits fault.splits)
next
  case (VSet k w)
  with st obtain ct u where run: "try_catch (client_set_value k w) (\<lambda>_. ret ()) (cg_client cg) = (Inr u, ct)"
    and cg': "cg' = receiver_to c (VWait 0) (cg\<lparr>cg_client := ct\<rparr>)" by (auto simp: cmoment_Inr)
  from run show thesis by (rule set_value_effect) (rule that(8) [OF VSet _ _ _ cg'])
next
  case VClose
  with st show thesis using that(9) by (auto simp: cmoment_Inr)
next
  case VRemove
  with st show thesis using that(10) by (auto simp: cmoment_Inr split: if_splits)
next
  case VClean
  with st c show thesis using that(11) by (auto simp: cmoment_Inr cleanup_calls_def cconn_at_def sm_simps set_cconn_def split: if_splits)
next
  case VOff
  with st show thesis by simp
qed

lemma receiver_step_inv:
  assumes net: "client_net P rx tx" and inv: "client_inv tx cg"
    and c: "c < length (cg_receivers cg)" "cc_recv_started (ct_conns (cg_client cg) ! c)"
    and st: "receiver_step P d c (cg_receivers cg ! c) cg = Some (Inr cg')"
  shows "client_inv tx cg'"
proof -
  have len: "c < length (ct_conns (cg_client cg))" using c(1) inv_lengths(2) [OF inv] by simp
  have sock: "cc_sock (ct_conns (cg_client cg) ! c) \<noteq> None"
    using inv_lengths(4) [OF inv] c(2) len by (simp add: socks_ok_def)
  have plain: "client_inv tx (receiver_to c pc (cg\<lparr>cg_client := ct\<rparr>))"
    if "same_view tx (cg_client cg) ct" "\<And>k w. pc \<noteq> VValue k \<and> pc \<noteq> VSet k w" for pc ct
    using receiver_moment_inv [OF inv that(1)] that(2) by (simp add: recv_inv_def)
  have still: "client_inv tx (receiver_to c pc cg)" if "\<And>k w. pc \<noteq> VValue k \<and> pc \<noteq> VSet k w" for pc
    using plain [OF same_view_refl that] by simp
  have old: "recv_inv (ct_calls (cg_client cg)) (cg_callers cg) c (cg_receivers cg ! c)" by (rule inv_recv [OF inv len])
  from st len show ?thesis
  proof (cases rule: receiver_stepE)
    case (idle n ct)
    show ?thesis unfolding idle(4) by (rule plain [OF mark_closed_effect [OF _ len]]) (simp_all add: idle(3) set_cconn_def sm_simps)
  next
    case (read i ct)
    show ?thesis unfolding read(3) by (rule plain [OF recv_id_effect [OF net read(2) sock]]) simp
  next
    case (find i k)
    from table_lookup [OF inv_conn [OF inv len], of i k] find(2) have "k \<in> mine (ct_calls (cg_client cg)) (cg_callers cg) c call_added"
      by (simp add: views_nth len cview_def)
    with receiver_moment_inv [OF inv same_view_refl, of c "VValue k"] show ?thesis by (simp add: find(3) recv_inv_def)
  next
    case (dropped k e ct)
    show ?thesis unfolding dropped(3) by (rule plain [OF recv_value_effect [OF net dropped(2) sock]]) simp
  next
    case (valued k w ct)
    with old have "recv_inv (ct_calls (cg_client cg)) (cg_callers cg) c (VSet k w)" by (simp add: recv_inv_def)
    with receiver_moment_inv [OF inv recv_value_effect [OF net valued(2) sock]] show ?thesis unfolding valued(3) by blast
  next
    case (set k w b ct)
    with old have "k \<in> mine (ct_calls (cg_client cg)) (cg_callers cg) c call_added" by (simp add: recv_inv_def)
    from set_value_inv [OF inv this set(2,4)] show ?thesis unfolding set(5) .
  next
    case (closed u ct)
    show ?thesis unfolding closed(3) by (rule plain [OF close_sock_effect [OF net]]) (use closed(2) in simp_all)
  next
    case (removed ep u ct)
    show ?thesis unfolding removed(4) by (rule plain [OF remove_connection_effect [OF removed(3)]]) simp
  qed (simp_all add: still)
qed

section \<open>Callers keep the invariant\<close>

text \<open>
  When the thread of call \<open>k\<close> moves, the other calls and threads stay as they are; what has to be
  shown is what it does to the connections.
\<close>

lemma caller_inv:
  assumes inv: "client_inv tx cg" and k: "k < length (cg_callers cg)"
    and lens: "length (ct_calls ct) = length (ct_calls (cg_client cg))" "length rs = length (ct_conns ct)"
      "length (ct_conns (cg_client cg)) \<le> length (ct_conns ct)" "conns_valid ct" "socks_ok ct"
    and others: "\<And>j. j \<noteq> k \<Longrightarrow> ct_calls ct ! j = ct_calls (cg_client cg) ! j"
    and call: "call_inv (length (ct_conns ct)) pc (ct_calls ct ! k)"
    and conns: "\<And>c. c < length (ct_conns ct) \<Longrightarrow> conn_inv (ct_calls ct) ((cg_callers cg)[k := pc]) c (views tx ct ! c)"
    and recvs: "\<And>c. c < length (ct_conns ct) \<Longrightarrow> recv_inv (ct_calls ct) ((cg_callers cg)[k := pc]) c (rs ! c)"
    and cg': "cg_client cg' = ct" "cg_callers cg' = (cg_callers cg)[k := pc]" "cg_receivers cg' = rs"
  shows "client_inv tx cg'"
proof -
  have "call_inv (length (ct_conns ct)) ((cg_callers cg)[k := pc] ! j) (ct_calls ct ! j)" if "j < length (ct_calls ct)" for j
  proof (cases "j = k")
    case True
    with call k show ?thesis by simp
  next
    case False
    with inv_call [OF inv, of j] that lens(1,3) others [OF False] show ?thesis
      by (auto simp: call_inv_def intro: less_le_trans)
  qed
  then show ?thesis using lens conns recvs inv_lengths(1) [OF inv] by (simp add: client_inv_def Let_def cg')
qed

lemma recv_inv_mono:
  "recv_inv calls callers c pc \<Longrightarrow> mine calls callers c call_added \<subseteq> mine calls' callers' c call_added \<Longrightarrow>
   recv_inv calls' callers' c pc"
  by (auto simp: recv_inv_def)

lemma empty_conn: "mine calls callers c call_added = {} \<Longrightarrow> conn_inv calls callers c ([], 0, [])"
  using mine_subset [of calls callers c] by (auto simp: conn_inv_def table_inv_def stream_inv_def)

lemma mine_bound:
  assumes "client_inv tx cg" and "length (ct_conns (cg_client cg)) \<le> c"
  shows "mine (ct_calls (cg_client cg)) (cg_callers cg) c call_added = {}"
  using inv_call [OF assms(1)] assms(2) by (fastforce simp: mine_def call_inv_def)

lemma find_step_inv:
  assumes net: "client_net P rx tx" and inv: "client_inv tx cg" and k: "k < length (cg_callers cg)" "cg_callers cg ! k = CFind ep"
    and run: "find_connect P zeroed ep (cg_client cg) = (Inr c, ct)"
  shows "client_inv tx (pad_receivers (caller_to k (CAdd c) (cg\<lparr>cg_client := ct, cg_lock := l\<rparr>)))"
proof -
  let ?ct = "cg_client cg" and ?calls = "ct_calls (cg_client cg)" and ?callers = "cg_callers cg"
  let ?rs = "cg_receivers cg @ replicate (length (ct_conns ct) - length (cg_receivers cg)) (VWait 0)"
  note lens = inv_lengths [OF inv]
  note eff = find_connect_effect [OF net run lens(3,4)]
  have len: "length (ct_conns ?ct) \<le> length (ct_conns ct)" using eff by (metis le_add1 length_append length_views order_refl)
  have kk: "k < length ?calls" using k(1) lens(1) by simp
  have mine: "mine ?calls (?callers[k := CAdd c]) c' S = mine ?calls ?callers c' S" if "S = call_added \<or> S = call_sent" for c' S
    using that k kk lens(1) by (auto simp: mine_update) (auto simp: mine_def)
  show ?thesis
  proof (rule caller_inv [OF inv k(1), where ct = ct and pc = "CAdd c" and rs = ?rs])
    show "call_inv (length (ct_conns ct)) (CAdd c) (ct_calls ct ! k)"
      using inv_call [OF inv kk] eff k(2) by (auto simp: call_inv_def)
  next
    fix c'
    assume c': "c' < length (ct_conns ct)"
    have "conn_inv ?calls ?callers c' (views tx ct ! c')"
    proof (cases "c' < length (ct_conns ?ct)")
      case True
      then have "views tx ct ! c' = views tx ?ct ! c'" using eff by (auto simp: nth_append)
      with inv_conn [OF inv True] show ?thesis by simp
    next
      case False
      then have "views tx ct \<noteq> views tx ?ct" using c' by (metis length_views)
      then have new: "views tx ct = views tx ?ct @ [([], 0, [])]" using eff by blast
      then have "length (ct_conns ct) = Suc (length (ct_conns ?ct))" by (metis length_append_singleton length_views)
      then have "c' = length (views tx ?ct)" using False c' by simp
      then have "views tx ct ! c' = ([], 0, [])" unfolding new by (simp only: nth_append_length)
      with empty_conn mine_bound [OF inv] False show ?thesis by simp
    qed
    then show "conn_inv (ct_calls ct) (?callers[k := CAdd c]) c' (views tx ct ! c')"
      using conn_inv_frame [of ?calls "?callers[k := CAdd c]" c' ?calls ?callers] mine eff by simp
    show "recv_inv (ct_calls ct) (?callers[k := CAdd c]) c' (?rs ! c')"
      using inv_recv [OF inv, of c'] lens(2) mine eff c' by (auto simp: recv_inv_def nth_append)
  qed (use eff len lens in \<open>simp_all add: pad_receivers_def caller_to_def\<close>)
qed

lemma table_add:
  assumes tab: "table_inv calls ks tab i" and k: "k \<notin> ks" and i: "sint (i + 1) = sint i + 1"
    and calls': "\<And>j. j \<noteq> k \<Longrightarrow> calls' ! j = calls ! j" "cl_id (calls' ! k) = i"
  shows "map_of tab i = None \<and> table_inv calls' (insert k ks) ((i, k) # tab) (i + 1)"
proof
  have new: "i \<notin> fst ` set tab" using tab by (auto simp: table_inv_def)
  then show "map_of tab i = None" by (simp add: map_of_eq_None_iff)
  have "(\<lambda>j. (cl_id (calls' ! j), j)) ` ks = (\<lambda>j. (cl_id (calls ! j), j)) ` ks"
    using k calls'(1) by (intro image_cong refl) (metis prod.inject)
  then show "table_inv calls' (insert k ks) ((i, k) # tab) (i + 1)"
    using tab new i calls'(2) by (auto simp: table_inv_def intro: less_imp_le)
qed

lemma stream_inv_same:
  "stream_inv calls ks out \<Longrightarrow> (\<And>k. k \<in> ks \<Longrightarrow> calls' ! k = calls ! k) \<Longrightarrow> stream_inv calls' ks out"
  unfolding stream_inv_def by (metis (mono_tags, lifting) map_cong)

lemma stream_send:
  assumes "stream_inv calls ks out" and "k \<notin> ks"
  shows "stream_inv calls (insert k ks) (out @ request_of (calls ! k))"
proof -
  obtain order where "distinct order" "set order = ks" "out = concat (map (\<lambda>k. request_of (calls ! k)) order)"
    using assms(1) by (auto simp: stream_inv_def)
  then show ?thesis using assms(2) unfolding stream_inv_def by (intro exI [of _ "order @ [k]"]) auto
qed

text \<open>The calls of each connection when call \<open>k\<close> is added to connection \<open>c\<close> with the id \<open>i\<close>.\<close>

lemma mine_add:
  assumes k: "k < length calls" "k < length callers" "callers ! k = CAdd c0"
    and calls': "calls' = calls[k := (calls ! k)\<lparr>cl_id := i, cl_conn := Some c\<rparr>]"
  shows "mine calls' (callers[k := CSend]) c' call_added =
      (if c' = c then insert k (mine calls callers c call_added) else mine calls callers c' call_added)"
    and "mine calls' (callers[k := CSend]) c' call_sent = mine calls callers c' call_sent"
    and "k \<notin> mine calls callers c' call_added"
  using k by (auto simp: mine_def calls' nth_list_update split: if_splits)

lemma conn_inv_add:
  assumes k: "k < length calls" "k < length callers" "callers ! k = CAdd c0"
    and calls': "calls' = calls[k := (calls ! k)\<lparr>cl_id := i, cl_conn := Some c\<rparr>]"
    and inv: "conn_inv calls callers c (tab, i, out)" and nxt: "sint (i + 1) = sint i + 1"
  shows "conn_inv calls' (callers[k := CSend]) c ((i, k) # tab, i + 1, out)"
proof -
  note mine = mine_add [OF k calls']
  have same: "calls' ! j = calls ! j" if "j \<noteq> k" for j using that by (simp add: calls')
  have tab: "table_inv calls (mine calls callers c call_added) tab i" and out: "stream_inv calls (mine calls callers c call_sent) out"
    using inv by (simp_all add: conn_inv_def)
  have "table_inv calls' (insert k (mine calls callers c call_added)) ((i, k) # tab) (i + 1)"
    using table_add [OF tab mine(3) nxt, of calls'] same k(1) by (simp add: calls')
  moreover have "stream_inv calls' (mine calls callers c call_sent) out"
  proof (rule stream_inv_same [OF out])
    fix j
    assume "j \<in> mine calls callers c call_sent"
    then show "calls' ! j = calls ! j" using mine_subset [of calls callers c] mine(3) [of c] by (intro same) blast
  qed
  ultimately show ?thesis by (simp add: conn_inv_def mine(1,2))
qed

lemma conn_inv_add_other:
  assumes k: "k < length calls" "k < length callers" "callers ! k = CAdd c0"
    and calls': "calls' = calls[k := (calls ! k)\<lparr>cl_id := i, cl_conn := Some c\<rparr>]" and other: "c' \<noteq> c"
  shows "conn_inv calls' (callers[k := CSend]) c' v = conn_inv calls callers c' v"
proof (rule conn_inv_frame)
  note mine = mine_add [OF k calls']
  show "mine calls' (callers[k := CSend]) c' S = mine calls callers c' S" if "S = call_added \<or> S = call_sent" for S
    using that mine(1,2) [of c'] other by auto
  show "cl_id (calls' ! j) = cl_id (calls ! j) \<and> cl_param (calls' ! j) = cl_param (calls ! j)" if "j \<in> mine calls callers c' call_added" for j
    using that mine(3) [of c'] by (cases "j = k") (simp_all add: calls')
qed

lemma add_step_inv:
  assumes inv: "client_inv tx cg" and k: "k < length (cg_callers cg)" "cg_callers cg ! k = CAdd c"
    and run: "add_to_conn c k (cg_client cg) = (Inr ok, ct)"
  shows "client_inv tx (caller_to k (if ok then CSend else CNull) (cg\<lparr>cg_client := ct, cg_lock := l\<rparr>))"
proof -
  let ?ct = "cg_client cg" and ?calls = "ct_calls (cg_client cg)" and ?callers = "cg_callers cg"
  let ?conn = "ct_conns ?ct ! c" and ?i = "cc_last (ct_conns ?ct ! c)"
  note lens = inv_lengths [OF inv]
  have kk: "k < length ?calls" using k(1) lens(1) by simp
  have c: "c < length (ct_conns ?ct)" using inv_call [OF inv kk] k(2) by (simp add: call_inv_def)
  have here: "conn_inv ?calls ?callers c (cc_calls ?conn, ?i, sent_on tx ?conn)"
    using inv_conn [OF inv c] by (simp add: views_nth c cview_def)
  have "?i \<notin> fst ` set (cc_calls ?conn)" using here by (auto simp: conn_inv_def table_inv_def)
  then have "map_of (cc_calls ?conn) ?i = None" by (simp add: map_of_eq_None_iff)
  note eff = add_to_conn_effect [OF run c kk this, of tx, unfolded Let_def]
  have calls: "ct_calls ct = ?calls[k := (?calls ! k)\<lparr>cl_id := ?i, cl_conn := Some c\<rparr>]" and ok
    and nxt: "sint (?i + 1) = sint ?i + 1"
    and views: "views tx ct = (views tx ?ct)[c := ((?i, k) # cc_calls ?conn, ?i + 1, sent_on tx ?conn)]"
    using eff by simp_all
  note mine = mine_add [OF kk k calls]
  have len: "length (ct_conns ct) = length (ct_conns ?ct)" using views by (metis length_list_update length_views)
  have "client_inv tx (caller_to k CSend (cg\<lparr>cg_client := ct, cg_lock := l\<rparr>))"
  proof (rule caller_inv [OF inv k(1), where ct = ct and pc = CSend and rs = "cg_receivers cg"])
    show "call_inv (length (ct_conns ct)) CSend (ct_calls ct ! k)"
      using inv_call [OF inv kk] c kk by (auto simp: call_inv_def calls len)
  next
    fix c'
    assume c': "c' < length (ct_conns ct)"
    show "conn_inv (ct_calls ct) (?callers[k := CSend]) c' (views tx ct ! c')"
      using conn_inv_add [OF kk k calls here nxt] conn_inv_add_other [OF kk k calls, of c'] inv_conn [OF inv, of c'] c' c
      by (cases "c' = c") (simp_all add: views len)
    show "recv_inv (ct_calls ct) (?callers[k := CSend]) c' (cg_receivers cg ! c')"
      by (rule recv_inv_mono [OF inv_recv [OF inv]]) (use c' mine(1) in \<open>auto simp: len\<close>)
  qed (use eff len lens in \<open>simp_all add: caller_to_def\<close>)
  with \<open>ok\<close> show ?thesis by simp
qed

lemma send_step_inv:
  assumes net: "client_net P rx tx" and inv: "client_inv tx cg" and k: "k < length (cg_callers cg)" "cg_callers cg ! k = CSend"
    and run: "send_call P k (cg_client cg) = (Inr b, ct)"
  shows "client_inv tx (caller_to k CWait (cg\<lparr>cg_client := ct\<rparr>))"
proof -
  let ?ct = "cg_client cg" and ?calls = "ct_calls (cg_client cg)" and ?callers = "cg_callers cg"
  let ?callers' = "?callers[k := CWait]"
  note lens = inv_lengths [OF inv]
  have kk: "k < length ?calls" using k(1) lens(1) by simp
  obtain c where c: "c < length (ct_conns ?ct)" "cl_conn (?calls ! k) = Some c"
    using inv_call [OF inv kk] k(2) by (auto simp: call_inv_def)
  let ?conn = "ct_conns ?ct ! c"
  have p: "initialised (cl_param (?calls ! k))" using inv_call [OF inv kk] by (simp add: call_inv_def)
  note eff = send_call_effect [OF net run kk c(2,1) p]
  have calls: "ct_calls ct = ?calls"
    and views: "views tx ct = (views tx ?ct)[c := (cc_calls ?conn, cc_last ?conn, sent_on tx ?conn @ request_of (?calls ! k))]"
    using eff by simp_all
  have len: "length (ct_conns ct) = length (ct_conns ?ct)" using views by (metis length_list_update length_views)
  have added: "mine ?calls ?callers' c' call_added = mine ?calls ?callers c' call_added" for c'
    using kk k lens(1) by (auto simp: mine_def nth_list_update split: if_splits)
  have sent: "mine ?calls ?callers' c' call_sent =
      (if c' = c then insert k (mine ?calls ?callers c call_sent) else mine ?calls ?callers c' call_sent)" for c'
    using kk k lens(1) c by (auto simp: mine_def nth_list_update split: if_splits)
  show ?thesis
  proof (rule caller_inv [OF inv k(1), where ct = ct and pc = CWait and rs = "cg_receivers cg"])
    show "call_inv (length (ct_conns ct)) CWait (ct_calls ct ! k)"
      using inv_call [OF inv kk] c by (auto simp: call_inv_def calls len)
  next
    fix c'
    assume c': "c' < length (ct_conns ct)"
    show "conn_inv (ct_calls ct) ?callers' c' (views tx ct ! c')"
    proof (cases "c' = c")
      case True
      have "k \<notin> mine ?calls ?callers c call_sent" using k(2) by (simp add: mine_def)
      moreover have "table_inv ?calls (mine ?calls ?callers c call_added) (cc_calls ?conn) (cc_last ?conn)"
        "stream_inv ?calls (mine ?calls ?callers c call_sent) (sent_on tx ?conn)"
        using inv_conn [OF inv c(1)] by (simp_all add: conn_inv_def views_nth c cview_def)
      ultimately show ?thesis using c(1) by (simp add: True views conn_inv_def added sent calls stream_send)
    next
      case False
      then have "conn_inv ?calls ?callers' c' v = conn_inv ?calls ?callers c' v" for v
        using added sent by (simp add: conn_inv_def)
      then show ?thesis using inv_conn [OF inv, of c'] c' False by (simp add: views len calls)
    qed
    show "recv_inv (ct_calls ct) ?callers' c' (cg_receivers cg ! c')"
      using inv_recv [OF inv, of c'] c' added by (simp add: recv_inv_def calls len)
  qed (use eff len lens in \<open>simp_all add: caller_to_def\<close>)
qed

lemma caller_step_inv:
  assumes net: "client_net P rx tx" and inv: "client_inv tx cg" and k: "k < length (cg_callers cg)"
    and st: "caller_step P zeroed k (cg_callers cg ! k) cg = Some (Inr cg')"
  shows "client_inv tx cg'"
proof (cases "cg_callers cg ! k")
  case (CFind ep)
  with st show ?thesis by (auto simp: cmoment_Inr split: if_splits intro: find_step_inv [OF net inv k])
next
  case (CAdd c)
  with st show ?thesis by (auto simp: cmoment_Inr simp del: if_split intro: add_step_inv [OF inv k])
next
  case CSend
  with st show ?thesis by (auto simp: cmoment_Inr intro: send_step_inv [OF net inv k])
next
  case CWait
  then have "cg' = caller_to k CDone cg" and fin: "cl_done (ct_calls (cg_client cg) ! k)" using st by (auto split: if_splits)
  moreover have "client_inv tx (caller_to k CDone cg)"
  proof (rule client_inv_frame [OF inv])
    fix j
    assume "j < length (ct_calls (cg_client cg))"
    then show "call_inv (length (ct_conns (cg_client cg))) (cg_callers (caller_to k CDone cg) ! j) (ct_calls (cg_client (caller_to k CDone cg)) ! j)"
      using inv_call [OF inv, of j] fin CWait k by (cases "j = k") (simp_all add: caller_to_def call_inv_def)
  qed (use CWait k inv_lengths [OF inv] inv_recv [OF inv] in \<open>auto simp: caller_to_def nth_list_update\<close>)
  ultimately show ?thesis by simp
qed (use st in simp_all)

section \<open>The environment keeps the invariant\<close>

lemma new_call_inv:
  assumes inv: "client_inv tx cg" and p: "initialised p"
  shows "client_inv tx (cg\<lparr>
     cg_client := (cg_client cg)\<lparr>ct_calls := ct_calls (cg_client cg) @ [client_call_new p vc]\<rparr>,
     cg_callers := cg_callers cg @ [CFind ep]\<rparr>)"
proof -
  let ?ct = "cg_client cg" and ?calls = "ct_calls (cg_client cg)" and ?callers = "cg_callers cg"
  let ?calls' = "?calls @ [client_call_new p vc]" and ?callers' = "?callers @ [CFind ep]"
  let ?ct' = "?ct\<lparr>ct_calls := ?calls'\<rparr>"
  note lens = inv_lengths [OF inv]
  have mine: "mine ?calls' ?callers' c S = mine ?calls ?callers c S" if "S = call_added \<or> S = call_sent" for c S
    by (rule mine_append [OF lens(1)]) (use that in auto)
  have "call_inv (length (ct_conns ?ct)) (?callers' ! j) (?calls' ! j)" if "j < Suc (length ?calls)" for j
    using that inv_call [OF inv, of j] p lens(1)
    by (cases "j = length ?calls") (simp_all add: nth_append call_inv_def client_call_new_def)
  moreover have "conn_inv ?calls' ?callers' c (views tx ?ct' ! c)" if "c < length (ct_conns ?ct)" for c
  proof -
    have "conn_inv ?calls' ?callers' c v = conn_inv ?calls ?callers c v" for v
      by (rule conn_inv_frame) (use mine in \<open>auto simp: mine_def nth_append\<close>)
    with inv_conn [OF inv that] show ?thesis by (simp add: views_def)
  qed
  moreover have "recv_inv ?calls' ?callers' c (cg_receivers cg ! c)" if "c < length (ct_conns ?ct)" for c
    using recv_inv_mono [OF inv_recv [OF inv that], of ?calls' ?callers'] mine by simp
  ultimately show ?thesis using lens by (simp add: client_inv_def Let_def conns_valid_def socks_ok_def)
qed

lemma arrive_inv:
  assumes inv: "client_inv tx cg" and c: "c < length (ct_conns (cg_client cg))" "cc_sock (ct_conns (cg_client cg) ! c) \<noteq> None"
    and s: "tx s = sent_on tx (ct_conns (cg_client cg) ! c)"
  shows "client_inv tx (cg\<lparr>cg_client := (cg_client cg)\<lparr>ct_conns := (ct_conns (cg_client cg))
        [c := (ct_conns (cg_client cg) ! c)\<lparr>cc_sock := Some s\<rparr>]\<rparr>\<rparr>)"
proof -
  have view: "same_view tx (cg_client cg) ((cg_client cg)\<lparr>ct_conns := (ct_conns (cg_client cg))
        [c := (ct_conns (cg_client cg) ! c)\<lparr>cc_sock := Some s\<rparr>]\<rparr>)"
    using c s by (intro same_view_update) (simp_all add: cview_def sent_on_def)
  show ?thesis
    by (rule client_inv_frame [OF inv])
      (use view inv_lengths [OF inv] inv_call [OF inv] inv_recv [OF inv] in \<open>simp_all add: same_view_def\<close>)
qed

lemma client_step_inv:
  assumes net: "client_net P rx tx" and inv: "client_inv tx cg" and fair: "fair_action tx a cg"
    and st: "client_step P zeroed d a cg = Some (Inr cg')"
  shows "client_inv tx cg'"
proof (cases a)
  case (NewCall p vc ep)
  with st fair show ?thesis using new_call_inv [OF inv] by auto
next
  case (CallerMove k)
  with st show ?thesis using caller_step_inv [OF net inv] by (auto split: if_splits)
next
  case (ReceiverMove c)
  with st show ?thesis using receiver_step_inv [OF net inv] by (auto split: if_splits)
next
  case (Arrive c s)
  with st fair show ?thesis using arrive_inv [OF inv] by (auto split: if_splits)
qed

theorem client_reachable_inv:
  assumes net: "client_net P rx tx" and "client_reachable P tx zeroed d cg"
  shows "client_inv tx cg"
  using assms(2)
proof induction
  case start
  show ?case by (simp add: client_inv_def cl_init_def client_new_def conns_valid_def socks_ok_def Let_def)
next
  case (move cg a cg')
  show ?case by (rule client_step_inv [OF net move.IH move.hyps(2,3)])
qed

end
