(* ===== verification/Client_Life.thy ===== *)
theory Client_Life
  imports Client_Invariant
begin

text \<open>
  The life of a connection of a client whose threads run at the same time: which of its flags go
  with which point of its receiver, that every connection has a socket, that a receiver that is
  busy has calls, and who holds \<open>_mutex_client\<close>. From it follow the causes of every fault.
\<close>

section \<open>A connection and its receiver\<close>

fun closing :: "receiver_pc \<Rightarrow> bool" where
  "closing VClose = True"
| "closing VRemove = True"
| "closing VClean = True"
| "closing VOff = True"
| "closing _ = False"

fun closed :: "receiver_pc \<Rightarrow> bool" where
  "closed VRemove = True"
| "closed VClean = True"
| "closed VOff = True"
| "closed _ = False"

fun busy :: "receiver_pc \<Rightarrow> bool" where
  "busy VRead = True"
| "busy (VFind i) = True"
| "busy (VValue k) = True"
| "busy (VSet k w) = True"
| "busy _ = False"

lemma closed_closing: "closed pc \<Longrightarrow> closing pc"
  by (cases pc) simp_all

definition recv_life :: "receiver_pc \<Rightarrow> 's client_conn \<Rightarrow> bool" where
  "recv_life pc conn \<longleftrightarrow> cc_sock conn \<noteq> None \<and> (cc_should_close conn \<longleftrightarrow> closing pc) \<and> (cc_wild conn \<longleftrightarrow> closed pc) \<and>
     (busy pc \<longrightarrow> cc_calls conn \<noteq> [])"

definition lock_inv :: "caller_pc list \<Rightarrow> nat option \<Rightarrow> bool" where
  "lock_inv callers lock \<longleftrightarrow> (\<forall>k < length callers. (\<exists>c. callers ! k = CAdd c) \<longleftrightarrow> lock = Some k) \<and>
     (\<forall>k. lock = Some k \<longrightarrow> k < length callers)"

definition life_inv :: "'s cl_config \<Rightarrow> bool" where
  "life_inv cg \<longleftrightarrow> lock_inv (cg_callers cg) (cg_lock cg) \<and>
     (\<forall>c < length (ct_conns (cg_client cg)). recv_life (cg_receivers cg ! c) (ct_conns (cg_client cg) ! c))"

lemma life_conn: "life_inv cg \<Longrightarrow> c < length (ct_conns (cg_client cg)) \<Longrightarrow>
    recv_life (cg_receivers cg ! c) (ct_conns (cg_client cg) ! c)"
  by (simp add: life_inv_def)

lemma life_lock: "life_inv cg \<Longrightarrow> lock_inv (cg_callers cg) (cg_lock cg)"
  by (simp add: life_inv_def)

text \<open>Only the socket of connection \<open>c\<close> changes, and it is not null.\<close>

definition resocked :: "nat \<Rightarrow> 's client \<Rightarrow> 's client \<Rightarrow> bool" where
  "resocked c ct ct' \<longleftrightarrow> (\<exists>p. p \<noteq> None \<and> ct_conns ct' = (ct_conns ct)[c := (ct_conns ct ! c)\<lparr>cc_sock := p\<rparr>])"

lemma resock_id: "cc_sock conn = p \<Longrightarrow> conn\<lparr>cc_sock := p\<rparr> = conn"
  by (cases conn) simp

lemma resocked_same:
  assumes "ct_conns ct' = ct_conns ct" and "c < length (ct_conns ct) \<Longrightarrow> cc_sock (ct_conns ct ! c) \<noteq> None"
  shows "resocked c ct ct'"
proof (cases "c < length (ct_conns ct)")
  case True
  with assms show ?thesis
    by (auto simp: resocked_def resock_id list_update_id intro!: exI [of _ "cc_sock (ct_conns ct ! c)"])
next
  case False
  with assms show ?thesis by (auto simp: resocked_def list_update_beyond)
qed

lemma recv_life_resock: "recv_life pc conn \<Longrightarrow> p \<noteq> None \<Longrightarrow> recv_life pc (conn\<lparr>cc_sock := p\<rparr>)"
  by (simp add: recv_life_def)

lemma on_sock_resocked:
  assumes keep: "\<And>s r x' p'. m (x, Some s) = (r, (x', p')) \<Longrightarrow> p' \<noteq> None"
    and run: "on_sock c x m ct = (r, ct')" and sock: "c < length (ct_conns ct) \<Longrightarrow> cc_sock (ct_conns ct ! c) \<noteq> None"
  shows "resocked c ct ct'"
  using on_sock_effect [OF run]
proof
  assume "ct' = ct"
  then show ?thesis using sock by (intro resocked_same) simp_all
next
  assume "c < length (ct_conns ct) \<and> (\<exists>r' x' p'. m (x, cc_sock (ct_conns ct ! c)) = (r', (x', p')) \<and>
     ct' = ct\<lparr>ct_conns := (ct_conns ct)[c := (ct_conns ct ! c)\<lparr>cc_sock := p'\<rparr>]\<rparr>)"
  then obtain r' x' p' where c: "c < length (ct_conns ct)" and m: "m (x, cc_sock (ct_conns ct ! c)) = (r', (x', p'))"
    and ct': "ct' = ct\<lparr>ct_conns := (ct_conns ct)[c := (ct_conns ct ! c)\<lparr>cc_sock := p'\<rparr>]\<rparr>" by blast
  obtain s where "cc_sock (ct_conns ct ! c) = Some s" using sock [OF c] by auto
  with keep m have "p' \<noteq> None" by auto
  then show ?thesis using ct' by (auto simp: resocked_def)
qed

lemma silent_keeps: "silent tx m \<Longrightarrow> m (x, Some s) = (r, (x', p')) \<Longrightarrow> p' \<noteq> None"
  unfolding silent_def by (metis option.distinct(1) prod.inject)

section \<open>Receivers\<close>

lemma recv_life_closed: "recv_life (VWait n) conn \<Longrightarrow> recv_life VClose (mark_closed conn)"
  by (simp add: recv_life_def mark_closed_def)

lemma receiver_life:
  assumes life: "life_inv cg" and len: "length (cg_receivers cg) = length (ct_conns (cg_client cg))"
    and ct: "ct_conns ct = (ct_conns (cg_client cg))[c := conn]"
    and pc: "c < length (ct_conns (cg_client cg)) \<Longrightarrow> recv_life pc conn"
  shows "life_inv (receiver_to c pc (cg\<lparr>cg_client := ct\<rparr>))"
proof -
  have "recv_life ((cg_receivers cg)[c := pc] ! j) (ct_conns ct ! j)" if "j < length (ct_conns ct)" for j
    using life_conn [OF life, of j] len ct pc that by (cases "j = c") simp_all
  then show ?thesis using life_lock [OF life] by (simp add: life_inv_def receiver_to_def)
qed

lemma receiver_life_same:
  assumes "life_inv cg" and "length (cg_receivers cg) = length (ct_conns (cg_client cg))"
    and "ct_conns ct = ct_conns (cg_client cg)"
    and "c < length (ct_conns (cg_client cg)) \<Longrightarrow> recv_life pc (ct_conns (cg_client cg) ! c)"
  shows "life_inv (receiver_to c pc (cg\<lparr>cg_client := ct\<rparr>))"
  using receiver_life [OF assms(1,2), of ct c "ct_conns (cg_client cg) ! c"] assms(3,4) by simp

lemma receiver_life_resocked:
  assumes "life_inv cg" and "length (cg_receivers cg) = length (ct_conns (cg_client cg))"
    and "resocked c (cg_client cg) ct"
    and "c < length (ct_conns (cg_client cg)) \<Longrightarrow> recv_life pc (ct_conns (cg_client cg) ! c)"
  shows "life_inv (receiver_to c pc (cg\<lparr>cg_client := ct\<rparr>))"
  using assms(3,4) by (auto simp: resocked_def intro!: receiver_life [OF assms(1,2)] recv_life_resock)

lemma recv_id_resocked:
  assumes "client_net P rx tx" and "recv_id P c ct = (r, ct')" and "c < length (ct_conns ct) \<Longrightarrow> cc_sock (ct_conns ct ! c) \<noteq> None"
  shows "resocked c ct ct'"
proof -
  obtain r1 ct1 where run: "on_sock c () (sock_read P 4) ct = (r1, ct1)" by (metis prod.exhaust)
  then have "ct' = ct1" using assms(2)
    by (auto simp: recv_id_def sm_simps split: sum.splits fault.splits prod.splits)
  with on_sock_resocked [OF silent_keeps [OF silent_sock_read [OF net_duplex [OF assms(1)]]] run assms(3)] show ?thesis by simp
qed

lemma recv_value_resocked:
  assumes "client_net P rx tx" and "recv_value P d c k ct = (r, ct')" and "c < length (ct_conns ct) \<Longrightarrow> cc_sock (ct_conns ct ! c) \<noteq> None"
  shows "resocked c ct ct'"
proof (cases "k < length (ct_calls ct)")
  case True
  let ?x = "get_new_instance (cl_class (ct_calls ct ! k))"
  obtain r1 ct1 where run: "on_sock c ?x (read_fields P d) ct = (r1, ct1)" by (metis prod.exhaust)
  then have "ct' = ct1" using assms(2) True
    by (auto simp: recv_value_def call_at_def sm_simps split: sum.splits prod.splits)
  with on_sock_resocked [OF silent_keeps [OF silent_read_fields [OF net_duplex [OF assms(1)]]] run assms(3)] show ?thesis by simp
next
  case False
  with assms show ?thesis by (simp add: recv_value_def call_at_def sm_simps resocked_same)
qed

lemma receiver_step_life:
  assumes net: "client_net P rx tx" and inv: "client_inv tx cg" and life: "life_inv cg" and c: "c < length (cg_receivers cg)"
    and st: "receiver_step P d c (cg_receivers cg ! c) cg = Some (Inr cg')"
  shows "life_inv cg'"
proof -
  note len = inv_lengths(2) [OF inv]
  have c': "c < length (ct_conns (cg_client cg))" using c len by simp
  note life_c = life_conn [OF life c']
  note conn = life_c [unfolded recv_life_def]
  have sock: "cc_sock (ct_conns (cg_client cg) ! c) \<noteq> None" using conn by simp
  note same = receiver_life_same [OF life len] and resock = receiver_life_resocked [OF life len]
  have still: "life_inv (receiver_to c pc cg)" if "recv_life pc (ct_conns (cg_client cg) ! c)" for pc
    using same [of "cg_client cg" c pc] that by simp
  from st c' show ?thesis
  proof (cases rule: receiver_stepE)
    case (idle n ct)
    have "recv_life VClose (mark_closed (ct_conns (cg_client cg) ! c))" using life_c idle(1) by (auto intro: recv_life_closed)
    then show ?thesis unfolding idle(4) by (rule receiver_life [OF life len, rotated]) (simp add: idle(3))
  next
    case (read i ct)
    show ?thesis unfolding read(3)
      by (rule resock [OF recv_id_resocked [OF net read(2) sock]]) (use conn read(1) in \<open>simp add: recv_life_def\<close>)
  next
    case (dropped k e ct)
    show ?thesis unfolding dropped(3)
      by (rule resock [OF recv_value_resocked [OF net dropped(2) sock]]) (use conn dropped(1) in \<open>simp add: recv_life_def\<close>)
  next
    case (valued k w ct)
    show ?thesis unfolding valued(3)
      by (rule resock [OF recv_value_resocked [OF net valued(2) sock]]) (use conn valued(1) in \<open>simp add: recv_life_def\<close>)
  next
    case (set k w b ct)
    show ?thesis unfolding set(5) by (rule same) (use conn set(1,4) in \<open>simp_all add: recv_life_def\<close>)
  next
    case (closed u ct)
    let ?conn = "(ct_conns (cg_client cg) ! c)\<lparr>cc_sock := map_option (asio_close P) (cc_sock (ct_conns (cg_client cg) ! c)), cc_wild := True\<rparr>"
    have ct: "ct_conns ct = (ct_conns (cg_client cg))[c := ?conn]"
      using closed(2) c' by (auto simp: client_close_sock_def cconn_at_def sm_simps set_cconn_def split: if_splits)
    show ?thesis unfolding closed(3) by (rule receiver_life [OF life len ct]) (use conn closed(1) in \<open>simp add: recv_life_def\<close>)
  next
    case (removed ep u ct)
    show ?thesis unfolding removed(4)
      by (rule same) (use removed(1,3) conn in \<open>auto simp: recv_life_def remove_connection_def\<close>)
  qed (use conn in \<open>simp_all add: still recv_life_def has_calls_def\<close>)
qed

section \<open>Callers\<close>

lemma lock_take: "lock_inv callers None \<Longrightarrow> k < length callers \<Longrightarrow> lock_inv (callers[k := CAdd c]) (Some k)"
  by (auto simp: lock_inv_def nth_list_update)

lemma lock_free:
  assumes "lock_inv callers lock" and "k < length callers" and "callers ! k = CAdd c" and "\<And>c. pc \<noteq> CAdd c"
  shows "lock_inv (callers[k := pc]) None"
proof -
  have "lock = Some k" using assms(1-3) by (auto simp: lock_inv_def)
  then show ?thesis using assms(1,2,4) by (auto simp: lock_inv_def nth_list_update)
qed

lemma lock_stays:
  assumes "lock_inv callers lock" and "k < length callers" and "\<And>c. callers ! k \<noteq> CAdd c" and "\<And>c. pc \<noteq> CAdd c"
  shows "lock_inv (callers[k := pc]) lock"
proof -
  have "lock \<noteq> Some k" using assms(1-3) by (metis lock_inv_def)
  then show ?thesis using assms by (auto simp: lock_inv_def nth_list_update)
qed

lemma lock_append: "lock_inv callers lock \<Longrightarrow> lock_inv (callers @ [CFind ep]) lock"
  by (auto simp: lock_inv_def nth_append less_Suc_eq)

lemma find_connect_life:
  assumes run: "find_connect P zeroed ep ct = (Inr c, ct')" and valid: "conns_valid ct"
    and socks: "\<And>j. j < length (ct_conns ct) \<Longrightarrow> cc_sock (ct_conns ct ! j) \<noteq> None"
  shows "ct_conns ct' = ct_conns ct \<or> (\<exists>conn. ct_conns ct' = ct_conns ct @ [conn] \<and> recv_life (VWait 0) conn \<and>
     cc_sock conn = Some (snd (asio_connect P (asio_socket P) ep)))"
proof (cases "ct_reg ct (conn_key P ep)")
  case None
  let ?new = "client_conn_new zeroed ep (ct_index ct) :: 'a client_conn"
  let ?ct1 = "ct\<lparr>ct_conns := ct_conns ct @ [?new], ct_reg := (ct_reg ct)(conn_key P ep := Some (length (ct_conns ct))),
     ct_index := ct_index ct + 1\<rparr>"
  obtain ok s where con: "asio_connect P (asio_socket P) ep = (ok, s)" by (metis prod.exhaust)
  from run None obtain b where "connect P (length (ct_conns ct)) ep ?ct1 = (Inr b, ct')"
    by (auto simp: find_connect_def find_cconn_def sm_simps split: prod.splits sum.splits)
  then have "ct_conns ct' = ct_conns ct @ [?new\<lparr>cc_sock := Some s, cc_recv_started := ok\<rparr>] \<and> zeroed"
    using con by (cases ok) (auto simp: connect_def cconn_at_def sm_simps set_cconn_def client_conn_new_def split: if_splits)
  then show ?thesis by (auto simp: con recv_life_def client_conn_new_def)
next
  case (Some j)
  then have "cc_sock (ct_conns ct ! j) \<noteq> None" using valid socks by (auto simp: conns_valid_def)
  then show ?thesis using run Some
    by (auto simp: find_connect_def find_cconn_def connect_def cconn_at_def sm_simps split: if_splits)
qed

lemma caller_life:
  assumes life: "life_inv cg" and lock: "lock_inv (cg_callers cg') (cg_lock cg')" and rs: "cg_receivers cg' = cg_receivers cg"
    and ct: "ct_conns (cg_client cg') = (ct_conns (cg_client cg))[c := conn]"
    and conn: "c < length (ct_conns (cg_client cg)) \<Longrightarrow> recv_life (cg_receivers cg ! c) conn"
  shows "life_inv cg'"
proof -
  have "recv_life (cg_receivers cg ! j) (ct_conns (cg_client cg') ! j)" if "j < length (ct_conns (cg_client cg'))" for j
    using life_conn [OF life, of j] ct conn that by (cases "j = c") simp_all
  then show ?thesis using lock rs by (simp add: life_inv_def)
qed

lemma add_to_conn_conns:
  assumes "add_to_conn c k ct = (Inr ok, ct')" and "c < length (ct_conns ct)"
  shows "\<exists>nxt. ct_conns ct' = (ct_conns ct)[c := (ct_conns ct ! c)\<lparr>cc_last := nxt,
     cc_calls := insert_call (cc_last (ct_conns ct ! c)) k (cc_calls (ct_conns ct ! c))\<rparr>]"
  using assms by (auto simp: add_to_conn_def add_call_def cconn_at_def sm_simps set_call_def set_cconn_def split: sum.splits prod.splits if_splits)

lemma insert_call_not_Nil: "insert_call i k tab \<noteq> []"
  by (auto simp: insert_call_def)

lemma recv_life_add:
  "recv_life pc conn \<Longrightarrow> recv_life pc (conn\<lparr>cc_last := nxt, cc_calls := insert_call i k tab\<rparr>)"
  by (simp add: recv_life_def insert_call_not_Nil)

lemma send_call_resocked:
  assumes net: "client_net P rx tx" and run: "send_call P k ct = (Inr b, ct')" and k: "k < length (ct_calls ct)"
    and c: "cl_conn (ct_calls ct ! k) = Some c" and p: "initialised (cl_param (ct_calls ct ! k))"
    and sock: "c < length (ct_conns ct) \<Longrightarrow> cc_sock (ct_conns ct ! c) \<noteq> None"
  shows "resocked c ct ct'"
proof -
  obtain r where on: "on_sock c () (call_write_to P (ct_calls ct ! k)) ct = (r, ct')"
    using run k c by (auto simp: send_call_def call_at_def sm_simps split: prod.splits sum.splits)
  have "p' \<noteq> None" if "call_write_to P (ct_calls ct ! k) ((), Some s) = (r', (x', p'))" for s r' x' p'
    using call_write_sends [OF net_duplex [OF net] p, of s] that by auto
  from on_sock_resocked [OF this on sock] show ?thesis .
qed

lemma caller_step_life:
  assumes net: "client_net P rx tx" and inv: "client_inv tx cg" and life: "life_inv cg" and k: "k < length (cg_callers cg)"
    and st: "caller_step P zeroed k (cg_callers cg ! k) cg = Some (Inr cg')"
  shows "life_inv cg'"
proof -
  note lens = inv_lengths [OF inv] and lock = life_lock [OF life]
  have kk: "k < length (ct_calls (cg_client cg))" using k lens(1) by simp
  note call = inv_call [OF inv kk, unfolded call_inv_def]
  have socks: "cc_sock (ct_conns (cg_client cg) ! j) \<noteq> None" if "j < length (ct_conns (cg_client cg))" for j
    using life_conn [OF life that] by (simp add: recv_life_def)
  show ?thesis
  proof (cases "cg_callers cg ! k")
    case (CFind ep)
    with st obtain c ct where free: "cg_lock cg = None" and run: "find_connect P zeroed ep (cg_client cg) = (Inr c, ct)"
      and cg': "cg' = pad_receivers (caller_to k (CAdd c) (cg\<lparr>cg_client := ct, cg_lock := Some k\<rparr>))"
      by (auto simp: cmoment_Inr split: if_splits)
    have "lock_inv (cg_callers cg') (cg_lock cg')"
      using lock_take [of "cg_callers cg" k c] lock free k by (simp add: cg' pad_receivers_def caller_to_def)
    moreover have "recv_life (cg_receivers cg' ! j) (ct_conns ct ! j)" if "j < length (ct_conns ct)" for j
      using find_connect_life [OF run lens(3) socks] life_conn [OF life, of j] that lens(2)
      by (auto simp: cg' pad_receivers_def caller_to_def nth_append less_Suc_eq)
    ultimately show ?thesis by (simp add: life_inv_def cg' pad_receivers_def caller_to_def)
  next
    case (CAdd c)
    with st obtain ok ct where run: "add_to_conn c k (cg_client cg) = (Inr ok, ct)"
      and cg': "cg' = caller_to k (if ok then CSend else CNull) (cg\<lparr>cg_client := ct, cg_lock := None\<rparr>)"
      by (auto simp: cmoment_Inr simp del: if_split)
    have c: "c < length (ct_conns (cg_client cg))" using call CAdd by simp
    from add_to_conn_conns [OF run c] obtain nxt where ct: "ct_conns ct = (ct_conns (cg_client cg))[c := (ct_conns (cg_client cg) ! c)\<lparr>cc_last := nxt,
       cc_calls := insert_call (cc_last (ct_conns (cg_client cg) ! c)) k (cc_calls (ct_conns (cg_client cg) ! c))\<rparr>]" by blast
    show ?thesis
      by (rule caller_life [OF life _ _ _ recv_life_add [OF life_conn [OF life c]]])
        (use lock_free [OF lock k CAdd] ct in \<open>simp_all add: cg' caller_to_def\<close>)
  next
    case CSend
    with st obtain b ct where run: "send_call P k (cg_client cg) = (Inr b, ct)"
      and cg': "cg' = caller_to k CWait (cg\<lparr>cg_client := ct\<rparr>)" by (auto simp: cmoment_Inr)
    obtain c where c: "c < length (ct_conns (cg_client cg))" "cl_conn (ct_calls (cg_client cg) ! k) = Some c"
      using call CSend by auto
    have "resocked c (cg_client cg) ct" using send_call_resocked [OF net run kk c(2) _ socks] call by simp
    then obtain p where p: "p \<noteq> None" "ct_conns ct = (ct_conns (cg_client cg))[c := (ct_conns (cg_client cg) ! c)\<lparr>cc_sock := p\<rparr>]"
      by (auto simp: resocked_def)
    show ?thesis
      by (rule caller_life [OF life, where c = c])
        (use lock_stays [OF lock k] CSend recv_life_resock [OF life_conn [OF life c(1)] p(1)] p(2) in
          \<open>simp_all add: cg' caller_to_def\<close>)
  next
    case CWait
    with st have cg': "cg' = caller_to k CDone cg" by (auto split: if_splits)
    show ?thesis
      using lock_stays [OF lock k, of CDone] CWait life by (simp add: life_inv_def cg' caller_to_def)
  qed (use st in simp_all)
qed

section \<open>Every moment\<close>

lemma client_step_life:
  assumes net: "client_net P rx tx" and inv: "client_inv tx cg" and life: "life_inv cg"
    and st: "client_step P zeroed d a cg = Some (Inr cg')"
  shows "life_inv cg'"
proof (cases a)
  case (NewCall p vc ep)
  with st life show ?thesis using lock_append by (auto simp: life_inv_def)
next
  case (CallerMove k)
  with st show ?thesis using caller_step_life [OF net inv life] by (auto split: if_splits)
next
  case (ReceiverMove c)
  with st show ?thesis using receiver_step_life [OF net inv life] by (auto split: if_splits)
next
  case (Arrive c s)
  with st have c: "c < length (ct_conns (cg_client cg))" and cg': "cg' = cg\<lparr>cg_client := (cg_client cg)\<lparr>ct_conns :=
      (ct_conns (cg_client cg))[c := (ct_conns (cg_client cg) ! c)\<lparr>cc_sock := Some s\<rparr>]\<rparr>\<rparr>"
    by (auto split: if_splits)
  show ?thesis
    by (rule caller_life [OF life, where c = c])
      (use life_lock [OF life] recv_life_resock [OF life_conn [OF life c], of "Some s"] in \<open>simp_all add: cg'\<close>)
qed

theorem client_reachable_life:
  assumes net: "client_net P rx tx" and "client_reachable P tx zeroed d cg"
  shows "life_inv cg"
  using assms(2)
proof induction
  case start
  show ?case by (simp add: life_inv_def lock_inv_def cl_init_def client_new_def)
next
  case (move cg a cg')
  show ?case by (rule client_step_life [OF net client_reachable_inv [OF net move.hyps(1)] move.IH move.hyps(3)])
qed

section \<open>The tables grow\<close>

lemma receiver_step_views:
  assumes net: "client_net P rx tx" and inv: "client_inv tx cg"
    and c: "c < length (cg_receivers cg)" "cc_recv_started (ct_conns (cg_client cg) ! c)"
    and st: "receiver_step P d c (cg_receivers cg ! c) cg = Some (Inr cg')"
  shows "views tx (cg_client cg') = views tx (cg_client cg)"
proof -
  have c': "c < length (ct_conns (cg_client cg))" using c(1) inv_lengths(2) [OF inv] by simp
  have sock: "cc_sock (ct_conns (cg_client cg) ! c) \<noteq> None"
    using inv_lengths(4) [OF inv] c(2) c' by (simp add: socks_ok_def)
  have moved: "views tx (cg_client (receiver_to c pc (cg\<lparr>cg_client := ct\<rparr>))) = views tx (cg_client cg)"
    if "same_view tx (cg_client cg) ct" for pc ct using that by (simp add: receiver_to_def same_view_def)
  from st c' show ?thesis
  proof (cases rule: receiver_stepE)
    case (idle n ct)
    show ?thesis unfolding idle(4) by (rule moved [OF mark_closed_effect [OF _ c']]) (simp add: idle(3) set_cconn_def sm_simps)
  next
    case (read i ct)
    show ?thesis unfolding read(3) by (rule moved [OF recv_id_effect [OF net read(2) sock]])
  next
    case (dropped k e ct)
    show ?thesis unfolding dropped(3) by (rule moved [OF recv_value_effect [OF net dropped(2) sock]])
  next
    case (valued k w ct)
    show ?thesis unfolding valued(3) by (rule moved [OF recv_value_effect [OF net valued(2) sock]])
  next
    case (closed u ct)
    show ?thesis unfolding closed(3) by (rule moved [OF close_sock_effect [OF net]]) (use closed(2) in simp)
  next
    case (removed ep u ct)
    show ?thesis unfolding removed(4) by (rule moved [OF remove_connection_effect [OF removed(3)]])
  qed (simp_all add: receiver_to_def views_def)
qed

text \<open>A table is extended at its front.\<close>

definition extends :: "nat \<Rightarrow> 's client \<Rightarrow> 's client \<Rightarrow> bool" where
  "extends c ct ct' \<longleftrightarrow> c < length (ct_conns ct') \<and> (\<exists>new. cc_calls (ct_conns ct' ! c) = new @ cc_calls (ct_conns ct ! c))"

lemma extends_refl: "c < length (ct_conns ct) \<Longrightarrow> extends c ct ct"
  by (simp add: extends_def)

lemma extends_trans: "extends c ct1 ct2 \<Longrightarrow> extends c ct2 ct3 \<Longrightarrow> extends c ct1 ct3"
  by (auto simp: extends_def)

lemma extends_views:
  assumes "views tx ct' = views tx ct @ vs" and "c < length (ct_conns ct)"
  shows "extends c ct ct'"
proof -
  have "c < length (ct_conns ct')" using assms by (metis length_views length_append trans_less_add1)
  moreover have "views tx ct' ! c = views tx ct ! c" using assms by (simp add: nth_append)
  ultimately show ?thesis using assms(2) by (simp add: extends_def views_nth cview_def)
qed

lemma caller_step_extends:
  assumes net: "client_net P rx tx" and inv: "client_inv tx cg" and life: "life_inv cg" and k: "k < length (cg_callers cg)"
    and st: "caller_step P zeroed k (cg_callers cg ! k) cg = Some (Inr cg')" and j: "j < length (ct_conns (cg_client cg))"
  shows "extends j (cg_client cg) (cg_client cg')"
proof -
  note lens = inv_lengths [OF inv]
  have kk: "k < length (ct_calls (cg_client cg))" using k lens(1) by simp
  note call = inv_call [OF inv kk, unfolded call_inv_def]
  show ?thesis
  proof (cases "cg_callers cg ! k")
    case (CFind ep)
    with st obtain c ct where run: "find_connect P zeroed ep (cg_client cg) = (Inr c, ct)" and cg': "cg_client cg' = ct"
      by (auto simp: cmoment_Inr pad_receivers_def caller_to_def split: if_splits)
    obtain vs where "views tx ct = views tx (cg_client cg) @ vs"
      using find_connect_effect [OF net run lens(3,4)] by (metis append_Nil2)
    then show ?thesis unfolding cg' using j by (rule extends_views)
  next
    case (CAdd c)
    with st obtain ok ct where run: "add_to_conn c k (cg_client cg) = (Inr ok, ct)" and cg': "cg_client cg' = ct"
      by (auto simp: cmoment_Inr caller_to_def simp del: if_split)
    have c: "c < length (ct_conns (cg_client cg))" using call CAdd by simp
    from add_to_conn_conns [OF run c] show ?thesis
      unfolding cg' extends_def using j by (cases "j = c") (auto simp: insert_call_def)
  next
    case CSend
    with st obtain b ct where run: "send_call P k (cg_client cg) = (Inr b, ct)" and cg': "cg_client cg' = ct"
      by (auto simp: cmoment_Inr caller_to_def)
    obtain c where c: "c < length (ct_conns (cg_client cg))" "cl_conn (ct_calls (cg_client cg) ! k) = Some c"
      using call CSend by auto
    have "resocked c (cg_client cg) ct"
      using send_call_resocked [OF net run kk c(2)] call inv_lengths(4) [OF inv] life_conn [OF life] by (simp add: recv_life_def)
    then show ?thesis unfolding cg' extends_def resocked_def using j by (cases "j = c") auto
  next
    case CWait
    with st show ?thesis using extends_refl [OF j] by (auto simp: caller_to_def split: if_splits)
  qed (use st in simp_all)
qed

lemma client_step_extends:
  assumes net: "client_net P rx tx" and inv: "client_inv tx cg" and life: "life_inv cg"
    and st: "client_step P zeroed d a cg = Some (Inr cg')" and j: "j < length (ct_conns (cg_client cg))"
  shows "extends j (cg_client cg) (cg_client cg')"
proof (cases a)
  case (NewCall p vc ep)
  with st j show ?thesis by (auto simp: extends_def)
next
  case (CallerMove k)
  with st show ?thesis using caller_step_extends [OF net inv life _ _ j] by (auto split: if_splits)
next
  case (ReceiverMove c)
  with st have "views tx (cg_client cg') = views tx (cg_client cg)"
    using receiver_step_views [OF net inv] by (auto split: if_splits)
  then show ?thesis using j by (intro extends_views [of tx _ _ "[]"]) simp_all
next
  case (Arrive c s)
  with st j show ?thesis by (cases "j = c") (auto simp: extends_def split: if_splits)
qed

section \<open>A connection in use stays open\<close>

definition in_use :: "nat \<Rightarrow> 's client \<Rightarrow> bool" where
  "in_use c ct \<longleftrightarrow> c < length (ct_conns ct) \<and> \<not> cc_should_close (ct_conns ct ! c) \<and> cc_calls (ct_conns ct ! c) \<noteq> []"

lemma caller_keeps_receiver:
  assumes "caller_step P zeroed k pc cg = Some (Inr cg')" and "c < length (cg_receivers cg)"
  shows "cg_receivers cg' ! c = cg_receivers cg ! c"
  using assms by (cases pc) (auto simp: cmoment_Inr pad_receivers_def caller_to_def nth_append split: if_splits)

lemma receiver_stays_open:
  assumes st: "receiver_step P d c' (cg_receivers cg ! c') cg = Some (Inr cg')" and c': "c' < length (ct_conns (cg_client cg))"
    and c: "c < length (cg_receivers cg)" "\<not> closing (cg_receivers cg ! c)" "has_calls (ct_conns (cg_client cg) ! c)"
  shows "\<not> closing (cg_receivers cg' ! c)"
  using st c' by (cases rule: receiver_stepE) (use c in \<open>cases "c' = c"; force simp: receiver_to_def\<close>)+

lemma client_step_in_use:
  assumes net: "client_net P rx tx" and inv: "client_inv tx cg" and life: "life_inv cg"
    and st: "client_step P zeroed d a cg = Some (Inr cg')" and use: "in_use c (cg_client cg)"
  shows "in_use c (cg_client cg')"
proof -
  have c: "c < length (ct_conns (cg_client cg))" "c < length (cg_receivers cg)"
    and calls: "cc_calls (ct_conns (cg_client cg) ! c) \<noteq> []"
    using use inv_lengths(2) [OF inv] by (simp_all add: in_use_def)
  have pc: "\<not> closing (cg_receivers cg ! c)" using use life_conn [OF life c(1)] by (simp add: in_use_def recv_life_def)
  have "\<not> closing (cg_receivers cg' ! c)"
  proof (cases a)
    case (CallerMove k)
    with st pc show ?thesis using caller_keeps_receiver [OF _ c(2)] by (auto split: if_splits)
  next
    case (ReceiverMove c')
    with st have step: "receiver_step P d c' (cg_receivers cg ! c') cg = Some (Inr cg')" and "c' < length (ct_conns (cg_client cg))"
      using inv_lengths(2) [OF inv] by (auto split: if_splits)
    from receiver_stays_open [OF this c(2) pc] calls show ?thesis by (simp add: has_calls_def)
  qed (use st pc in \<open>auto split: if_splits\<close>)
  moreover have "extends c (cg_client cg) (cg_client cg')" by (rule client_step_extends [OF net inv life st c(1)])
  ultimately show ?thesis
    using life_conn [OF client_step_life [OF net inv life st], of c] calls by (auto simp: in_use_def extends_def recv_life_def)
qed

lemma client_run_in_use:
  assumes net: "client_net P rx tx"
  shows "client_reachable P tx zeroed d cg \<Longrightarrow> fair_run P tx zeroed d as cg \<Longrightarrow> client_run P zeroed d as cg = Some (Inr cg') \<Longrightarrow>
    in_use c (cg_client cg) \<Longrightarrow> in_use c (cg_client cg') \<and> extends c (cg_client cg) (cg_client cg')"
proof (induction as arbitrary: cg)
  case Nil
  then show ?case by (simp add: in_use_def extends_refl)
next
  case (Cons a as)
  from Cons.prems(2,3) obtain cg1 where st: "client_step P zeroed d a cg = Some (Inr cg1)" and run: "client_run P zeroed d as cg1 = Some (Inr cg')"
    and fair: "fair_action tx a cg" "fair_run P tx zeroed d as cg1"
    by (auto split: option.splits sum.splits)
  have inv: "client_inv tx cg" "life_inv cg"
    using client_reachable_inv [OF net] client_reachable_life [OF net] Cons.prems(1) by blast+
  have "extends c (cg_client cg) (cg_client cg1)"
    using client_step_extends [OF net inv st] Cons.prems(4) by (simp add: in_use_def)
  then show ?case
    using Cons.IH [OF client_reachable.move [OF Cons.prems(1) fair(1) st] fair(2) run client_step_in_use [OF net inv st Cons.prems(4)]]
      extends_trans by blast
qed

end
