(* ===== verification/Client_Values.thy ===== *)
theory Client_Values
  imports Client_Invariant
begin

text \<open>
  The classes of the values that calls receive: \<open>readFields\<close> does not change the class of its
  object, and what it leaves in an \<open>IntWritable\<close> without an exception is set. So the value of a
  call is of the class that \<open>getNewInstance\<close> makes for the name the caller gave, and a call is done
  only when that is a class the program knows.
\<close>

section \<open>Reading keeps the class\<close>

lemma read_fields_class: "read_fields P d (w, p) = (r, (w', p')) \<Longrightarrow> get_class w' = get_class w"
  by (cases d; cases w) (auto simp: sm_simps method_of_def split: prod.splits)

lemma int_read_sets:
  assumes P: "duplex P rx tx" and run: "int_read_fields P (v, Some s) = (Inr r, (v', p'))"
  shows "v' \<noteq> None"
proof -
  have "int_read_fields (stream_platform P) (v, Some (rx s, tx s)) = (Inr r, (v', view rx tx p'))"
    using simD [OF sim_int_read_fields [OF P] run] by simp
  then show ?thesis
    by (auto simp: int_read_fields_def Let_def sm_simps split: if_splits)
qed

text \<open>\<open>w\<close> is a value that a call may have which asked for class \<open>cls\<close>.\<close>

definition fits :: "string \<Rightarrow> writable \<Rightarrow> bool" where
  "fits cls w \<longleftrightarrow> get_class w = get_class (get_new_instance cls) \<and> w \<noteq> IntWritable None"

lemma read_new_fits:
  assumes P: "duplex P rx tx" and run: "read_fields P d (get_new_instance cls, Some s) = (Inr r, (w, p'))"
  shows "fits cls w"
proof -
  have cls: "get_class w = get_class (get_new_instance cls)" by (rule read_fields_class [OF run])
  moreover have "w \<noteq> IntWritable None"
  proof
    assume w: "w = IntWritable None"
    have "get_class (get_new_instance cls) = ''IntWritable''" unfolding cls [symmetric] w by simp
    then have new: "get_new_instance cls = IntWritable None" by (simp add: get_new_instance_def split: if_splits)
    show False
    proof (cases d)
      case 0
      with run show False by (simp add: fail_run)
    next
      case (Suc d')
      obtain r' v' p1 where int: "int_read_fields P (None, Some s) = (r', (v', p1))" by (metis prod.exhaust)
      with run w Suc new have "r' = Inr r \<and> v' = None" by (simp add: with_obj_run zoom_run as_int_def)
      with int_read_sets [OF P, of None s] int show False by auto
    qed
  qed
  ultimately show ?thesis by (simp add: fits_def)
qed

lemma recv_value_fits:
  assumes P: "duplex P rx tx" and run: "recv_value P d c k ct = (Inr w, ct')" and c: "c < length (ct_conns ct)"
    and sock: "cc_sock (ct_conns ct ! c) \<noteq> None"
  shows "k < length (ct_calls ct) \<and> fits (cl_class (ct_calls ct ! k)) w"
proof -
  have k: "k < length (ct_calls ct)" using run by (auto simp: recv_value_def call_at_def sm_simps split: if_splits)
  obtain s where s: "cc_sock (ct_conns ct ! c) = Some s" using sock by auto
  obtain r p' where "read_fields P d (get_new_instance (cl_class (ct_calls ct ! k)), Some s) = (Inr r, (w, p'))"
    using run k c s by (auto simp: recv_value_def call_at_def sm_simps on_sock_def cconn_at_def split: if_splits prod.splits sum.splits)
  from read_new_fits [OF P this] k show ?thesis by simp
qed

section \<open>The invariant\<close>

definition typed_call :: "client_call \<Rightarrow> bool" where
  "typed_call call \<longleftrightarrow> (\<forall>w. cl_value call = Some w \<longrightarrow> fits (cl_class call) w) \<and>
     (cl_done call \<longrightarrow> get_new_instance (cl_class call) \<noteq> Writable)"

definition typed_inv :: "'s cl_config \<Rightarrow> bool" where
  "typed_inv cg \<longleftrightarrow> (let calls = ct_calls (cg_client cg) in
     (\<forall>k < length calls. typed_call (calls ! k)) \<and>
     (\<forall>c < length (cg_receivers cg). \<forall>k w. cg_receivers cg ! c = VSet k w \<longrightarrow> fits (cl_class (calls ! k)) w))"

text \<open>Moments that leave the values, the classes and what the receivers hold.\<close>

lemma typed_frame:
  assumes "typed_inv cg" and "length (ct_calls (cg_client cg')) = length (ct_calls (cg_client cg))"
    and "\<And>k. k < length (ct_calls (cg_client cg)) \<Longrightarrow>
      cl_class (ct_calls (cg_client cg') ! k) = cl_class (ct_calls (cg_client cg) ! k) \<and>
      cl_value (ct_calls (cg_client cg') ! k) = cl_value (ct_calls (cg_client cg) ! k) \<and>
      cl_done (ct_calls (cg_client cg') ! k) = cl_done (ct_calls (cg_client cg) ! k)"
    and "\<And>c k w. c < length (cg_receivers cg') \<Longrightarrow> cg_receivers cg' ! c = VSet k w \<Longrightarrow>
      k < length (ct_calls (cg_client cg)) \<and> fits (cl_class (ct_calls (cg_client cg) ! k)) w"
  shows "typed_inv cg'"
  using assms by (simp add: typed_inv_def Let_def typed_call_def)

lemma typed_held:
  assumes "typed_inv cg" and "client_inv tx cg" and "c < length (cg_receivers cg)" and "cg_receivers cg ! c = VSet k w"
  shows "k < length (ct_calls (cg_client cg)) \<and> fits (cl_class (ct_calls (cg_client cg) ! k)) w"
proof -
  have "k \<in> mine (ct_calls (cg_client cg)) (cg_callers cg) c call_added"
    using inv_recv [OF assms(2)] assms(3,4) inv_lengths(2) [OF assms(2)] by (auto simp: recv_inv_def)
  then show ?thesis using assms(1,3,4) by (simp add: mine_def typed_inv_def Let_def)
qed

lemma typed_receiver:
  assumes typed: "typed_inv cg" and inv: "client_inv tx cg" and ct: "ct_calls ct = ct_calls (cg_client cg)"
    and pc: "\<And>k w. pc = VSet k w \<Longrightarrow> k < length (ct_calls (cg_client cg)) \<and> fits (cl_class (ct_calls (cg_client cg) ! k)) w"
  shows "typed_inv (receiver_to c pc (cg\<lparr>cg_client := ct\<rparr>))"
proof (rule typed_frame [OF typed])
  fix c' k w
  assume "c' < length (cg_receivers (receiver_to c pc (cg\<lparr>cg_client := ct\<rparr>)))"
    and "cg_receivers (receiver_to c pc (cg\<lparr>cg_client := ct\<rparr>)) ! c' = VSet k w"
  then show "k < length (ct_calls (cg_client cg)) \<and> fits (cl_class (ct_calls (cg_client cg) ! k)) w"
    using pc typed_held [OF typed inv, of c'] by (cases "c' = c") (simp_all add: receiver_to_def)
qed (use ct in \<open>simp_all add: receiver_to_def\<close>)

lemma set_value_typed:
  assumes typed: "typed_inv cg" and inv: "client_inv tx cg" and c: "c < length (cg_receivers cg)" "cg_receivers cg ! c = VSet k w"
    and b: "b \<longrightarrow> cl_done (ct_calls (cg_client cg) ! k) \<or> w \<noteq> Writable"
    and ct: "ct = (cg_client cg)\<lparr>ct_calls := (ct_calls (cg_client cg))
        [k := (ct_calls (cg_client cg) ! k)\<lparr>cl_value := Some w, cl_done := b\<rparr>]\<rparr>"
  shows "typed_inv (receiver_to c (VWait 0) (cg\<lparr>cg_client := ct\<rparr>))"
proof -
  let ?calls = "ct_calls (cg_client cg)"
  have k: "k < length ?calls" and w: "fits (cl_class (?calls ! k)) w" using typed_held [OF typed inv c] by simp_all
  have "typed_call (?calls ! k)" using typed k by (simp add: typed_inv_def Let_def)
  then have call: "typed_call ((?calls ! k)\<lparr>cl_value := Some w, cl_done := b\<rparr>)"
    using w b by (cases w) (auto simp: typed_call_def fits_def)
  have "typed_call (ct_calls ct ! j)" if "j < length ?calls" for j
    using typed call that by (cases "j = k") (simp_all add: ct typed_inv_def Let_def)
  moreover have "cl_class (ct_calls ct ! j) = cl_class (?calls ! j)" for j
    using k by (cases "j = k") (simp_all add: ct)
  moreover have "fits (cl_class (?calls ! j)) v" if "c' < length (cg_receivers cg)" "(cg_receivers cg)[c := VWait 0] ! c' = VSet j v" for c' j v
    using that typed_held [OF typed inv, of c' j v] c(1) by (cases "c' = c") simp_all
  ultimately show ?thesis by (simp add: typed_inv_def Let_def receiver_to_def ct)
qed

section \<open>Every moment keeps it\<close>

lemma receiver_step_typed:
  assumes net: "client_net P rx tx" and inv: "client_inv tx cg" and typed: "typed_inv cg"
    and c: "c < length (cg_receivers cg)" "cc_recv_started (ct_conns (cg_client cg) ! c)"
    and st: "receiver_step P d c (cg_receivers cg ! c) cg = Some (Inr cg')"
  shows "typed_inv cg'"
proof -
  have c': "c < length (ct_conns (cg_client cg))" using c(1) inv_lengths(2) [OF inv] by simp
  have sock: "cc_sock (ct_conns (cg_client cg) ! c) \<noteq> None"
    using inv_lengths(4) [OF inv] c(2) c' by (simp add: socks_ok_def)
  note plain = typed_receiver [OF typed inv]
  have view: "ct_calls ct = ct_calls (cg_client cg)" if "same_view tx (cg_client cg) ct" for ct
    using that by (simp add: same_view_def)
  have still: "typed_inv (receiver_to c pc cg)" if "\<And>k w. pc \<noteq> VSet k w" for pc
    using plain [of "cg_client cg" pc c] that by simp
  from st c' show ?thesis
  proof (cases rule: receiver_stepE)
    case (idle n ct)
    show ?thesis unfolding idle(4) by (rule plain) (simp_all add: idle(3))
  next
    case (read i ct)
    show ?thesis unfolding read(3) by (rule plain [OF view [OF recv_id_effect [OF net read(2) sock]]]) simp
  next
    case (dropped k e ct)
    show ?thesis unfolding dropped(3) by (rule plain [OF view [OF recv_value_effect [OF net dropped(2) sock]]]) simp
  next
    case (valued k w ct)
    show ?thesis unfolding valued(3)
      by (rule plain [OF view [OF recv_value_effect [OF net valued(2) sock]]])
        (use recv_value_fits [OF net_duplex [OF net] valued(2) c' sock] in simp)
  next
    case (set k w b ct)
    show ?thesis unfolding set(5) by (rule set_value_typed [OF typed inv c(1) set(1,3,4)])
  next
    case (closed u ct)
    show ?thesis unfolding closed(3) by (rule plain [OF view [OF close_sock_effect [OF net]]]) (use closed(2) in simp_all)
  next
    case (removed ep u ct)
    show ?thesis unfolding removed(4) by (rule plain [OF view [OF remove_connection_effect [OF removed(3)]]]) simp
  qed (simp_all add: still)
qed

text \<open>What a caller does to the calls.\<close>

lemma add_to_conn_calls:
  assumes "add_to_conn c k ct = (Inr ok, ct')" and "k < length (ct_calls ct)"
  shows "ct_calls ct' = (ct_calls ct)[k := (ct_calls ct ! k)\<lparr>cl_id := cc_last (ct_conns ct ! c), cl_conn := Some c\<rparr>]"
  using assms by (auto simp: add_to_conn_def add_call_def cconn_at_def sm_simps set_call_def set_cconn_def
      split: sum.splits prod.splits if_splits)

lemma caller_calls:
  assumes net: "client_net P rx tx" and inv: "client_inv tx cg" and k: "k < length (cg_callers cg)"
    and st: "caller_step P zeroed k (cg_callers cg ! k) cg = Some (Inr cg')"
  shows "\<exists>i c. ct_calls (cg_client cg') = ct_calls (cg_client cg) \<or> \<not> call_added (cg_callers cg ! k) \<and>
    ct_calls (cg_client cg') = (ct_calls (cg_client cg))[k := (ct_calls (cg_client cg) ! k)\<lparr>cl_id := i, cl_conn := Some c\<rparr>]"
proof (cases "cg_callers cg ! k")
  case (CFind ep)
  with st find_connect_effect [OF net _ inv_lengths(3,4) [OF inv]] show ?thesis
    by (auto simp: cmoment_Inr pad_receivers_def caller_to_def split: if_splits)
next
  case (CAdd c)
  with st obtain ok ct where "add_to_conn c k (cg_client cg) = (Inr ok, ct)" "ct_calls (cg_client cg') = ct_calls ct"
    by (auto simp: cmoment_Inr caller_to_def simp del: if_split)
  then have "\<exists>i c. ct_calls (cg_client cg') = (ct_calls (cg_client cg))[k := (ct_calls (cg_client cg) ! k)\<lparr>cl_id := i, cl_conn := Some c\<rparr>]"
    using add_to_conn_calls k inv_lengths(1) [OF inv] by metis
  with CAdd show ?thesis by auto
next
  case CSend
  with st obtain b ct where run: "send_call P k (cg_client cg) = (Inr b, ct)"
    and cg': "cg' = caller_to k CWait (cg\<lparr>cg_client := ct\<rparr>)" by (auto simp: cmoment_Inr)
  have "ct_calls ct = ct_calls (cg_client cg)"
    using run by (auto simp: send_call_def call_at_def sm_simps split: if_splits option.splits prod.splits sum.splits dest!: on_sock_effect)
  then show ?thesis by (simp add: cg' caller_to_def)
qed (use st in \<open>auto simp: caller_to_def split: if_splits\<close>)

lemma caller_receivers:
  assumes "caller_step P zeroed k pc cg = Some (Inr cg')"
  shows "\<exists>n. cg_receivers cg' = cg_receivers cg @ replicate n (VWait 0)"
proof (cases pc)
  case (CFind ep)
  with assms show ?thesis by (auto simp: cmoment_Inr pad_receivers_def caller_to_def split: if_splits)
qed (use assms in \<open>auto simp: cmoment_Inr caller_to_def split: if_splits intro!: exI [of _ 0]\<close>)

lemma caller_step_typed:
  assumes net: "client_net P rx tx" and inv: "client_inv tx cg" and typed: "typed_inv cg" and k: "k < length (cg_callers cg)"
    and st: "caller_step P zeroed k (cg_callers cg ! k) cg = Some (Inr cg')"
  shows "typed_inv cg'"
proof -
  obtain i c where calls: "ct_calls (cg_client cg') = ct_calls (cg_client cg) \<or> \<not> call_added (cg_callers cg ! k) \<and>
    ct_calls (cg_client cg') = (ct_calls (cg_client cg))[k := (ct_calls (cg_client cg) ! k)\<lparr>cl_id := i, cl_conn := Some c\<rparr>]"
    using caller_calls [OF net inv k st] by blast
  obtain n where rs: "cg_receivers cg' = cg_receivers cg @ replicate n (VWait 0)"
    using caller_receivers [OF st] by blast
  have kk: "k < length (ct_calls (cg_client cg))" using k inv_lengths(1) [OF inv] by simp
  show ?thesis
  proof (rule typed_frame [OF typed])
    fix c' j w
    assume "c' < length (cg_receivers cg')" "cg_receivers cg' ! c' = VSet j w"
    then show "j < length (ct_calls (cg_client cg)) \<and> fits (cl_class (ct_calls (cg_client cg) ! j)) w"
      using typed_held [OF typed inv] by (cases "c' < length (cg_receivers cg)") (simp_all add: rs nth_append)
  next
    fix j
    assume "j < length (ct_calls (cg_client cg))"
    then show "cl_class (ct_calls (cg_client cg') ! j) = cl_class (ct_calls (cg_client cg) ! j) \<and>
      cl_value (ct_calls (cg_client cg') ! j) = cl_value (ct_calls (cg_client cg) ! j) \<and>
      cl_done (ct_calls (cg_client cg') ! j) = cl_done (ct_calls (cg_client cg) ! j)"
      using calls kk by (cases "j = k") auto
  qed (use calls in auto)
qed

lemma client_step_typed:
  assumes net: "client_net P rx tx" and inv: "client_inv tx cg" and typed: "typed_inv cg"
    and st: "client_step P zeroed d a cg = Some (Inr cg')"
  shows "typed_inv cg'"
proof (cases a)
  case (NewCall p vc ep)
  let ?calls = "ct_calls (cg_client cg)"
  have cg': "ct_calls (cg_client cg') = ?calls @ [client_call_new p vc]" "cg_receivers cg' = cg_receivers cg"
    using st NewCall by auto
  have "typed_call ((?calls @ [client_call_new p vc]) ! j)" if "j < Suc (length ?calls)" for j
    using typed that by (cases "j = length ?calls")
      (simp_all add: nth_append typed_inv_def Let_def typed_call_def client_call_new_def)
  moreover have "fits (cl_class ((?calls @ [client_call_new p vc]) ! j)) w" if "c < length (cg_receivers cg)" "cg_receivers cg ! c = VSet j w" for c j w
    using typed_held [OF typed inv that] by (simp add: nth_append)
  ultimately show ?thesis by (simp add: typed_inv_def Let_def cg')
next
  case (CallerMove k)
  with st show ?thesis using caller_step_typed [OF net inv typed] by (auto split: if_splits)
next
  case (ReceiverMove c)
  with st show ?thesis using receiver_step_typed [OF net inv typed] by (auto split: if_splits)
next
  case (Arrive c s)
  with st show ?thesis by (intro typed_frame [OF typed]) (auto split: if_splits dest: typed_held [OF typed inv])
qed

theorem client_reachable_typed:
  assumes net: "client_net P rx tx" and "client_reachable P tx zeroed d cg"
  shows "typed_inv cg"
  using assms(2)
proof induction
  case start
  show ?case by (simp add: typed_inv_def Let_def cl_init_def client_new_def)
next
  case (move cg a cg')
  show ?case by (rule client_step_typed [OF net client_reachable_inv [OF net move.hyps(1)] move.IH move.hyps(3)])
qed

end
