(* ===== verification/Client_Safety.thy ===== *)
theory Client_Safety
  imports Client_Life Client_Values
begin

text \<open>
  Properties of a client whose threads run at the same time, from the invariant, and schedules in
  which its design fails.
\<close>

section \<open>Schedules\<close>

text \<open>Two calls on one connection; the second is answered first.\<close>

definition two_calls :: "wire cl_action list" where
  "two_calls = (let ep = \<lparr>ep_address = 1, ep_port = 80\<rparr>; p = MethodWritable ''NameNode'' ''create'' [] in
     [NewCall p ''IntWritable'' ep, NewCall p ''IntWritable'' ep, CallerMove 0, CallerMove 0, ReceiverMove 0,
      CallerMove 1, CallerMove 1, CallerMove 1, CallerMove 0])"

definition two_answers :: "wire cl_config \<Rightarrow> wire cl_action list" where
  "two_answers cg = [Arrive 0 (enc_response 1 (i32_bytes 7) @ enc_response 0 (i32_bytes 5), sent_on snd (ct_conns (cg_client cg) ! 0)),
     ReceiverMove 0]"

definition run_from :: "wire platform \<Rightarrow> bool \<Rightarrow> wire cl_action list \<Rightarrow> wire cl_config \<Rightarrow> wire cl_config" where
  "run_from P zeroed as cg = (case client_run P zeroed 1 as cg of Some (Inr cg') \<Rightarrow> cg' | _ \<Rightarrow> cg)"

definition sent_config :: "wire cl_config" where
  "sent_config = run_from (slow_machine 100) True two_calls cl_init"

definition id_config :: "wire cl_config" where
  "id_config = run_from (slow_machine 100) True (two_answers sent_config) sent_config"

definition answered_config :: "wire cl_config" where
  "answered_config = run_from (slow_machine 100) True
     [ReceiverMove 0, ReceiverMove 0, ReceiverMove 0, CallerMove 1] id_config"

lemma client_net_slow_machine: "client_net (slow_machine M) fst snd"
  by (simp add: client_net_def duplex_slow_machine close_silent_slow_machine) (simp add: slow_machine_def machine_def)

lemma reachable_run_from:
  assumes "client_reachable P snd zeroed 1 cg" and "fair_run P snd zeroed 1 as cg"
  shows "client_reachable P snd zeroed 1 (run_from P zeroed as cg)"
  using assms client_run_reachable [OF assms]
  by (auto simp: run_from_def split: option.splits sum.splits)

lemma reachable_sent: "client_reachable (slow_machine 100) snd True 1 sent_config"
  unfolding sent_config_def by (rule reachable_run_from [OF client_reachable.start]) code_simp

lemma reachable_id: "client_reachable (slow_machine 100) snd True 1 id_config"
  unfolding id_config_def by (rule reachable_run_from [OF reachable_sent]) code_simp

lemma reachable_answered: "client_reachable (slow_machine 100) snd True 1 answered_config"
  unfolding answered_config_def by (rule reachable_run_from [OF reachable_id]) code_simp

section \<open>What holds at every moment\<close>

lemma inv_table:
  assumes "client_inv tx cg" and "c < length (ct_conns (cg_client cg))"
  shows "table_inv (ct_calls (cg_client cg)) (mine (ct_calls (cg_client cg)) (cg_callers cg) c call_added)
           (cc_calls (ct_conns (cg_client cg) ! c)) (cc_last (ct_conns (cg_client cg) ! c))"
    "stream_inv (ct_calls (cg_client cg)) (mine (ct_calls (cg_client cg)) (cg_callers cg) c call_sent)
           (sent_on tx (ct_conns (cg_client cg) ! c))"
  using inv_conn [OF assms] by (simp_all add: conn_inv_def views_nth assms(2) cview_def)

lemma ids_inj:
  assumes "table_inv calls ks tab nxt" shows "inj_on (\<lambda>k. cl_id (calls ! k)) ks"
proof (rule inj_onI)
  fix j k
  assume j: "j \<in> ks" and k: "k \<in> ks" and same: "cl_id (calls ! j) = cl_id (calls ! k)"
  have "(cl_id (calls ! j), j) \<in> set tab" "(cl_id (calls ! k), k) \<in> set tab" and "distinct (map fst tab)"
    using assms j k by (simp_all add: table_inv_def)
  with same show "j = k" by (metis eq_key_imp_eq_value)
qed

text \<open>
  C9. Whatever the order in which threads call, connect, send and receive, what a connection has been
  given is the requests of its calls one after the other, each whole and once, with ids that
  differ: two threads that send at the same time never mix their bytes.
\<close>

theorem requests_whole:
  assumes net: "client_net P rx tx" and reach: "client_reachable P tx zeroed d cg"
    and c: "c < length (ct_conns (cg_client cg))"
  shows "\<exists>order. distinct order \<and> distinct (map (\<lambda>k. cl_id (ct_calls (cg_client cg) ! k)) order) \<and>
     set order = {k. k < length (ct_calls (cg_client cg)) \<and> cl_conn (ct_calls (cg_client cg) ! k) = Some c \<and>
       (cg_callers cg ! k = CWait \<or> cg_callers cg ! k = CDone)} \<and>
     sent_on tx (ct_conns (cg_client cg) ! c) =
       concat (map (\<lambda>k. i32_bytes (cl_id (ct_calls (cg_client cg) ! k)) @ enc (cl_param (ct_calls (cg_client cg) ! k))) order)"
proof -
  let ?calls = "ct_calls (cg_client cg)" and ?mine = "mine (ct_calls (cg_client cg)) (cg_callers cg) c"
  have inv: "client_inv tx cg" by (rule client_reachable_inv [OF net reach])
  obtain order where order: "distinct order" "set order = ?mine call_sent"
    "sent_on tx (ct_conns (cg_client cg) ! c) = concat (map (\<lambda>k. request_of (?calls ! k)) order)"
    using inv_table(2) [OF inv c] by (auto simp: stream_inv_def)
  have "inj_on (\<lambda>k. cl_id (?calls ! k)) (set order)"
    using ids_inj [OF inv_table(1) [OF inv c]] mine_subset [of ?calls "cg_callers cg" c] order(2) by (metis inj_on_subset)
  moreover have "call_sent pc \<longleftrightarrow> pc = CWait \<or> pc = CDone" for pc by (cases pc) simp_all
  ultimately show ?thesis
    using order by (intro exI [of _ order]) (auto simp: distinct_map mine_def request_of_def)
qed

theorem requests_whole_witness:
  "sent_on snd (ct_conns (cg_client sent_config) ! 0) \<noteq> [] \<and>
   (\<exists>order. distinct order \<and> distinct (map (\<lambda>k. cl_id (ct_calls (cg_client sent_config) ! k)) order) \<and>
     set order = {k. k < length (ct_calls (cg_client sent_config)) \<and> cl_conn (ct_calls (cg_client sent_config) ! k) = Some 0 \<and>
       (cg_callers sent_config ! k = CWait \<or> cg_callers sent_config ! k = CDone)} \<and>
     sent_on snd (ct_conns (cg_client sent_config) ! 0) =
       concat (map (\<lambda>k. i32_bytes (cl_id (ct_calls (cg_client sent_config) ! k)) @ enc (cl_param (ct_calls (cg_client sent_config) ! k))) order))"
proof
  show "sent_on snd (ct_conns (cg_client sent_config) ! 0) \<noteq> []" by code_simp
  have "0 < length (ct_conns (cg_client sent_config))" by code_simp
  from requests_whole [OF client_net_slow_machine reachable_sent this]
  show "\<exists>order. distinct order \<and> distinct (map (\<lambda>k. cl_id (ct_calls (cg_client sent_config) ! k)) order) \<and>
     set order = {k. k < length (ct_calls (cg_client sent_config)) \<and> cl_conn (ct_calls (cg_client sent_config) ! k) = Some 0 \<and>
       (cg_callers sent_config ! k = CWait \<or> cg_callers sent_config ! k = CDone)} \<and>
     sent_on snd (ct_conns (cg_client sent_config) ! 0) =
       concat (map (\<lambda>k. i32_bytes (cl_id (ct_calls (cg_client sent_config) ! k)) @ enc (cl_param (ct_calls (cg_client sent_config) ! k))) order)" .
qed

text \<open>
  C10. A receiver that has read an id hands the value that follows to the one call that carries this id
  on its connection, even while other threads add and send calls; with an id no call has, it
  aborts.
\<close>

theorem response_to_its_call:
  assumes net: "client_net P rx tx" and reach: "client_reachable P tx zeroed d cg"
    and c: "c < length (cg_receivers cg)" and i: "cg_receivers cg ! c = VFind i"
    and st: "client_step P zeroed d (ReceiverMove c) cg = Some r"
  shows "(\<exists>k cg'. r = Inr cg' \<and> cg_receivers cg' ! c = VValue k \<and>
      {j. j < length (ct_calls (cg_client cg)) \<and> cg_callers cg ! j \<in> {CSend, CWait, CDone} \<and>
          cl_conn (ct_calls (cg_client cg) ! j) = Some c \<and> cl_id (ct_calls (cg_client cg) ! j) = i} = {k}) \<or>
    (r = Inl Aborted \<and>
      {j. j < length (ct_calls (cg_client cg)) \<and> cg_callers cg ! j \<in> {CSend, CWait, CDone} \<and>
          cl_conn (ct_calls (cg_client cg) ! j) = Some c \<and> cl_id (ct_calls (cg_client cg) ! j) = i} = {})"
proof -
  let ?ct = "cg_client cg" and ?calls = "ct_calls (cg_client cg)" and ?tab = "cc_calls (ct_conns (cg_client cg) ! c)"
  let ?mine = "mine ?calls (cg_callers cg) c call_added"
  have inv: "client_inv tx cg" by (rule client_reachable_inv [OF net reach])
  have c': "c < length (ct_conns ?ct)" using c inv_lengths(2) [OF inv] by simp
  note tab = inv_table(1) [OF inv c']
  have "call_added pc \<longleftrightarrow> pc \<in> {CSend, CWait, CDone}" for pc by (cases pc) simp_all
  then have set: "{j. j < length ?calls \<and> cg_callers cg ! j \<in> {CSend, CWait, CDone} \<and> cl_conn (?calls ! j) = Some c \<and>
      cl_id (?calls ! j) = i} = {j \<in> ?mine. cl_id (?calls ! j) = i}" by (auto simp: mine_def)
  have r: "r = cmoment (recv_find c i) (\<lambda>k. receiver_to c (VValue k)) cg" using st c i by (simp split: if_splits)
  show ?thesis unfolding set
  proof (cases "map_of ?tab i")
    case None
    then have "i \<notin> fst ` set ?tab" by (simp add: map_of_eq_None_iff)
    then have "{j \<in> ?mine. cl_id (?calls ! j) = i} = {}" using tab by (auto simp: table_inv_def image_def)
    then show "(\<exists>k cg'. r = Inr cg' \<and> cg_receivers cg' ! c = VValue k \<and> {j \<in> ?mine. cl_id (?calls ! j) = i} = {k}) \<or>
        r = Inl Aborted \<and> {j \<in> ?mine. cl_id (?calls ! j) = i} = {}"
      using None c' by (simp add: r cmoment_def recv_find_def cconn_at_def sm_simps)
  next
    case (Some k)
    have "(i, k) \<in> set ?tab" using Some by (rule map_of_SomeD)
    then have "k \<in> ?mine" "cl_id (?calls ! k) = i" using tab by (auto simp: table_inv_def)
    then have "{j \<in> ?mine. cl_id (?calls ! j) = i} = {k}" using ids_inj [OF tab] by (auto dest: inj_onD)
    then show "(\<exists>k cg'. r = Inr cg' \<and> cg_receivers cg' ! c = VValue k \<and> {j \<in> ?mine. cl_id (?calls ! j) = i} = {k}) \<or>
        r = Inl Aborted \<and> {j \<in> ?mine. cl_id (?calls ! j) = i} = {}"
      using Some c c' by (simp add: r cmoment_def recv_find_def cconn_at_def sm_simps receiver_to_def)
  qed
qed

theorem response_to_its_call_witness:
  "\<exists>k cg'. client_step (slow_machine 100) True 1 (ReceiverMove 0) id_config = Some (Inr cg') \<and> cg_receivers cg' ! 0 = VValue k \<and>
    {j. j < length (ct_calls (cg_client id_config)) \<and> cg_callers id_config ! j \<in> {CSend, CWait, CDone} \<and>
        cl_conn (ct_calls (cg_client id_config) ! j) = Some 0 \<and> cl_id (ct_calls (cg_client id_config) ! j) = 1} = {k}"
proof -
  have c: "0 < length (cg_receivers id_config)" and i: "cg_receivers id_config ! 0 = VFind 1" by code_simp+
  have st: "case client_step (slow_machine 100) True 1 (ReceiverMove 0) id_config of Some (Inr cg') \<Rightarrow> True | _ \<Rightarrow> False" by code_simp
  then obtain cg' where r: "client_step (slow_machine 100) True 1 (ReceiverMove 0) id_config = Some (Inr cg')"
    by (simp only: split: option.splits sum.splits)
  from response_to_its_call [OF client_net_slow_machine reachable_id c i r] show ?thesis
    unfolding r by (elim disjE exE conjE) blast+
qed

section \<open>Values\<close>

text \<open>
  C12. A call returns only with a set value of exactly the class its caller has named, and only if that
  is one of the two classes of values there are: no response, whatever its bytes, makes the value
  of a call an object of another class or an integer that was never read.
\<close>

theorem done_calls_typed:
  assumes net: "client_net P rx tx" and reach: "client_reachable P tx zeroed d cg"
    and k: "k < length (ct_calls (cg_client cg))" and pc: "cg_callers cg ! k = CDone"
  shows "\<exists>w. cl_value (ct_calls (cg_client cg) ! k) = Some w \<and> get_class w = cl_class (ct_calls (cg_client cg) ! k) \<and>
    w \<noteq> IntWritable None \<and> cl_class (ct_calls (cg_client cg) ! k) \<in> {''IntWritable'', ''MethodWritable''}"
proof -
  let ?call = "ct_calls (cg_client cg) ! k"
  have "cl_done ?call \<and> cl_value ?call \<noteq> None"
    using inv_call [OF client_reachable_inv [OF net reach] k] pc by (simp add: call_inv_def)
  moreover have "typed_call ?call"
    using client_reachable_typed [OF net reach] k by (simp add: typed_inv_def Let_def)
  ultimately show ?thesis by (auto simp: typed_call_def fits_def get_new_instance_def split: if_splits)
qed

theorem done_calls_typed_witness:
  "\<exists>w. cl_value (ct_calls (cg_client answered_config) ! 1) = Some w \<and>
    get_class w = cl_class (ct_calls (cg_client answered_config) ! 1) \<and> w \<noteq> IntWritable None \<and>
    cl_class (ct_calls (cg_client answered_config) ! 1) \<in> {''IntWritable'', ''MethodWritable''}"
proof -
  have "1 < length (ct_calls (cg_client answered_config))" and "cg_callers answered_config ! 1 = CDone" by code_simp+
  from done_calls_typed [OF client_net_slow_machine reachable_answered this] show ?thesis .
qed

section \<open>Connections\<close>



section \<open>Progress\<close>


definition locked_config :: "wire cl_config" where
  "locked_config = run_from (slow_machine 100) True (take 3 two_calls) cl_init"

lemma reachable_locked: "client_reachable (slow_machine 100) snd True 1 locked_config"
  unfolding locked_config_def by (rule reachable_run_from [OF client_reachable.start]) code_simp


section \<open>An answer that arrives\<close>

lemma receiver_to_simps [simp]:
  "cg_client (receiver_to c pc cg) = cg_client cg"
  "cg_callers (receiver_to c pc cg) = cg_callers cg"
  "length (cg_receivers (receiver_to c pc cg)) = length (cg_receivers cg)"
  "c < length (cg_receivers cg) \<Longrightarrow> cg_receivers (receiver_to c pc cg) ! c = pc"
  "receiver_to c pc (receiver_to c pc' cg) = receiver_to c pc cg"
  "receiver_to c pc ((receiver_to c pc' cg)\<lparr>cg_client := ct\<rparr>) = receiver_to c pc (cg\<lparr>cg_client := ct\<rparr>)"
  "(receiver_to c pc cg)\<lparr>cg_client := ct\<rparr> = receiver_to c pc (cg\<lparr>cg_client := ct\<rparr>)"
  by (simp_all add: receiver_to_def)

lemma client_run_append:
  "client_run P zeroed d (as @ bs) cg = (case client_run P zeroed d as cg of
       Some (Inr cg') \<Rightarrow> client_run P zeroed d bs cg'
     | r \<Rightarrow> r)"
  by (induction as arbitrary: cg) (auto split: option.splits sum.splits)

text \<open>The five moves of a receiver that finds an integer for a call.\<close>

lemma receiver_answers:
  assumes P: "duplex P rx tx" "5 \<le> max_alloc P" and conn: "open_conn (cg_client cg) c s"
    and find: "map_of (cc_calls (ct_conns (cg_client cg) ! c)) i = Some k"
    and k: "k < length (ct_calls (cg_client cg))" "cl_class (ct_calls (cg_client cg) ! k) = ''IntWritable''"
    and c: "c < length (cg_receivers cg)" "cc_recv_started (ct_conns (cg_client cg) ! c)" "cg_receivers cg ! c = VWait n"
    and s: "rx s = enc_response i (i32_bytes x) @ rest"
  shows "\<exists>s'. client_run P zeroed (Suc d) (replicate 5 (ReceiverMove c)) cg =
    Some (Inr (receiver_to c (VWait 0) (cg\<lparr>cg_client := delivered c s' k x (cg_client cg)\<rparr>)))"
proof -
  let ?ct = "cg_client cg" and ?conn = "ct_conns (cg_client cg) ! c" and ?w = "IntWritable (Some (trunc8 x))"
  have "rx s = i32_bytes i @ (enc (IntWritable (Some x)) @ rest)" using s by (simp add: enc_response_int)
  from recv_id_run [where rx = rx, OF P(1) conn this] obtain s1 where
    1: "recv_id P c ?ct = (Inr (Some i), ?ct\<lparr>ct_conns := (ct_conns ?ct)[c := ?conn\<lparr>cc_sock := Some s1\<rparr>]\<rparr>)"
      "rx s1 = enc (IntWritable (Some x)) @ rest" by blast
  let ?ct1 = "?ct\<lparr>ct_conns := (ct_conns ?ct)[c := ?conn\<lparr>cc_sock := Some s1\<rparr>]\<rparr>"
  have c': "c < length (ct_conns ?ct)" and "open_conn ?ct1 c s1" using conn by (simp_all add: open_conn_def)
  from recv_int_run [where rx = rx, OF P this(2) _ _ 1(2), of k d] k c' obtain s2 where
    2: "recv_value P (Suc d) c k ?ct1 = (Inr ?w, ?ct\<lparr>ct_conns := (ct_conns ?ct)[c := ?conn\<lparr>cc_sock := Some s2\<rparr>]\<rparr>)"
    by auto
  let ?ct2 = "?ct\<lparr>ct_conns := (ct_conns ?ct)[c := ?conn\<lparr>cc_sock := Some s2\<rparr>]\<rparr>"
  have 3: "client_set_value k ?w ?ct2 = (Inr (), delivered c s2 k x ?ct)"
    using k(1) by (simp add: client_set_value_def set_call_def sm_simps print_to_string_def delivered_def)
  let ?cg = "\<lambda>pc ct. receiver_to c pc (cg\<lparr>cg_client := ct\<rparr>)" and ?step = "client_step P zeroed (Suc d) (ReceiverMove c)"
  have work: "has_calls ?conn" using find by (auto simp: has_calls_def)
  have "?step cg = Some (Inr (?cg VRead ?ct))" using c work by simp
  moreover have "?step (?cg VRead ?ct) = Some (Inr (?cg (VFind i) ?ct1))" using c by (simp add: cmoment_def sm_simps 1(1))
  moreover have "?step (?cg (VFind i) ?ct1) = Some (Inr (?cg (VValue k) ?ct1))"
    using c c' find by (simp add: cmoment_def recv_find_def cconn_at_def sm_simps)
  moreover have "?step (?cg (VValue k) ?ct1) = Some (Inr (?cg (VSet k ?w) ?ct2))" using c c' by (simp add: cmoment_def sm_simps 2)
  moreover have "?step (?cg (VSet k ?w) ?ct2) = Some (Inr (?cg (VWait 0) (delivered c s2 k x ?ct)))"
    using c c' by (simp add: cmoment_def sm_simps 3)
  ultimately show ?thesis by (intro exI [of _ s2]) (simp add: eval_nat_numeral del: client_step.simps)
qed

text \<open>
  C11. Whatever the threads have done before: when the response to a call that waits for an integer has
  arrived on its connection, and its receiver has come back to waiting for work and has not given
  up, five moves of the receiver and one of the caller end the call, with the lowest byte of the
  integer that was sent as its value.
\<close>

theorem answered_call_returns:
  assumes net: "client_net P rx tx" "5 \<le> max_alloc P" and reach: "client_reachable P tx zeroed (Suc d) cg"
    and k: "k < length (cg_callers cg)" "cg_callers cg ! k = CWait" "cl_class (ct_calls (cg_client cg) ! k) = ''IntWritable''"
    and c: "cl_conn (ct_calls (cg_client cg) ! k) = Some c" "cc_recv_started (ct_conns (cg_client cg) ! c)"
      "cg_receivers cg ! c = VWait n"
    and s: "cc_sock (ct_conns (cg_client cg) ! c) = Some s"
      "rx s = enc_response (cl_id (ct_calls (cg_client cg) ! k)) (i32_bytes x) @ rest"
  shows "\<exists>cg'. client_run P zeroed (Suc d) (replicate 5 (ReceiverMove c) @ [CallerMove k]) cg = Some (Inr cg') \<and>
    cg_callers cg' ! k = CDone \<and> cl_value (ct_calls (cg_client cg') ! k) = Some (IntWritable (Some (trunc8 x)))"
proof -
  let ?ct = "cg_client cg" and ?calls = "ct_calls (cg_client cg)" and ?conn = "ct_conns (cg_client cg) ! c"
  have inv: "client_inv tx cg" by (rule client_reachable_inv [OF net(1) reach])
  note lens = inv_lengths [OF inv]
  have kk: "k < length ?calls" using k(1) lens(1) by simp
  have c': "c < length (ct_conns ?ct)" using inv_call [OF inv kk] k(2) c(1) by (auto simp: call_inv_def)
  have conn: "open_conn ?ct c s"
    using life_conn [OF client_reachable_life [OF net(1) reach] c'] c' c(3) s(1) by (simp add: open_conn_def recv_life_def)
  have "k \<in> mine ?calls (cg_callers cg) c call_added" using kk k(2) c(1) by (simp add: mine_def)
  then have "map_of (cc_calls ?conn) (cl_id (?calls ! k)) = Some k"
    using inv_table(1) [OF inv c'] by (auto simp: table_inv_def intro: map_of_is_SomeI)
  from receiver_answers [OF net_duplex [OF net(1)] net(2) conn this kk k(3) _ c(2,3) s(2)] c' lens(2) obtain s' where
    run: "client_run P zeroed (Suc d) (replicate 5 (ReceiverMove c)) cg =
      Some (Inr (receiver_to c (VWait 0) (cg\<lparr>cg_client := delivered c s' k x ?ct\<rparr>)))" by auto
  then have "client_run P zeroed (Suc d) (replicate 5 (ReceiverMove c) @ [CallerMove k]) cg =
      Some (Inr (caller_to k CDone (receiver_to c (VWait 0) (cg\<lparr>cg_client := delivered c s' k x ?ct\<rparr>))))"
    using k kk by (simp add: client_run_append delivered_def)
  then show ?thesis using k kk by (simp add: caller_to_def delivered_def)
qed

definition waiting_config :: "wire cl_config" where
  "waiting_config = run_from (slow_machine 100) True (take 4 two_calls @ drop 5 two_calls) cl_init"

definition arrived_config :: "wire cl_config" where
  "arrived_config = run_from (slow_machine 100) True
     [Arrive 0 (enc_response 1 (i32_bytes 7), sent_on snd (ct_conns (cg_client waiting_config) ! 0))] waiting_config"

lemma reachable_waiting: "client_reachable (slow_machine 100) snd True 1 waiting_config"
  unfolding waiting_config_def by (rule reachable_run_from [OF client_reachable.start]) code_simp

lemma reachable_arrived: "client_reachable (slow_machine 100) snd True 1 arrived_config"
  unfolding arrived_config_def by (rule reachable_run_from [OF reachable_waiting]) code_simp

theorem answered_call_returns_witness:
  "\<exists>cg'. client_run (slow_machine 100) True (Suc 0) (replicate 5 (ReceiverMove 0) @ [CallerMove 1]) arrived_config = Some (Inr cg') \<and>
    cg_callers cg' ! 1 = CDone \<and> cl_value (ct_calls (cg_client cg') ! 1) = Some (IntWritable (Some 7))"
proof -
  have k: "1 < length (cg_callers arrived_config)" "cg_callers arrived_config ! 1 = CWait"
      "cl_class (ct_calls (cg_client arrived_config) ! 1) = ''IntWritable''"
    and c: "cl_conn (ct_calls (cg_client arrived_config) ! 1) = Some 0" "cc_recv_started (ct_conns (cg_client arrived_config) ! 0)"
      "cg_receivers arrived_config ! 0 = VWait 0"
    and s: "fst (the (cc_sock (ct_conns (cg_client arrived_config) ! 0))) =
      enc_response (cl_id (ct_calls (cg_client arrived_config) ! 1)) (i32_bytes 7) @ []"
      "cc_sock (ct_conns (cg_client arrived_config) ! 0) \<noteq> None" by code_simp+
  have sock: "cc_sock (ct_conns (cg_client arrived_config) ! 0) = Some (the (cc_sock (ct_conns (cg_client arrived_config) ! 0)))"
    using s(2) by (metis option.exhaust_sel)
  have t: "trunc8 7 = 7" by code_simp
  have M: "5 \<le> max_alloc (slow_machine 100)" by (simp add: slow_machine_def machine_def)
  from answered_call_returns [where rx = fst, OF client_net_slow_machine M reachable_arrived [unfolded One_nat_def] k c sock s(1)]
  show ?thesis unfolding t .
qed

end
