(* ===== verification/Client_Faults.thy ===== *)
theory Client_Faults
  imports Client_Safety
begin

text \<open>
  How the threads of a client can go wrong: exactly the seven ways of \<open>client_fault\<close>, each with the
  state in which it happens. Everything else the code could fail at (a null socket, a socket that
  its own receiver has deleted, an integer that was never read, a lookup of a lost call) does not
  happen in any interleaving.
\<close>

section \<open>The ways to go wrong\<close>

text \<open>The bytes received start with a value of class \<open>cls\<close> that the stack and the heap can hold.\<close>

definition readable :: "'s platform \<Rightarrow> nat \<Rightarrow> string \<Rightarrow> string \<Rightarrow> bool" where
  "readable P d cls bs \<longleftrightarrow> (\<exists>w rest. wire_ok (max_alloc P) w \<and> nest w \<le> d \<and> get_class w = cls \<and> bs = enc w @ rest)"

inductive client_fault :: "'s platform \<Rightarrow> ('s \<Rightarrow> string) \<Rightarrow> bool \<Rightarrow> nat \<Rightarrow> 's cl_config \<Rightarrow> 's cl_action \<Rightarrow> fault \<Rightarrow> bool"
  for P rx zeroed d cg where
  unset_pointer:
    "\<lbrakk>k < length (cg_callers cg); cg_callers cg ! k = CFind ep; cg_lock cg = None; \<not> zeroed;
      ct_reg (cg_client cg) (conn_key P ep) = None\<rbrakk>
     \<Longrightarrow> client_fault P rx zeroed d cg (CallerMove k) (Undefined UninitRead)"
| ids_used_up:
    "\<lbrakk>k < length (cg_callers cg); cg_callers cg ! k = CAdd c; sint (cc_last (ct_conns (cg_client cg) ! c)) = 2 ^ 31 - 1\<rbrakk>
     \<Longrightarrow> client_fault P rx zeroed d cg (CallerMove k) (Undefined SignedOverflow)"
| deleted_socket:
    "\<lbrakk>k < length (cg_callers cg); cg_callers cg ! k = CSend; cl_conn (ct_calls (cg_client cg) ! k) = Some c;
      cg_receivers cg ! c \<in> {VRemove, VClean, VOff}\<rbrakk>
     \<Longrightarrow> client_fault P rx zeroed d cg (CallerMove k) (Undefined UninitRead)"
| server_gone:
    "\<lbrakk>c < length (cg_receivers cg); cc_recv_started (ct_conns (cg_client cg) ! c); cg_receivers cg ! c = VRead;
      cc_sock (ct_conns (cg_client cg) ! c) = Some s; length (rx s) < 4\<rbrakk>
     \<Longrightarrow> client_fault P rx zeroed d cg (ReceiverMove c) (Undefined NullDeref)"
| unknown_id:
    "\<lbrakk>c < length (cg_receivers cg); cc_recv_started (ct_conns (cg_client cg) ! c); cg_receivers cg ! c = VFind i;
      i \<notin> fst ` set (cc_calls (ct_conns (cg_client cg) ! c))\<rbrakk>
     \<Longrightarrow> client_fault P rx zeroed d cg (ReceiverMove c) Aborted"
| bad_value:
    "\<lbrakk>c < length (cg_receivers cg); cc_recv_started (ct_conns (cg_client cg) ! c); cg_receivers cg ! c = VValue k;
      cc_sock (ct_conns (cg_client cg) ! c) = Some s; \<not> readable P d (cl_class (ct_calls (cg_client cg) ! k)) (rx s);
      fst (recv_value P d c k (cg_client cg)) = Inl e; \<And>x. e \<noteq> Throw x\<rbrakk>
     \<Longrightarrow> client_fault P rx zeroed d cg (ReceiverMove c) e"
| calls_left:
    "\<lbrakk>c < length (cg_receivers cg); cc_recv_started (ct_conns (cg_client cg) ! c); cg_receivers cg ! c = VClean;
      cc_calls (ct_conns (cg_client cg) ! c) \<noteq> []\<rbrakk>
     \<Longrightarrow> client_fault P rx zeroed d cg (ReceiverMove c) (Undefined BadIterator)"

inductive_simps client_fault_caller: "client_fault P rx zeroed d cg (CallerMove k) e"
inductive_simps client_fault_receiver: "client_fault P rx zeroed d cg (ReceiverMove c) e"
inductive_simps client_fault_env:
  "client_fault P rx zeroed d cg (NewCall p vc ep) e"
  "client_fault P rx zeroed d cg (Arrive c s) e"

lemma cmoment_Inl: "cmoment m f cg = Inl e \<longleftrightarrow> fst (m (cg_client cg)) = Inl e"
  by (auto simp: cmoment_def split: prod.splits sum.splits)

section \<open>Callers\<close>

lemma find_connect_fault:
  assumes valid: "conns_valid ct"
    and conns: "\<And>c. c < length (ct_conns ct) \<Longrightarrow> cc_sock (ct_conns ct ! c) \<noteq> None \<and>
      (cc_wild (ct_conns ct ! c) \<longrightarrow> cc_should_close (ct_conns ct ! c))"
  shows "fst (find_connect P zeroed ep ct) = Inl e \<longleftrightarrow>
    \<not> zeroed \<and> ct_reg ct (conn_key P ep) = None \<and> e = Undefined UninitRead"
proof (cases "ct_reg ct (conn_key P ep)")
  case None
  then show ?thesis
    by (auto simp: find_connect_def find_cconn_def connect_def cconn_at_def sm_simps set_cconn_def client_conn_new_def
        split: prod.splits)
next
  case (Some c)
  then have "c < length (ct_conns ct)" using valid by (simp add: conns_valid_def)
  then show ?thesis using conns Some
    by (auto simp: find_connect_def find_cconn_def connect_def cconn_at_def sm_simps)
qed

lemma add_to_conn_fault:
  assumes "c < length (ct_conns ct)" and "0 \<le> sint (cc_last (ct_conns ct ! c))"
  shows "fst (add_to_conn c k ct) = Inl e \<longleftrightarrow> sint (cc_last (ct_conns ct ! c)) = 2 ^ 31 - 1 \<and> e = Undefined SignedOverflow"
proof -
  have "sint (cc_last (ct_conns ct ! c)) < 2 ^ 31" using sint_lt [of "cc_last (ct_conns ct ! c)"] by simp
  then show ?thesis using assms
    by (auto simp: add_to_conn_def add_call_def cconn_at_def sm_simps set_call_def set_cconn_def add_i32_def)
qed

lemma send_call_fault:
  assumes P: "duplex P rx tx" and k: "k < length (ct_calls ct)" "cl_conn (ct_calls ct ! k) = Some c"
    and p: "initialised (cl_param (ct_calls ct ! k))" and c: "c < length (ct_conns ct)" "cc_sock (ct_conns ct ! c) = Some s"
  shows "fst (send_call P k ct) = Inl e \<longleftrightarrow> cc_wild (ct_conns ct ! c) \<and> e = Undefined UninitRead"
proof -
  obtain s' where "call_write_to P (ct_calls ct ! k) ((), Some s) = (Inr True, ((), Some s'))"
    using call_write_sends [OF P p, of s] by blast
  then show ?thesis using k c
    by (auto simp: send_call_def call_at_def sm_simps on_sock_def cconn_at_def)
qed

lemma caller_step_fault:
  assumes net: "client_net P rx tx" and inv: "client_inv tx cg" and life: "life_inv cg" and k: "k < length (cg_callers cg)"
  shows "caller_step P zeroed k (cg_callers cg ! k) cg = Some (Inl e) \<longleftrightarrow> client_fault P rx zeroed d cg (CallerMove k) e"
proof -
  note lens = inv_lengths [OF inv]
  have kk: "k < length (ct_calls (cg_client cg))" using k lens(1) by simp
  note call = inv_call [OF inv kk, unfolded call_inv_def]
  have conn: "cc_sock (ct_conns (cg_client cg) ! c) \<noteq> None \<and>
      (cc_wild (ct_conns (cg_client cg) ! c) \<longrightarrow> cc_should_close (ct_conns (cg_client cg) ! c)) \<and>
      (cc_wild (ct_conns (cg_client cg) ! c) \<longleftrightarrow> cg_receivers cg ! c \<in> {VRemove, VClean, VOff})"
    if "c < length (ct_conns (cg_client cg))" for c
    using life_conn [OF life that] closed_closing by (cases "cg_receivers cg ! c") (auto simp: recv_life_def)
  show ?thesis
  proof (cases "cg_callers cg ! k")
    case (CFind ep)
    with k find_connect_fault [OF lens(3), of P zeroed ep e] conn show ?thesis by (auto simp: client_fault_caller cmoment_Inl)
  next
    case (CAdd c)
    with call have c: "c < length (ct_conns (cg_client cg))" by simp
    have "0 \<le> sint (cc_last (ct_conns (cg_client cg) ! c))" using inv_table(1) [OF inv c] by (simp add: table_inv_def)
    from add_to_conn_fault [OF c this] k CAdd show ?thesis by (auto simp: client_fault_caller cmoment_Inl)
  next
    case CSend
    with call obtain c where c: "c < length (ct_conns (cg_client cg))" "cl_conn (ct_calls (cg_client cg) ! k) = Some c" by auto
    with conn obtain s where "cc_sock (ct_conns (cg_client cg) ! c) = Some s" by blast
    from send_call_fault [OF net_duplex [OF net] kk c(2) _ c(1) this] call conn [OF c(1)] c k CSend
    show ?thesis by (auto simp: client_fault_caller cmoment_Inl)
  qed (auto simp: client_fault_caller)
qed

section \<open>Receivers\<close>

lemma recv_id_fault:
  assumes P: "duplex P rx tx" and conn: "open_conn ct c s"
  shows "fst (bind_sm (recv_id P c) (\<lambda>r. case r of None \<Rightarrow> fail (Undefined NullDeref) | Some i \<Rightarrow> ret i) ct) = Inl e \<longleftrightarrow>
    length (rx s) < 4 \<and> e = Undefined NullDeref"
proof (cases "length (rx s) < 4")
  case True
  obtain s' where "sock_read P 4 ((), Some s) = (Inl (Throw SystemError), ((), Some s'))"
    using sock_read_throws [where rx = rx, OF P True, of "()"] by blast
  then show ?thesis using conn True
    by (auto simp: recv_id_def sm_simps on_sock_def cconn_at_def open_conn_def)
next
  case False
  then have "rx s = i32_bytes (i32_of_bytes (take 4 (rx s))) @ drop 4 (rx s)"
    by (simp add: i32_bytes_i32_of_bytes)
  from recv_id_run [where rx = rx, OF P conn this] False show ?thesis by (auto simp: sm_simps)
qed

lemma recv_value_readable:
  assumes P: "duplex P rx tx" and conn: "open_conn ct c s" and k: "k < length (ct_calls ct)"
    and ok: "readable P d (cl_class (ct_calls ct ! k)) (rx s)"
  shows "\<exists>w ct'. recv_value P d c k ct = (Inr w, ct')"
proof -
  obtain w rest where w: "wire_ok (max_alloc P) w" "nest w \<le> d" "get_class w = cl_class (ct_calls ct ! k)" "rx s = enc w @ rest"
    using ok by (auto simp: readable_def)
  from read_fields_receives [OF P w(2,1,4)] obtain s' where
    "read_fields P d (get_new_instance (get_class w), Some s) = (Inr (rw_code w), (wire_image w, Some s'))" by blast
  from on_sock_run [where m = "read_fields P d", OF conn this] k w(3) show ?thesis
    by (simp add: recv_value_def call_at_def sm_simps)
qed

lemma caught_fault:
  "fst (try_catch (bind_sm m (\<lambda>w. ret (Some w))) (\<lambda>_. ret None) ct) = Inl e \<longleftrightarrow> fst (m ct) = Inl e \<and> (\<forall>x. e \<noteq> Throw x)"
  by (auto simp: sm_simps split: prod.splits sum.splits fault.splits)

lemma set_value_no_fault: "w \<noteq> IntWritable None \<Longrightarrow> \<exists>ct'. try_catch (client_set_value k w) (\<lambda>_. ret ()) ct = (Inr (), ct')"
  by (auto simp: client_set_value_def set_call_def sm_simps print_to_string_def split: writable.split option.split)

lemma receiver_step_fault:
  assumes net: "client_net P rx tx" and inv: "client_inv tx cg" and life: "life_inv cg" and typed: "typed_inv cg"
    and c: "c < length (cg_receivers cg)" "cc_recv_started (ct_conns (cg_client cg) ! c)"
  shows "receiver_step P d c (cg_receivers cg ! c) cg = Some (Inl e) \<longleftrightarrow> client_fault P rx zeroed d cg (ReceiverMove c) e"
proof -
  have c': "c < length (ct_conns (cg_client cg))" using c(1) inv_lengths(2) [OF inv] by simp
  note conn = life_conn [OF life c', unfolded recv_life_def]
  obtain s where s: "cc_sock (ct_conns (cg_client cg) ! c) = Some s" using conn by auto
  have opened: "open_conn (cg_client cg) c s" if "\<not> closed (cg_receivers cg ! c)" using that conn c' s by (simp add: open_conn_def)
  show ?thesis
  proof (cases "cg_receivers cg ! c")
    case (VWait n)
    then show ?thesis by (auto simp: client_fault_receiver cmoment_Inl set_cconn_def sm_simps)
  next
    case VRead
    with recv_id_fault [OF net_duplex [OF net] opened] c s show ?thesis by (auto simp: client_fault_receiver cmoment_Inl)
  next
    case (VFind i)
    with c c' show ?thesis
      by (cases "map_of (cc_calls (ct_conns (cg_client cg) ! c)) i")
        (auto simp: client_fault_receiver cmoment_Inl recv_find_def cconn_at_def sm_simps simp flip: map_of_eq_None_iff)
  next
    case (VValue k)
    then have "k < length (ct_calls (cg_client cg))"
      using inv_recv [OF inv c'] by (simp add: recv_inv_def mine_def)
    with recv_value_readable [OF net_duplex [OF net] opened] VValue
    have "\<not> readable P d (cl_class (ct_calls (cg_client cg) ! k)) (rx s)" if "fst (recv_value P d c k (cg_client cg)) = Inl e"
      using that by fastforce
    with VValue c s show ?thesis by (auto simp: client_fault_receiver cmoment_Inl caught_fault)
  next
    case (VSet k w)
    then have "w \<noteq> IntWritable None" using typed_held [OF typed inv c(1)] by (auto simp: fits_def)
    from set_value_no_fault [OF this, of k "cg_client cg"] VSet show ?thesis by (auto simp: client_fault_receiver cmoment_Inl)
  next
    case VClose
    with conn c' s show ?thesis
      by (auto simp: client_fault_receiver cmoment_Inl client_close_sock_def cconn_at_def sm_simps set_cconn_def)
  next
    case VRemove
    then show ?thesis by (auto simp: client_fault_receiver cmoment_Inl remove_connection_def)
  next
    case VClean
    with c c' show ?thesis
      by (auto simp: client_fault_receiver cmoment_Inl cleanup_calls_def cconn_at_def sm_simps set_cconn_def)
  next
    case VOff
    then show ?thesis by (auto simp: client_fault_receiver)
  qed
qed

section \<open>Exactly these\<close>


text \<open>
  The closing race: the receiver of a connection gives up and deletes the socket while a caller,
  which has found the connection and added its call, has not sent it yet.
\<close>

definition race_actions :: "wire cl_action list" where
  "race_actions = take 1 two_calls @ [CallerMove 0] @ replicate 5 (ReceiverMove 0) @ [CallerMove 0, ReceiverMove 0]"

definition race_config :: "wire cl_config" where
  "race_config = run_from (slow_machine 100) True race_actions cl_init"

lemma reachable_race: "client_reachable (slow_machine 100) snd True 1 race_config"
  unfolding race_config_def by (rule reachable_run_from [OF client_reachable.start]) code_simp


end
