(* ===== verification/Client_Answers.thy ===== *)
theory Client_Answers
  imports Client_Faults
begin

text \<open>
  A client and the responses that arrive: in every interleaving, what a receiver has not read yet is
  the end of what has arrived on its connection (\<open>unread_inv\<close>), so a receiver never gets out of
  step, and the value of a call is the one a response with its id has brought.
\<close>

section \<open>Arriving responses\<close>

text \<open>Calls of this program ask for integers. Responses arrive whole, any number at a time.\<close>

fun plain_action :: "'s cl_action \<Rightarrow> bool" where
  "plain_action (NewCall p vc ep) \<longleftrightarrow> vc = ''IntWritable''"
| "plain_action (Arrive c s) \<longleftrightarrow> False"
| "plain_action _ \<longleftrightarrow> True"

definition unread_on :: "('s \<Rightarrow> string) \<Rightarrow> 's client_conn \<Rightarrow> string" where
  "unread_on rx conn = (case cc_sock conn of None \<Rightarrow> [] | Some s \<Rightarrow> rx s)"

text \<open>\<open>got c\<close> are the responses that have arrived on connection \<open>c\<close>, as ids and values.\<close>

inductive receives :: "'s platform \<Rightarrow> ('s \<Rightarrow> string) \<Rightarrow> ('s \<Rightarrow> string) \<Rightarrow> bool \<Rightarrow> nat \<Rightarrow> (nat \<Rightarrow> (i32 \<times> i32) list) \<Rightarrow>
    's cl_config \<Rightarrow> bool" for P rx tx zeroed d where
  start: "receives P rx tx zeroed d (\<lambda>_. []) cl_init"
| arrive: "receives P rx tx zeroed d got cg \<Longrightarrow> client_step P zeroed d (Arrive c s) cg = Some (Inr cg') \<Longrightarrow>
    rx s = unread_on rx (ct_conns (cg_client cg) ! c) @ response_bytes rs \<Longrightarrow> tx s = sent_on tx (ct_conns (cg_client cg) ! c) \<Longrightarrow>
    receives P rx tx zeroed d (got(c := got c @ rs)) cg'"
| move: "receives P rx tx zeroed d got cg \<Longrightarrow> plain_action a \<Longrightarrow> fair_action tx a cg \<Longrightarrow>
    client_step P zeroed d a cg = Some (Inr cg') \<Longrightarrow> receives P rx tx zeroed d got cg'"

lemma receives_reachable: "receives P rx tx zeroed d got cg \<Longrightarrow> client_reachable P tx zeroed d cg"
proof (induction rule: receives.induct)
  case (arrive got cg c s cg' rs)
  show ?case by (rule client_reachable.move [OF arrive.IH _ arrive.hyps(2)]) (simp add: arrive.hyps(4))
qed (blast intro: client_reachable.intros)+

lemma response_bytes_append [simp]: "response_bytes (as @ bs) = response_bytes as @ response_bytes bs"
  by (simp add: response_bytes_def)

lemma response_bytes_Cons: "response_bytes ((i, x) # rs) = i32_bytes i @ enc (IntWritable (Some x)) @ response_bytes rs"
  by (simp add: response_bytes_def enc_response_int)

section \<open>The invariant\<close>

text \<open>The value \<open>w\<close> has come to a call in one of the responses \<open>rs\<close>.\<close>

definition brought :: "client_call \<Rightarrow> (i32 \<times> i32) list \<Rightarrow> writable \<Rightarrow> bool" where
  "brought call rs w \<longleftrightarrow> (\<exists>x. (cl_id call, x) \<in> set rs \<and> w = IntWritable (Some (trunc8 x)))"

text \<open>What is unread on a connection whose receiver is at a point, when \<open>rs\<close> has arrived.\<close>

fun unread_inv :: "client_call list \<Rightarrow> receiver_pc \<Rightarrow> (i32 \<times> i32) list \<Rightarrow> string \<Rightarrow> bool" where
  "unread_inv calls (VFind i) rs bs \<longleftrightarrow> (\<exists>used x rest. rs = used @ (i, x) # rest \<and> bs = enc (IntWritable (Some x)) @ response_bytes rest)"
| "unread_inv calls (VValue k) rs bs \<longleftrightarrow>
     (\<exists>used x rest. rs = used @ (cl_id (calls ! k), x) # rest \<and> bs = enc (IntWritable (Some x)) @ response_bytes rest)"
| "unread_inv calls (VSet k w) rs bs \<longleftrightarrow> brought (calls ! k) rs w \<and> (\<exists>used rest. rs = used @ rest \<and> bs = response_bytes rest)"
| "unread_inv calls VRemove rs bs \<longleftrightarrow> True"
| "unread_inv calls VClean rs bs \<longleftrightarrow> True"
| "unread_inv calls VOff rs bs \<longleftrightarrow> True"
| "unread_inv calls pc rs bs \<longleftrightarrow> (\<exists>used rest. rs = used @ rest \<and> bs = response_bytes rest)"

definition value_inv :: "client_call list \<Rightarrow> caller_pc list \<Rightarrow> (nat \<Rightarrow> (i32 \<times> i32) list) \<Rightarrow> nat \<Rightarrow> bool" where
  "value_inv calls callers got k \<longleftrightarrow> cl_class (calls ! k) = ''IntWritable'' \<and>
     (\<forall>w. cl_value (calls ! k) = Some w \<longrightarrow> (\<exists>c. k \<in> mine calls callers c call_added \<and> brought (calls ! k) (got c) w))"

definition receives_inv :: "('s \<Rightarrow> string) \<Rightarrow> (nat \<Rightarrow> (i32 \<times> i32) list) \<Rightarrow> 's cl_config \<Rightarrow> bool" where
  "receives_inv rx got cg \<longleftrightarrow> (let ct = cg_client cg; calls = ct_calls ct; n = length (ct_conns ct) in
     (\<forall>k < length calls. value_inv calls (cg_callers cg) got k) \<and>
     (\<forall>c < n. unread_inv calls (cg_receivers cg ! c) (got c) (unread_on rx (ct_conns ct ! c))) \<and>
     (\<forall>c \<ge> n. got c = []))"

lemma brought_more: "brought call rs w \<Longrightarrow> brought call (rs @ rs') w"
  by (auto simp: brought_def)

lemma unread_more: "unread_inv calls pc rs bs \<Longrightarrow> unread_inv calls pc (rs @ rs') (bs @ response_bytes rs')"
  by (cases pc) (auto simp: brought_more, (metis append.assoc response_bytes_append)+)

text \<open>Only the id of a call matters to what is unread.\<close>

lemma unread_calls:
  assumes "unread_inv calls pc rs bs" and "\<And>k w. pc = VValue k \<or> pc = VSet k w \<Longrightarrow> cl_id (calls' ! k) = cl_id (calls ! k)"
  shows "unread_inv calls' pc rs bs"
  using assms by (cases pc) (auto simp: brought_def)

lemma receives_conn: "receives_inv rx got cg \<Longrightarrow> c < length (ct_conns (cg_client cg)) \<Longrightarrow>
    unread_inv (ct_calls (cg_client cg)) (cg_receivers cg ! c) (got c) (unread_on rx (ct_conns (cg_client cg) ! c))"
  by (simp add: receives_inv_def Let_def)

lemma receives_call: "receives_inv rx got cg \<Longrightarrow> k < length (ct_calls (cg_client cg)) \<Longrightarrow>
    value_inv (ct_calls (cg_client cg)) (cg_callers cg) got k"
  by (simp add: receives_inv_def Let_def)

lemma receives_new: "receives_inv rx got cg \<Longrightarrow> length (ct_conns (cg_client cg)) \<le> c \<Longrightarrow> got c = []"
  by (simp add: receives_inv_def Let_def)

section \<open>Receivers\<close>

lemma receives_receiver:
  assumes inv: "receives_inv rx got cg" and len: "length (cg_receivers cg) = length (ct_conns (cg_client cg))"
    and ct: "ct_calls ct = ct_calls (cg_client cg)" "ct_conns ct = (ct_conns (cg_client cg))[c := conn]"
    and pc: "unread_inv (ct_calls (cg_client cg)) pc (got c) (unread_on rx conn)"
  shows "receives_inv rx got (receiver_to c pc (cg\<lparr>cg_client := ct\<rparr>))"
proof -
  have "unread_inv (ct_calls (cg_client cg)) ((cg_receivers cg)[c := pc] ! j) (got j) (unread_on rx (ct_conns ct ! j))"
    if "j < length (ct_conns ct)" for j
    using receives_conn [OF inv, of j] that pc len ct(2) by (cases "j = c") simp_all
  then show ?thesis using inv ct by (simp add: receives_inv_def Let_def receiver_to_def)
qed

lemma receives_still:
  assumes inv: "receives_inv rx got cg" and len: "length (cg_receivers cg) = length (ct_conns (cg_client cg))"
    and ct: "ct_calls ct = ct_calls (cg_client cg)" "ct_conns ct = ct_conns (cg_client cg)"
    and pc: "unread_inv (ct_calls (cg_client cg)) pc (got c) (unread_on rx (ct_conns (cg_client cg) ! c))"
  shows "receives_inv rx got (receiver_to c pc (cg\<lparr>cg_client := ct\<rparr>))"
  by (rule receives_receiver [OF inv len ct(1), where conn = "ct_conns (cg_client cg) ! c"]) (simp_all add: ct pc)

lemma recv_id_nothing:
  assumes P: "duplex P rx tx" and conn: "open_conn ct c s" and rx: "rx s = []"
  shows "fst (recv_id P c ct) = Inr None"
proof -
  from sock_read_throws [OF P, of s 4 "()"] rx obtain s' where "sock_read P 4 ((), Some s) = (Inl (Throw SystemError), ((), Some s'))" by auto
  with conn show ?thesis by (simp add: recv_id_def on_sock_def cconn_at_def sm_simps open_conn_def)
qed

lemma set_value_receives:
  assumes inv: "receives_inv rx got cg" and len: "length (cg_receivers cg) = length (ct_conns (cg_client cg))"
    and c: "c < length (ct_conns (cg_client cg))" "cg_receivers cg ! c = VSet k w"
    and k: "k \<in> mine (ct_calls (cg_client cg)) (cg_callers cg) c call_added"
    and ct: "ct = (cg_client cg)\<lparr>ct_calls := (ct_calls (cg_client cg))
        [k := (ct_calls (cg_client cg) ! k)\<lparr>cl_value := Some w, cl_done := b\<rparr>]\<rparr>"
  shows "receives_inv rx got (receiver_to c (VWait 0) (cg\<lparr>cg_client := ct\<rparr>))"
proof -
  let ?calls = "ct_calls (cg_client cg)" and ?conns = "ct_conns (cg_client cg)"
  have old: "brought (?calls ! k) (got c) w" "\<exists>used rest. got c = used @ rest \<and> unread_on rx (?conns ! c) = response_bytes rest"
    using receives_conn [OF inv c(1)] c(2) by simp_all
  have id: "cl_id (ct_calls ct ! j) = cl_id (?calls ! j)" for j
    using k by (cases "j = k") (simp_all add: ct mine_def)
  have "cl_conn (ct_calls ct ! j) = cl_conn (?calls ! j)" for j using k by (cases "j = k") (simp_all add: ct mine_def)
  then have mine: "mine (ct_calls ct) (cg_callers cg) c' call_added = mine ?calls (cg_callers cg) c' call_added" for c'
    by (simp add: mine_def) (simp add: ct)
  have "value_inv (ct_calls ct) (cg_callers cg) got j" if j: "j < length ?calls" for j
  proof (cases "j = k")
    case True
    have "ct_calls ct ! k = (?calls ! k)\<lparr>cl_value := Some w, cl_done := b\<rparr>" using True j by (simp add: ct)
    with receives_call [OF inv j] old(1) k True show ?thesis
      by (auto simp: value_inv_def mine brought_def intro!: exI [of _ c])
  next
    case False
    with receives_call [OF inv j] show ?thesis by (simp add: value_inv_def mine id brought_def) (simp add: ct)
  qed
  moreover have "unread_inv (ct_calls ct) ((cg_receivers cg)[c := VWait 0] ! j) (got j) (unread_on rx (?conns ! j))" if "j < length ?conns" for j
    using old(2) len that unread_calls [OF receives_conn [OF inv that] id] by (cases "j = c") simp_all
  ultimately show ?thesis using receives_new [OF inv] by (simp add: receives_inv_def Let_def receiver_to_def) (simp add: ct)
qed

text \<open>Reading the id of a response, and its value: what arrives is read in order.\<close>

lemma id_receives:
  assumes P: "duplex P rx tx" and rec: "receives_inv rx got cg" and len: "length (cg_receivers cg) = length (ct_conns (cg_client cg))"
    and c: "c < length (ct_conns (cg_client cg))" and s: "cc_sock (ct_conns (cg_client cg) ! c) = Some s"
    and conn: "open_conn (cg_client cg) c s" and u: "\<exists>used rest. got c = used @ rest \<and> rx s = response_bytes rest"
    and run: "recv_id P c (cg_client cg) = (Inr (Some i), ct)"
  shows "receives_inv rx got (receiver_to c (VFind i) (cg\<lparr>cg_client := ct\<rparr>))"
proof -
  let ?ct = "cg_client cg" and ?conn = "ct_conns (cg_client cg) ! c"
  obtain used rest where got: "got c = used @ rest" "rx s = response_bytes rest" using u by auto
  show ?thesis
  proof (cases rest)
    case Nil
    then have "rx s = []" using got(2) by (simp add: response_bytes_def)
    from recv_id_nothing [OF P conn this] run show ?thesis by simp
  next
    case (Cons r rest')
    obtain i' x where r: "r = (i', x)" by (cases r)
    have "rx s = i32_bytes i' @ (enc (IntWritable (Some x)) @ response_bytes rest')"
      using got(2) by (simp add: Cons r response_bytes_Cons)
    from recv_id_run [OF P conn this] run obtain s' where
      "i' = i" "ct = ?ct\<lparr>ct_conns := (ct_conns ?ct)[c := ?conn\<lparr>cc_sock := Some s'\<rparr>]\<rparr>" "rx s' = enc (IntWritable (Some x)) @ response_bytes rest'"
      by auto
    then show ?thesis
      by (intro receives_receiver [OF rec len, where conn = "?conn\<lparr>cc_sock := Some s'\<rparr>"]) (use got(1) Cons r in \<open>auto simp: unread_on_def\<close>)
  qed
qed

lemma value_receives:
  assumes P: "duplex P rx tx" "5 \<le> max_alloc P" and rec: "receives_inv rx got cg"
    and len: "length (cg_receivers cg) = length (ct_conns (cg_client cg))"
    and c: "c < length (ct_conns (cg_client cg))" and s: "cc_sock (ct_conns (cg_client cg) ! c) = Some s"
    and conn: "\<not> closed (cg_receivers cg ! c) \<Longrightarrow> open_conn (cg_client cg) c s"
    and k: "k < length (ct_calls (cg_client cg))" and pc: "cg_receivers cg ! c = VValue k"
    and run: "recv_value P (Suc d) c k (cg_client cg) = (r, ct)"
  shows "\<exists>w. r = Inr w \<and> receives_inv rx got (receiver_to c (VSet k w) (cg\<lparr>cg_client := ct\<rparr>))"
proof -
  let ?ct = "cg_client cg" and ?conn = "ct_conns (cg_client cg) ! c"
  obtain used x rest where got: "got c = used @ (cl_id (ct_calls ?ct ! k), x) # rest" "rx s = enc (IntWritable (Some x)) @ response_bytes rest"
    using receives_conn [OF rec c] s pc by (auto simp: unread_on_def)
  have cls: "cl_class (ct_calls ?ct ! k) = ''IntWritable''" using receives_call [OF rec k] by (simp add: value_inv_def)
  have "open_conn ?ct c s" using conn pc by simp
  from recv_int_run [OF P this k cls got(2), of d] run obtain s' where
    s': "r = Inr (IntWritable (Some (trunc8 x)))" "ct = ?ct\<lparr>ct_conns := (ct_conns ?ct)[c := ?conn\<lparr>cc_sock := Some s'\<rparr>]\<rparr>" "rx s' = response_bytes rest"
    by auto
  have "\<exists>used' rest'. got c = used' @ rest' \<and> response_bytes rest = response_bytes rest'"
    using got(1) by (intro exI [of _ "used @ [(cl_id (ct_calls ?ct ! k), x)]"] exI [of _ rest]) simp
  moreover have "brought (ct_calls ?ct ! k) (got c) (IntWritable (Some (trunc8 x)))" using got(1) by (auto simp: brought_def)
  ultimately have "receives_inv rx got (receiver_to c (VSet k (IntWritable (Some (trunc8 x)))) (cg\<lparr>cg_client := ct\<rparr>))"
    by (intro receives_receiver [OF rec len, where conn = "?conn\<lparr>cc_sock := Some s'\<rparr>"]) (use s'(2,3) in \<open>simp_all add: unread_on_def\<close>)
  with s'(1) show ?thesis by blast
qed

lemma receiver_step_receives:
  assumes net: "client_net P rx tx" "5 \<le> max_alloc P" and inv: "client_inv tx cg" and life: "life_inv cg"
    and rec: "receives_inv rx got cg"
    and c: "c < length (cg_receivers cg)" "cc_recv_started (ct_conns (cg_client cg) ! c)"
    and st: "receiver_step P (Suc d) c (cg_receivers cg ! c) cg = Some (Inr cg')"
  shows "receives_inv rx got cg'"
proof -
  let ?ct = "cg_client cg" and ?conn = "ct_conns (cg_client cg) ! c"
  have len: "length (cg_receivers cg) = length (ct_conns ?ct)" using inv_lengths(2) [OF inv] .
  have c': "c < length (ct_conns ?ct)" using c(1) len by simp
  have P: "duplex P rx tx" by (rule net_duplex [OF net(1)])
  have l: "recv_life (cg_receivers cg ! c) ?conn" by (rule life_conn [OF life c'])
  then obtain s where s: "cc_sock ?conn = Some s" by (auto simp: recv_life_def)
  have conn: "open_conn ?ct c s" if "\<not> closed (cg_receivers cg ! c)" using l s c' that by (simp add: open_conn_def recv_life_def)
  have u: "unread_inv (ct_calls ?ct) (cg_receivers cg ! c) (got c) (rx s)"
    using receives_conn [OF rec c'] s by (simp add: unread_on_def)
  note still = receives_still [OF rec len refl refl, of _ c] and moved = receives_receiver [OF rec len]
  have un: "unread_on rx ?conn = rx s" using s by (simp add: unread_on_def)
  have "k \<in> mine (ct_calls ?ct) (cg_callers cg) c call_added" if "cg_receivers cg ! c = VValue k \<or> (\<exists>w. cg_receivers cg ! c = VSet k w)" for k
    using inv_recv [OF inv c'] that by (auto simp: recv_inv_def)
  note held = this
  from st c' show ?thesis
  proof (cases rule: receiver_stepE)
    case (work n)
    with still [of VRead] u un show ?thesis by simp
  next
    case (again n)
    with still [of "VWait (Suc n)"] u un show ?thesis by simp
  next
    case (idle n ct)
    show ?thesis unfolding idle(4) by (rule moved [where conn = "mark_closed ?conn"]) (use idle u s in \<open>simp_all add: mark_closed_def unread_on_def\<close>)
  next
    case (read i ct)
    show ?thesis unfolding read(3)
      by (rule id_receives [OF P rec len c' s _ _ read(2)]) (use conn u read(1) in simp_all)
  next
    case (find i k)
    from table_lookup [OF inv_conn [OF inv c'], of i k] find(2) c' have "cl_id (ct_calls ?ct ! k) = i"
      by (simp add: views_nth cview_def)
    with still [of "VValue k"] u un find show ?thesis by simp
  next
    case (dropped k e ct)
    have k: "k < length (ct_calls ?ct)" using held [of k] dropped(1) by (simp add: mine_def)
    from value_receives [OF P net(2) rec len c' s conn k dropped(1,2)] dropped(1) show ?thesis by simp
  next
    case (valued k w ct)
    have k: "k < length (ct_calls ?ct)" using held [of k] valued(1) by (simp add: mine_def)
    from value_receives [OF P net(2) rec len c' s conn k valued(1,2)] valued(1) show ?thesis by (auto simp: valued(3))
  next
    case (set k w b ct)
    from set_value_receives [OF rec len c' set(1) held set(4)] set(1) show ?thesis unfolding set(5) by blast
  next
    case (closed u ct)
    have ct: "ct_calls ct = ct_calls ?ct" "\<exists>conn. ct_conns ct = (ct_conns ?ct)[c := conn]"
      using closed(2) c' by (auto simp: client_close_sock_def cconn_at_def set_cconn_def sm_simps split: if_splits)
    then show ?thesis unfolding closed(3) using moved [of ct c _ VRemove] by auto
  next
    case (removed ep u ct)
    have "ct_calls ct = ct_calls ?ct" "ct_conns ct = ct_conns ?ct" using removed(3) by (auto simp: remove_connection_def)
    from receives_still [OF rec len this, of VClean c] show ?thesis unfolding removed(4) by simp
  next
    case cleaned
    with still [of VOff] show ?thesis by simp
  qed
qed

section \<open>Callers\<close>

lemma receives_caller:
  assumes inv: "client_inv tx cg" and rec: "receives_inv rx got cg" and k: "k < length (cg_callers cg)"
    and calls: "ct_calls (cg_client cg') = ct_calls (cg_client cg) \<or> \<not> call_added (cg_callers cg ! k) \<and>
      ct_calls (cg_client cg') = (ct_calls (cg_client cg))[k := (ct_calls (cg_client cg) ! k)\<lparr>cl_id := i, cl_conn := Some c\<rparr>]"
    and callers: "cg_callers cg' = (cg_callers cg)[k := pc]" "call_added (cg_callers cg ! k) \<longrightarrow> call_added pc"
    and more: "length (ct_conns (cg_client cg)) \<le> length (ct_conns (cg_client cg'))"
    and old: "\<And>c. c < length (ct_conns (cg_client cg)) \<Longrightarrow> cg_receivers cg' ! c = cg_receivers cg ! c \<and>
        unread_on rx (ct_conns (cg_client cg') ! c) = unread_on rx (ct_conns (cg_client cg) ! c)"
    and new: "\<And>c. length (ct_conns (cg_client cg)) \<le> c \<Longrightarrow> c < length (ct_conns (cg_client cg')) \<Longrightarrow>
        cg_receivers cg' ! c = VWait 0 \<and> unread_on rx (ct_conns (cg_client cg') ! c) = []"
  shows "receives_inv rx got cg'"
proof -
  let ?calls = "ct_calls (cg_client cg)" and ?calls' = "ct_calls (cg_client cg')" and ?n = "length (ct_conns (cg_client cg))"
  have kk: "k < length ?calls" using k inv_lengths(1) [OF inv] by simp
  have others: "?calls' ! j = ?calls ! j" if "j \<noteq> k \<or> call_added (cg_callers cg ! k)" for j
    using calls that by auto
  have lens: "length ?calls' = length ?calls" using calls by auto
  have keep: "j \<in> mine ?calls' (cg_callers cg') c' call_added \<and> ?calls' ! j = ?calls ! j"
    if "j \<in> mine ?calls (cg_callers cg) c' call_added" for j c'
    using that others [of j] callers k lens by (cases "j = k") (auto simp: mine_def)
  have "value_inv ?calls' (cg_callers cg') got j" if j: "j < length ?calls" for j
  proof -
    have "cl_class (?calls' ! j) = cl_class (?calls ! j) \<and> cl_value (?calls' ! j) = cl_value (?calls ! j)"
      using calls kk by (cases "j = k") auto
    with receives_call [OF rec j] keep show ?thesis by (auto simp: value_inv_def) metis
  qed
  moreover have "unread_inv ?calls' (cg_receivers cg' ! j) (got j) (unread_on rx (ct_conns (cg_client cg') ! j))"
    if j: "j < length (ct_conns (cg_client cg'))" for j
  proof (cases "j < ?n")
    case True
    have "cl_id (?calls' ! m) = cl_id (?calls ! m)" if "cg_receivers cg ! j = VValue m \<or> cg_receivers cg ! j = VSet m w" for m w
      using inv_recv [OF inv True] that keep [of m j] by (auto simp: recv_inv_def)
    from unread_calls [OF receives_conn [OF rec True] this] old [OF True] show ?thesis by simp
  next
    case False
    with new [of j] j receives_new [OF rec, of j] show ?thesis by (simp add: response_bytes_def)
  qed
  ultimately show ?thesis using receives_new [OF rec] more lens by (simp add: receives_inv_def Let_def)
qed

lemma send_call_unread:
  assumes P: "duplex P rx tx" and run: "send_call P k ct = (Inr b, ct')" and p: "initialised (cl_param (ct_calls ct ! k))"
  shows "length (ct_conns ct') = length (ct_conns ct) \<and> ct_calls ct' = ct_calls ct \<and>
    (\<forall>j < length (ct_conns ct). unread_on rx (ct_conns ct' ! j) = unread_on rx (ct_conns ct ! j))"
proof -
  let ?call = "ct_calls ct ! k"
  obtain c r where c: "cl_conn ?call = Some c" and on: "on_sock c () (call_write_to P ?call) ct = (r, ct')" and "\<exists>a. r = Inr a"
    using run by (auto simp: send_call_def call_at_def sm_simps split: if_splits option.splits prod.splits sum.splits)
  from on_sock_effect [OF on] show ?thesis
  proof
    assume "ct' = ct"
    then show ?thesis by simp
  next
    assume "c < length (ct_conns ct) \<and> (\<exists>r' x' p'. call_write_to P ?call ((), cc_sock (ct_conns ct ! c)) = (r', (x', p')) \<and>
       ct' = ct\<lparr>ct_conns := (ct_conns ct)[c := (ct_conns ct ! c)\<lparr>cc_sock := p'\<rparr>]\<rparr>)"
    then obtain r' x' p' where w: "call_write_to P ?call ((), cc_sock (ct_conns ct ! c)) = (r', (x', p'))"
      and ct': "ct' = ct\<lparr>ct_conns := (ct_conns ct)[c := (ct_conns ct ! c)\<lparr>cc_sock := p'\<rparr>]\<rparr>" by blast
    have "(case p' of None \<Rightarrow> [] | Some s \<Rightarrow> rx s) = unread_on rx (ct_conns ct ! c)"
    proof (cases "cc_sock (ct_conns ct ! c)")
      case None
      with w show ?thesis by (simp add: call_write_to_def sm_simps unread_on_def)
    next
      case (Some s)
      with w call_write_sends [OF P p, of s] show ?thesis by (auto simp: unread_on_def)
    qed
    moreover from this have "unread_on rx (ct_conns ct' ! j) = unread_on rx (ct_conns ct ! j)" if "j < length (ct_conns ct)" for j
      using that by (cases "j = c") (simp_all add: ct' unread_on_def)
    ultimately show ?thesis by (simp add: ct')
  qed
qed

definition net_fresh :: "'s platform \<Rightarrow> ('s \<Rightarrow> string) \<Rightarrow> bool" where
  "net_fresh P rx \<longleftrightarrow> (\<forall>ep. rx (snd (asio_connect P (asio_socket P) ep)) = [])"

lemma caller_step_receives:
  assumes net: "client_net P rx tx" "net_fresh P rx" and inv: "client_inv tx cg" and life: "life_inv cg"
    and rec: "receives_inv rx got cg" and k: "k < length (cg_callers cg)"
    and st: "caller_step P zeroed k (cg_callers cg ! k) cg = Some (Inr cg')"
  shows "receives_inv rx got cg'"
proof -
  note lens = inv_lengths [OF inv]
  have kk: "k < length (ct_calls (cg_client cg))" using k lens(1) by simp
  note call = inv_call [OF inv kk, unfolded call_inv_def]
  note frame = receives_caller [OF inv rec k]
  show ?thesis
  proof (cases "cg_callers cg ! k")
    case (CFind ep)
    with st obtain c ct where run: "find_connect P zeroed ep (cg_client cg) = (Inr c, ct)"
      and cg': "cg' = pad_receivers (caller_to k (CAdd c) (cg\<lparr>cg_client := ct, cg_lock := Some k\<rparr>))"
      by (auto simp: cmoment_Inr split: if_splits)
    have "cc_sock (ct_conns (cg_client cg) ! j) \<noteq> None" if "j < length (ct_conns (cg_client cg))" for j
      using life_conn [OF life that] by (simp add: recv_life_def)
    note new = find_connect_life [OF run lens(3) this]
    have "ct_calls ct = ct_calls (cg_client cg)" using find_connect_effect [OF net(1) run lens(3,4)] by simp
    then show ?thesis
      by (intro frame [where pc = "CAdd c"])
        (use new net(2) lens(2) CFind in \<open>auto simp: cg' pad_receivers_def caller_to_def nth_append unread_on_def net_fresh_def less_Suc_eq\<close>)
  next
    case (CAdd c)
    with st obtain ok ct where run: "add_to_conn c k (cg_client cg) = (Inr ok, ct)"
      and cg': "cg' = caller_to k (if ok then CSend else CNull) (cg\<lparr>cg_client := ct, cg_lock := None\<rparr>)"
      by (auto simp: cmoment_Inr simp del: if_split)
    have c: "c < length (ct_conns (cg_client cg))" using call CAdd by simp
    from add_to_conn_conns [OF run c] obtain nxt where ct: "ct_conns ct = (ct_conns (cg_client cg))[c := (ct_conns (cg_client cg) ! c)\<lparr>cc_last := nxt,
       cc_calls := insert_call (cc_last (ct_conns (cg_client cg) ! c)) k (cc_calls (ct_conns (cg_client cg) ! c))\<rparr>]" by blast
    have "unread_on rx (ct_conns ct ! j) = unread_on rx (ct_conns (cg_client cg) ! j)" if "j < length (ct_conns (cg_client cg))" for j
      using that by (cases "j = c") (simp_all add: ct unread_on_def)
    then show ?thesis
      by (intro frame [where pc = "if ok then CSend else CNull" and i = "cc_last (ct_conns (cg_client cg) ! c)" and c = c])
        (use add_to_conn_calls [OF run kk] ct CAdd in \<open>simp_all add: cg' caller_to_def\<close>)
  next
    case CSend
    with st obtain b ct where run: "send_call P k (cg_client cg) = (Inr b, ct)"
      and cg': "cg' = caller_to k CWait (cg\<lparr>cg_client := ct\<rparr>)" by (auto simp: cmoment_Inr)
    from send_call_unread [OF net_duplex [OF net(1)] run] call
    show ?thesis by (intro frame [where pc = CWait]) (use CSend in \<open>simp_all add: cg' caller_to_def\<close>)
  next
    case CWait
    with st have cg': "cg' = caller_to k CDone cg" by (auto split: if_splits)
    show ?thesis by (intro frame [where pc = CDone]) (use CWait in \<open>simp_all add: cg' caller_to_def\<close>)
  qed (use st in simp_all)
qed

section \<open>Every move\<close>

lemma receives_arrive:
  assumes rec: "receives_inv rx got cg" and st: "client_step P zeroed d (Arrive c s) cg = Some (Inr cg')"
    and s: "rx s = unread_on rx (ct_conns (cg_client cg) ! c) @ response_bytes rs"
  shows "receives_inv rx (got(c := got c @ rs)) cg'"
proof -
  let ?ct = "cg_client cg"
  have c: "c < length (ct_conns ?ct)"
    and cg': "cg' = cg\<lparr>cg_client := ?ct\<lparr>ct_conns := (ct_conns ?ct)[c := (ct_conns ?ct ! c)\<lparr>cc_sock := Some s\<rparr>]\<rparr>\<rparr>"
    using st by (auto split: if_splits)
  have "value_inv (ct_calls ?ct) (cg_callers cg) (got(c := got c @ rs)) k" if "k < length (ct_calls ?ct)" for k
    using receives_call [OF rec that] unfolding value_inv_def by (metis brought_more fun_upd_apply)
  moreover have "unread_inv (ct_calls ?ct) (cg_receivers cg ! j) ((got(c := got c @ rs)) j)
      (unread_on rx ((ct_conns ?ct)[c := (ct_conns ?ct ! c)\<lparr>cc_sock := Some s\<rparr>] ! j))" if "j < length (ct_conns ?ct)" for j
    using receives_conn [OF rec that] unread_more [OF receives_conn [OF rec c]] c s by (cases "j = c") (simp_all add: unread_on_def)
  ultimately show ?thesis using receives_new [OF rec] c by (simp add: receives_inv_def Let_def cg')
qed

lemma receives_new_call:
  assumes inv: "client_inv tx cg" and rec: "receives_inv rx got cg" and p: "plain_action (NewCall p vc ep)"
    and st: "client_step P zeroed d (NewCall p vc ep) cg = Some (Inr cg')"
  shows "receives_inv rx got cg'"
proof -
  let ?calls = "ct_calls (cg_client cg)"
  have len: "length (cg_callers cg) = length ?calls" using inv_lengths(1) [OF inv] .
  have cg': "cg' = cg\<lparr>cg_client := (cg_client cg)\<lparr>ct_calls := ?calls @ [client_call_new p vc]\<rparr>, cg_callers := cg_callers cg @ [CFind ep]\<rparr>"
    using st by simp
  have mine: "k \<in> mine (?calls @ [client_call_new p vc]) (cg_callers cg @ [CFind ep]) c call_added" if "k \<in> mine ?calls (cg_callers cg) c call_added" for k c
    using that len by (simp add: mine_def nth_append)
  have "value_inv (?calls @ [client_call_new p vc]) (cg_callers cg @ [CFind ep]) got k" if "k < Suc (length ?calls)" for k
  proof (cases "k < length ?calls")
    case True
    with receives_call [OF rec True] mine show ?thesis by (auto simp: value_inv_def nth_append) metis
  next
    case False
    with that p show ?thesis by (simp add: value_inv_def nth_append client_call_new_def)
  qed
  moreover have "unread_inv (?calls @ [client_call_new p vc]) (cg_receivers cg ! c) (got c) (unread_on rx (ct_conns (cg_client cg) ! c))"
    if "c < length (ct_conns (cg_client cg))" for c
    by (rule unread_calls [OF receives_conn [OF rec that]])
      (use inv_recv [OF inv that] in \<open>auto simp: recv_inv_def mine_def nth_append\<close>)
  ultimately show ?thesis using receives_new [OF rec] by (simp add: receives_inv_def Let_def cg')
qed

theorem receives_holds:
  assumes net: "client_net P rx tx" "net_fresh P rx" "5 \<le> max_alloc P" and "receives P rx tx zeroed (Suc d) got cg"
  shows "receives_inv rx got cg"
  using assms(4)
proof induction
  case start
  show ?case by (simp add: receives_inv_def Let_def cl_init_def client_new_def)
next
  case (arrive got cg c s cg' rs)
  show ?case by (rule receives_arrive [OF arrive.IH arrive.hyps(2,3)])
next
  case (move got cg a cg')
  have r: "client_reachable P tx zeroed (Suc d) cg" by (rule receives_reachable [OF move.hyps(1)])
  note inv = client_reachable_inv [OF net(1) r] and life = client_reachable_life [OF net(1) r]
  show ?case
  proof (cases a)
    case (NewCall p vc ep)
    with move receives_new_call [OF inv move.IH] show ?thesis by blast
  next
    case (CallerMove k)
    with move.hyps(4) show ?thesis
      using caller_step_receives [OF net(1,2) inv life move.IH] by (auto split: if_splits)
  next
    case (ReceiverMove c)
    with move.hyps(4) show ?thesis
      using receiver_step_receives [OF net(1,3) inv life move.IH] by (auto split: if_splits)
  next
    case (Arrive c s)
    with move.hyps(2) show ?thesis by simp
  qed
qed

lemma done_value:
  assumes net: "client_net P rx tx" "net_fresh P rx" "5 \<le> max_alloc P" and run: "receives P rx tx zeroed (Suc d) got cg"
    and k: "k < length (cg_callers cg)" "cg_callers cg ! k = CDone"
  shows "\<exists>c x. cl_conn (ct_calls (cg_client cg) ! k) = Some c \<and> (cl_id (ct_calls (cg_client cg) ! k), x) \<in> set (got c) \<and>
    cl_value (ct_calls (cg_client cg) ! k) = Some (IntWritable (Some (trunc8 x)))"
proof -
  note inv = client_reachable_inv [OF net(1) receives_reachable [OF run]]
  have kk: "k < length (ct_calls (cg_client cg))" using k(1) inv_lengths(1) [OF inv] by simp
  from inv_call [OF inv kk] k(2) obtain w where w: "cl_value (ct_calls (cg_client cg) ! k) = Some w"
    by (auto simp: call_inv_def)
  with receives_call [OF receives_holds [OF net run] kk] show ?thesis
    by (auto simp: value_inv_def brought_def mine_def)
qed

end
