(* ===== verification/Concurrent_Calls.thy ===== *)
theory Concurrent_Calls
  imports Server_Answers Client_Answers
begin

text \<open>
  A client whose calls run at the same time and a server whose threads run at the same time, joined
  by a connection: every call that returns has the value its method gives for its parameters, in
  every interleaving of all the threads on both sides.
\<close>

section \<open>What bytes say about requests and responses\<close>

text \<open>Requests with the same bytes are received as the same: the reader is a function of the bytes.\<close>

lemma call_read_of:
  assumes "call_read (machine M) d (call_new (Some 0), Some (enc_requests qs, [])) = (Inr r, (call, Some s'))" and "list_all (request_ok M d) qs"
  shows "case qs of [] \<Rightarrow> \<not> r | q # qs' \<Rightarrow> r \<and> fst s' = enc_requests qs' \<and> key call = received q"
proof -
  have "list_all (request_ok (max_alloc (machine M)) d) qs" using assms(2) by simp
  from call_read_next [OF duplex_machine this, of "(enc_requests qs, [])" 0] assms(1) show ?thesis by (auto split: list.splits)
qed

lemma requests_same:
  assumes "list_all (request_ok M d) qs" and "list_all (request_ok M d) qs'" and "enc_requests qs = enc_requests qs'"
  shows "map received qs = map received qs'"
  using assms
proof (induction qs arbitrary: qs')
  case (Nil qs')
  have "list_all (request_ok (max_alloc (machine M)) d) qs'" using Nil by simp
  from call_read_next [OF duplex_machine this, of "(enc_requests qs', [])" 0] obtain r call s' where
    read: "call_read (machine M) d (call_new (Some 0), Some (enc_requests qs', [])) = (Inr r, (call, Some s'))" by auto
  with Nil.prems(3) have "call_read (machine M) d (call_new (Some 0), Some (enc_requests [], [])) = (Inr r, (call, Some s'))" by simp
  from call_read_of [OF this] call_read_of [OF read Nil.prems(2)] show ?case by (cases qs') simp_all
next
  case (Cons q qs qs')
  have "list_all (request_ok (max_alloc (machine M)) d) qs'" using Cons.prems by simp
  from call_read_next [OF duplex_machine this, of "(enc_requests qs', [])" 0] obtain r call s' where
    read: "call_read (machine M) d (call_new (Some 0), Some (enc_requests qs', [])) = (Inr r, (call, Some s'))" by auto
  with Cons.prems(3) have "call_read (machine M) d (call_new (Some 0), Some (enc_requests (q # qs), [])) = (Inr r, (call, Some s'))" by simp
  from call_read_of [OF this Cons.prems(1)] have q: "r" "fst s' = enc_requests qs" "key call = received q" by simp_all
  from call_read_of [OF read Cons.prems(2)] q obtain q' qs'' where
    qs': "qs' = q' # qs''" "enc_requests qs = enc_requests qs''" "received q = received q'" by (cases qs') simp_all
  with Cons.IH [of qs''] Cons.prems show ?case by simp
qed

text \<open>Responses to integers have a fixed length, so those that have arrived are among those sent.\<close>

lemma blocks_subset:
  assumes "0 < n" and "\<forall>b \<in> set bs. length b = n" and "\<forall>b \<in> set cs. b = [] \<or> length b = n" and "concat cs = concat bs @ rest"
  shows "set bs \<subseteq> set cs"
  using assms
proof (induction cs arbitrary: bs)
  case Nil
  then show ?case by (cases bs) auto
next
  case (Cons c cs)
  show ?case
  proof (cases bs)
    case Nil
    then show ?thesis by simp
  next
    case bs: (Cons b bs')
    show ?thesis
    proof (cases "c = []")
      case True
      with Cons.IH [of bs] Cons.prems show ?thesis by auto
    next
      case False
      with Cons.prems bs have "length c = length b" "c @ concat cs = b @ (concat bs' @ rest)" by simp_all
      then have "c = b" "concat cs = concat bs' @ rest" using append_eq_append_conv by blast+
      with Cons.IH [of bs'] Cons.prems bs show ?thesis by auto
    qed
  qed
qed

lemma length_answer: "answer k = [] \<or> length (answer k) = 16"
  by (auto simp: answer_def enc_response_def split: prod.splits sum.splits option.splits writable.splits)

lemma arrived_answers:
  assumes "concat (map answer sent) = response_bytes rs @ transit" and "(i, x) \<in> set rs"
  shows "enc_response i (i32_bytes x) \<in> answer ` set sent"
proof -
  have "set (map (\<lambda>(i, x). enc_response i (i32_bytes x)) rs) \<subseteq> set (map answer sent)"
    by (rule blocks_subset [of 16 _ _ transit]) (use assms(1) length_answer in \<open>auto simp: response_bytes_def enc_response_def\<close>)
  with assms(2) show ?thesis by force
qed

lemma answer_eq:
  assumes "answer (i', cn, m, ps) = enc_response i (i32_bytes x)"
  shows "i' = i \<and> method_call cn m ps = Inr (Some (IntWritable (Some x)))"
proof -
  have "i32_bytes a = i32_bytes b \<Longrightarrow> a = b" for a b by (metis i32_of_bytes_i32_bytes)
  then show ?thesis using assms
    by (auto simp: answer_def enc_response_def split: prod.splits sum.splits option.splits writable.splits)
qed

section \<open>The composition\<close>

lemma serves_ok: "serves P d rx tx reqs cf \<Longrightarrow> list_all (list_all (request_ok (max_alloc P) d)) reqs"
  by (induction rule: serves.induct) simp_all

text \<open>The request of a call, when its parameter is one the client program sends.\<close>

definition request_key :: "client_call \<Rightarrow> request" where
  "request_key call = (case cl_param call of MethodWritable cn m ps \<Rightarrow> (cl_id call, cn, m, ps) | _ \<Rightarrow> (cl_id call, [], [], []))"

definition sends_requests :: "nat \<Rightarrow> nat \<Rightarrow> client_call \<Rightarrow> bool" where
  "sends_requests M d call \<longleftrightarrow> (case cl_param call of MethodWritable cn m ps \<Rightarrow> request_ok M d (cl_id call, cn, m, ps) | _ \<Rightarrow> False)"

lemma request_of_key: "sends_requests M d call \<Longrightarrow> request_of call = enc_requests [request_key call]"
  by (simp add: sends_requests_def request_of_def enc_requests_def request_key_def enc_request_def split: writable.splits)

lemma request_key_ok: "sends_requests M d call \<Longrightarrow> request_ok M d (request_key call)"
  by (simp add: sends_requests_def request_key_def split: writable.splits)

text \<open>
  The requests a server has from the connection of a client are those of the calls of that
  connection.
\<close>

lemma server_has_calls:
  assumes inv: "client_inv tx cg" and c: "c < length (ct_conns (cg_client cg))"
    and ok: "\<And>k. k \<in> mine (ct_calls (cg_client cg)) (cg_callers cg) c call_sent \<Longrightarrow> sends_requests M d (ct_calls (cg_client cg) ! k)"
    and qs: "list_all (request_ok M d) qs" "sent_on tx (ct_conns (cg_client cg) ! c) = enc_requests qs"
  shows "set (map received qs) = (\<lambda>k. received (request_key (ct_calls (cg_client cg) ! k))) `
    mine (ct_calls (cg_client cg)) (cg_callers cg) c call_sent"
proof -
  let ?calls = "ct_calls (cg_client cg)"
  obtain order where order: "set order = mine ?calls (cg_callers cg) c call_sent"
    "sent_on tx (ct_conns (cg_client cg) ! c) = concat (map (\<lambda>k. request_of (?calls ! k)) order)"
    using inv_table(2) [OF inv c] by (auto simp: stream_inv_def)
  have each: "sends_requests M d (?calls ! k)" if "k \<in> set order" for k using that ok order(1) by simp
  have enc: "enc_requests (map f ks) = concat (map (\<lambda>k. enc_requests [f k]) ks)" for f and ks :: "nat list"
    by (simp add: enc_requests_def comp_def)
  have "concat (map (\<lambda>k. request_of (?calls ! k)) order) = concat (map (\<lambda>k. enc_requests [request_key (?calls ! k)]) order)"
    by (rule arg_cong [where f = concat], rule map_cong [OF refl], rule request_of_key [OF each])
  then have "enc_requests (map (\<lambda>k. request_key (?calls ! k)) order) = concat (map (\<lambda>k. request_of (?calls ! k)) order)"
    by (simp only: enc)
  also have "\<dots> = enc_requests qs" using order(2) qs(2) by simp
  finally have "enc_requests (map (\<lambda>k. request_key (?calls ! k)) order) = enc_requests qs" .
  moreover have "list_all (request_ok M d) (map (\<lambda>k. request_key (?calls ! k)) order)"
    using request_key_ok [OF each] by (simp add: list_all_iff)
  ultimately have "map received (map (\<lambda>k. request_key (?calls ! k)) order) = map received qs"
    using requests_same qs(1) by blast
  then have "set (map received qs) = set (map (\<lambda>k. received (request_key (?calls ! k))) order)" by (simp add: comp_def)
  with order(1) show ?thesis by simp
qed

text \<open>A response that has arrived for a call that has been sent is the one of its own method.\<close>

lemma response_right:
  assumes inv: "client_inv txc cg" and c: "c < length (ct_conns (cg_client cg))"
    and server: "duplex P rx tx" "sends_some P rx tx" "sends_all P" "close_quiet P rx tx" "serves P d rx tx reqs cf"
    and link: "e < length reqs" "sent_on txc (ct_conns (cg_client cg) ! c) = enc_requests (reqs ! e)"
      "tx (sv_socks (cf_server cf) ! e) = response_bytes rs @ transit"
    and params: "\<And>j. j \<in> mine (ct_calls (cg_client cg)) (cg_callers cg) c call_sent \<Longrightarrow>
      sends_requests (max_alloc P) d (ct_calls (cg_client cg) ! j)"
    and k: "k \<in> mine (ct_calls (cg_client cg)) (cg_callers cg) c call_sent"
      "cl_param (ct_calls (cg_client cg) ! k) = MethodWritable cn m ps"
    and x: "(cl_id (ct_calls (cg_client cg) ! k), x) \<in> set rs"
  shows "method_call (c_str cn) (c_str m) (map wire_image ps) = Inr (Some (IntWritable (Some x)))"
proof -
  let ?calls = "ct_calls (cg_client cg)" and ?sent = "mine (ct_calls (cg_client cg)) (cg_callers cg) c call_sent"
  obtain unread sent where books: "tx (sv_socks (cf_server cf) ! e) = concat (map answer sent)"
    "mset (map received (reqs ! e)) = mset (map received unread) + under_way (eps (cf_server cf)) (flight cf) e + mset sent"
    using serves_books [OF server] link(1) by (auto simp: inv_books_def ledgers_def ledger_def)
  from arrived_answers [OF books(1) [unfolded link(3), symmetric] x] obtain i cn' m' ps' where
    q: "(i, cn', m', ps') \<in> set sent" "answer (i, cn', m', ps') = enc_response (cl_id (?calls ! k)) (i32_bytes x)"
    by fastforce
  note val = answer_eq [OF q(2)]
  have "(i, cn', m', ps') \<in> set (map received (reqs ! e))" using q(1) books(2) by (metis set_mset_mset union_iff)
  also have "set (map received (reqs ! e)) = (\<lambda>j. received (request_key (?calls ! j))) ` ?sent"
    by (rule server_has_calls [OF inv c params _ link(2)]) (use serves_ok [OF server(5)] link(1) in \<open>auto simp: list_all_length\<close>)
  finally obtain j where j: "j \<in> ?sent" "received (request_key (?calls ! j)) = (i, cn', m', ps')" by force
  have "cl_id (?calls ! j) = i" using j(2) by (auto simp: received_def request_key_def split: prod.splits writable.splits)
  then have "cl_id (?calls ! j) = cl_id (?calls ! k)" using val by simp
  then have "j = k" using ids_inj [OF inv_table(1) [OF inv c]] j(1) k(1) mine_subset [of ?calls "cg_callers cg" c] by (auto dest: inj_onD)
  then have "cn' = c_str cn" "m' = c_str m" "ps' = map wire_image ps" using j(2) k(2) by (simp_all add: received_def request_key_def)
  with val show ?thesis by blast
qed


section \<open>A run\<close>

lemma receives_run:
  "receives P rx tx zeroed d got cg \<Longrightarrow> fair_run P tx zeroed d as cg \<Longrightarrow> list_all plain_action as \<Longrightarrow>
   client_run P zeroed d as cg = Some (Inr cg') \<Longrightarrow> receives P rx tx zeroed d got cg'"
  by (induction as arbitrary: cg) (auto split: option.splits sum.splits intro: receives.move)

text \<open>
  Two calls, the second sent first; the server answers both, and the client receives the responses.
\<close>

definition pair_sends :: "wire cl_action list" where
  "pair_sends = (let ep = \<lparr>ep_address = 1, ep_port = 80\<rparr> in
     [NewCall (MethodWritable ''NameNode'' ''create'' (map (\<lambda>x. IntWritable (Some x)) [1, 2, 3, 4])) ''IntWritable'' ep,
      NewCall (MethodWritable ''FSNameSystem'' ''create'' [IntWritable (Some 5)]) ''IntWritable'' ep,
      CallerMove 0, CallerMove 0, CallerMove 1, CallerMove 1, CallerMove 1, CallerMove 0])"

definition pair_sent :: "wire cl_config" where
  "pair_sent = run_from (machine 100) True pair_sends cl_init"

definition pair_responses :: "(i32 \<times> i32) list" where
  "pair_responses = [(1, 32), (0, 10)]"

definition pair_socket :: wire where
  "pair_socket = (response_bytes pair_responses, sent_on snd (ct_conns (cg_client pair_sent) ! 0))"

definition pair_arrived :: "wire cl_config" where
  "pair_arrived = run_from (machine 100) True [Arrive 0 pair_socket] pair_sent"

definition pair_done :: "wire cl_config" where
  "pair_done = run_from (machine 100) True (replicate 10 (ReceiverMove 0) @ [CallerMove 0, CallerMove 1]) pair_arrived"

lemma client_net_machine: "client_net (machine M) fst snd" "net_fresh (machine M) fst"
  by (simp_all add: client_net_def duplex_machine close_silent_machine net_fresh_def) (simp_all add: machine_def)

lemma run_from_receives:
  assumes "receives P fst snd zeroed 1 got cg" and "fair_run P snd zeroed 1 as cg" and "list_all plain_action as"
  shows "receives P fst snd zeroed 1 got (run_from P zeroed as cg)"
  using assms receives_run [OF assms] by (auto simp: run_from_def split: option.splits sum.splits)

lemma receives_pair_sent: "receives (machine 100) fst snd True 1 (\<lambda>_. []) pair_sent"
  unfolding pair_sent_def by (rule run_from_receives [OF receives.start]) code_simp+

lemma receives_pair: "receives (machine 100) fst snd True 1 ((\<lambda>_. [])(0 := pair_responses)) pair_done"
proof -
  have "case client_step (machine 100) True 1 (Arrive 0 pair_socket) pair_sent of Some (Inr cg) \<Rightarrow> True | _ \<Rightarrow> False" by code_simp
  then have st: "client_step (machine 100) True 1 (Arrive 0 pair_socket) pair_sent = Some (Inr pair_arrived)"
    unfolding pair_arrived_def run_from_def by (auto simp del: client_step.simps split: option.splits sum.splits)
  have "fst pair_socket = unread_on fst (ct_conns (cg_client pair_sent) ! 0) @ response_bytes pair_responses"
    and "snd pair_socket = sent_on snd (ct_conns (cg_client pair_sent) ! 0)" by code_simp+
  from receives.arrive [OF receives_pair_sent st this]
  have r: "receives (machine 100) fst snd True 1 ((\<lambda>_. [])(0 := pair_responses)) pair_arrived" by simp
  show ?thesis unfolding pair_done_def by (rule run_from_receives [OF r]) code_simp+
qed

text \<open>The server of the same two requests.\<close>

definition pair_requests :: "request list" where
  "pair_requests = [(1, ''FSNameSystem'', ''create'', [IntWritable (Some 5)]),
     (0, ''NameNode'', ''create'', map (\<lambda>x. IntWritable (Some x)) [1, 2, 3, 4])]"

definition pair_served :: "wire config" where
  "pair_served = serve_client pair_requests (two_actions @ replicate 5 (HandlerMove 0))"

lemma serves_pair: "serves (machine 100) 3 fst snd [pair_requests] pair_served \<and>
    snd (sv_socks (cf_server pair_served) ! 0) = response_bytes pair_responses"
  unfolding pair_served_def by (rule serves_client) code_simp+

text \<open>What the client has done, from one evaluation of the run.\<close>

definition pair_check :: "wire cl_config \<Rightarrow> bool" where
  "pair_check cg \<longleftrightarrow> cg_callers cg = [CDone, CDone] \<and> map cl_conn (ct_calls (cg_client cg)) = [Some 0, Some 0] \<and>
     map cl_param (ct_calls (cg_client cg)) =
       [MethodWritable ''NameNode'' ''create'' (map (\<lambda>x. IntWritable (Some x)) [1, 2, 3, 4]),
        MethodWritable ''FSNameSystem'' ''create'' [IntWritable (Some 5)]] \<and>
     list_all (sends_requests 100 3) (ct_calls (cg_client cg)) \<and>
     sent_on snd (ct_conns (cg_client cg) ! 0) = enc_requests pair_requests"

lemma pair_checked: "pair_check pair_done"
proof -
  have "case client_run (machine 100) True 1 (replicate 10 (ReceiverMove 0) @ [CallerMove 0, CallerMove 1]) pair_arrived of
      Some (Inr cg) \<Rightarrow> pair_check cg | _ \<Rightarrow> False" by code_simp
  then show ?thesis unfolding pair_done_def run_from_def by (auto split: option.splits sum.splits)
qed


end
