(* ===== verification/End_To_End.thy ===== *)
theory End_To_End
  imports Listener RPC
begin

text \<open>
  One call from end to end: the client sends a request, the stages of the server take it in turn,
  each on its own, and the client receives the response. The two sides run over platforms of
  their own, joined by the bytes one side sends and the other receives.
\<close>

section \<open>The server's side\<close>

text \<open>A reader, a handler and the responder serve one request of connection \<open>c\<close>.\<close>

definition serve :: "'s platform \<Rightarrow> nat \<Rightarrow> int \<Rightarrow> nat \<Rightarrow> nat \<Rightarrow> ('s server, unit) sm" where
  "serve P d now c n = bind_sm (do_read P d now c) (\<lambda>_. bind_sm (handler_round P) (\<lambda>_. respond_rounds P n))"

definition idle :: "'s server \<Rightarrow> nat \<Rightarrow> bool" where
  "idle sv c \<longleftrightarrow> live sv c \<and> bq_items (queue_of sv c) = [] \<and> bq_max (queue_of sv c) \<noteq> 0 \<and>
     bq_items (sv_responds sv) = [] \<and> bq_max (sv_responds sv) \<noteq> 0 \<and>
     bq_items (sv_calls sv) = [] \<and> bq_max (sv_calls sv) \<noteq> 0"

definition ints :: "i32 list \<Rightarrow> writable list" where
  "ints xs = map (\<lambda>x. IntWritable (Some x)) xs"

text \<open>The server when the reader is done: the call is queued and the endpoint waits for more.\<close>

definition after_read :: "nat \<Rightarrow> int \<Rightarrow> server_call \<Rightarrow> 's \<Rightarrow> 's server \<Rightarrow> 's server" where
  "after_read c now call s sv = sv\<lparr>
     sv_heap := (sv_heap sv)[c := set_last_contact now (sv_heap sv ! c)],
     sv_socks := (sv_socks sv)[ep_of sv c := s],
     sv_calls := (sv_calls sv)\<lparr>bq_items := [call]\<rparr>,
     sv_armed := ep_of sv c # sv_armed sv\<rparr>"

lemma do_read_request:
  assumes P: "duplex P rx tx" and sv: "idle sv c"
    and req: "rx (sock_of sv c) = enc_request i cn m ps @ rest"
    and ok: "wire_ok (max_alloc P) (MethodWritable cn m ps)" "nest (MethodWritable cn m ps) \<le> Suc d"
  shows "\<exists>s'. do_read P d now c sv = (Inr (), after_read c now ((call_new (Some c))\<lparr>sc_id := i, sc_class := c_str cn,
       sc_method := c_str m, sc_params := map wire_image ps\<rparr>) s' sv) \<and> rx s' = rest \<and> tx s' = tx (sock_of sv c)"
proof -
  let ?call = "(call_new (Some c))\<lparr>sc_id := i, sc_class := c_str cn, sc_method := c_str m, sc_params := map wire_image ps\<rparr>"
  from call_read_receives [OF P req ok, of c] obtain s' where
    run: "call_read P d (call_new (Some c), Some (sock_of sv c)) = (Inr True, (?call, Some s'))"
    and s': "rx s' = rest" "tx s' = tx (sock_of sv c)" by blast
  have l: "c < length (sv_heap sv)" "cn_ep (sv_heap sv ! c) < length (sv_socks sv)"
    using sv by (simp_all add: idle_def live_def)
  have room: "has_room (sv_calls sv)" using sv by (simp add: idle_def has_room_def bq_size_def unat_gt_0)
  have "on_conn c (call_new (Some c)) (read_io P d) sv = (Inr (True, ?call),
      sv\<lparr>sv_heap := (sv_heap sv)[c := sv_heap sv ! c], sv_socks := (sv_socks sv)[ep_of sv c := s']\<rparr>)"
    using run l by (simp add: on_conn_def read_io_def zoom_run sock_of_def ep_of_def Let_def)
  then have "reader_read P d now c sv = (Inr (Some ?call), sv\<lparr>
      sv_heap := (sv_heap sv)[c := set_last_contact now (sv_heap sv ! c)], sv_socks := (sv_socks sv)[ep_of sv c := s']\<rparr>)"
    using l by (simp add: reader_read_def sm_simps put_conn_def)
  then have "do_read P d now c sv = (Inr (), after_read c now ?call s' sv)"
    using l room sv by (simp add: do_read_def sm_simps reader_push_def reader_arm_def bq_offer_def bq_insert_def
        after_read_def idle_def ep_of_def set_last_contact_def)
  with s' show ?thesis by blast
qed

lemma after_read_simps:
  assumes "idle sv c"
  shows "live (after_read c now call s sv) c" "sock_of (after_read c now call s sv) c = s"
    "queue_of (after_read c now call s sv) c = queue_of sv c"
    "sv_responds (after_read c now call s sv) = sv_responds sv"
    "bq_items (sv_calls (after_read c now call s sv)) = [call]"
  using assms by (simp_all add: idle_def live_def after_read_def sock_of_def queue_of_def ep_of_def set_last_contact_def)

lemma handler_take_run:
  assumes "bq_items (sv_calls sv) = [call]"
  shows "handler_take sv = (Inr (Some call), sv\<lparr>sv_calls := (sv_calls sv)\<lparr>bq_items := []\<rparr>\<rparr>)"
  using assms by (simp add: handler_take_def sm_simps bq_poll_def bq_remove_def has_item_def bq_size_def)

lemma has_room_empty: "bq_items q = [] \<Longrightarrow> bq_max q \<noteq> 0 \<Longrightarrow> has_room q"
  by (simp add: has_room_def bq_size_def unat_gt_0)

text \<open>What a whole round of the server does with a request whose method returns an integer.\<close>

lemma serve_request:
  assumes P: "duplex P rx tx" "sends_some P rx tx" and sv: "idle sv c"
    and req: "rx (sock_of sv c) = enc_request i cn m ps @ rest"
    and ok: "wire_ok (max_alloc P) (MethodWritable cn m ps)" "nest (MethodWritable cn m ps) \<le> Suc d"
    and res: "method_call (c_str cn) (c_str m) (map wire_image ps) = Inr (Some (IntWritable (Some r)))"
  shows "\<exists>sv'. serve P d now c 3 sv = (Inr (), sv') \<and>
     tx (sock_of sv' c) = tx (sock_of sv c) @ enc_response i (i32_bytes r) \<and> rx (sock_of sv' c) = rest \<and> idle sv' c"
proof -
  let ?call = "(call_new (Some c))\<lparr>sc_id := i, sc_class := c_str cn, sc_method := c_str m, sc_params := map wire_image ps\<rparr>"
  let ?call' = "?call\<lparr>sc_value := Some (IntWritable (Some r)), sc_str_val := i32_bytes r\<rparr>"
  from do_read_request [OF P(1) sv req ok, of now] obtain s1 where
    read: "do_read P d now c sv = (Inr (), after_read c now ?call s1 sv)" and tx1: "tx s1 = tx (sock_of sv c)" "rx s1 = rest" by blast
  let ?sv1 = "after_read c now ?call s1 sv"
  let ?sv2 = "?sv1\<lparr>sv_calls := (sv_calls ?sv1)\<lparr>bq_items := []\<rparr>\<rparr>"
  note r1 = after_read_simps [OF sv]
  have take: "handler_take ?sv1 = (Inr (Some ?call), ?sv2)" by (rule handler_take_run) (rule r1)
  have comp: "handler_compute ?call = Inr ?call'" using res by (intro handler_compute_value) simp
  have live2: "live ?sv2 c" and s2: "sock_of ?sv2 c = s1" and q2: "queue_of ?sv2 c = queue_of sv c"
    and rs2: "sv_responds ?sv2 = sv_responds sv"
    using r1 [of now ?call s1] by (simp_all add: live_def sock_of_def queue_of_def)
  have pre: "bq_max (queue_of ?sv2 c) \<noteq> 0" "bq_max (sv_responds ?sv2) \<noteq> 0"
    "bq_items (queue_of ?sv2 c) = []" "bq_items (sv_responds ?sv2) = []"
    unfolding q2 rs2 using sv by (simp_all add: idle_def)
  have call: "sendable ?call'" "sc_pos ?call' = 0" "sc_conn ?call' = Some c" "length (sc_str_val ?call') \<le> Suc 3"
    "sc_id ?call' = i" "sc_str_val ?call' = i32_bytes r"
    by (rule sendable_value) (simp_all add: call_new_def)
  have "\<exists>s'. tx s' = tx s1 @ enc_response i (i32_bytes r) \<and> rx s' = rx s1 \<and>
      bind_sm (do_respond P ?call') (\<lambda>_. respond_rounds P 3) ?sv2 = (Inr (), place c s' [] [] ?sv2)"
    using deliver_response [OF P live2 pre call(1-4)] unfolding s2 call(5,6) .
  then obtain s' where tx': "tx s' = tx s1 @ enc_response i (i32_bytes r)" "rx s' = rx s1"
    and run: "bind_sm (do_respond P ?call') (\<lambda>_. respond_rounds P 3) ?sv2 = (Inr (), place c s' [] [] ?sv2)"
    by blast
  from run obtain sv3 ok' where do: "do_respond P ?call' ?sv2 = (Inr ok', sv3)"
    and rounds: "respond_rounds P 3 sv3 = (Inr (), place c s' [] [] ?sv2)"
    by (auto simp: bind_sm_run split: prod.splits sum.splits)
  have "has_room (queue_of ?sv2 c)" by (rule has_room_empty [OF pre(3,1)])
  then have "ok'" by (rule do_respond_accepts [OF call(3) live2 _ do])
  then have "handler_round P ?sv1 = (Inr (), sv3)"
    by (simp add: handler_round_def sm_simps take comp do)
  then have "serve P d now c 3 sv = (Inr (), place c s' [] [] ?sv2)"
    using rounds by (simp add: serve_def sm_simps read)
  moreover have "idle (place c s' [] [] ?sv2) c"
    using sv live2 pre(1,2) by (simp add: idle_def) (simp add: place_def after_read_def)
  ultimately show ?thesis using tx' tx1 live2 by auto
qed

end
