(* ===== verification/Remote_Call.thy ===== *)
theory Remote_Call
  imports End_To_End
begin

text \<open>
  Calls between a client program and a server, one after the other: \<open>DataNodeProtocol::create\<close> and
  \<open>RPC::invoke\<close> on the one side, the reader, a handler and the responder on the other. The two
  sides share a network that carries what one socket has sent to the other; the sockets are
  those of a platform over pairs of byte lists, so that what has been sent can be taken out.
\<close>

section \<open>Two programs and a network\<close>

type_synonym world = "wire rpc \<times> wire server"

definition on_left :: "('a, 'x) sm \<Rightarrow> ('a \<times> 'b, 'x) sm" where
  "on_left m = (\<lambda>(a, b). case m a of (r, a') \<Rightarrow> (r, (a', b)))"

definition on_right :: "('b, 'x) sm \<Rightarrow> ('a \<times> 'b, 'x) sm" where
  "on_right m = (\<lambda>(a, b). case m b of (r, b') \<Rightarrow> (r, (a, b')))"

lemma on_left_run [sm_simps]: "on_left m (a, b) = (case m a of (r, a') \<Rightarrow> (r, (a', b)))"
  by (simp add: on_left_def)

lemma on_right_run [sm_simps]: "on_right m (a, b) = (case m b of (r, b') \<Rightarrow> (r, (a, b')))"
  by (simp add: on_right_def)

text \<open>The ends of the connection: connection \<open>j\<close> of client \<open>n\<close>, and connection \<open>c\<close> of the server.\<close>

definition left_sock :: "nat \<Rightarrow> nat \<Rightarrow> wire rpc \<Rightarrow> wire" where
  "left_sock n j st = (case cc_sock (ct_conns (rp_clients st ! n) ! j) of None \<Rightarrow> ([], []) | Some s \<Rightarrow> s)"

definition put_left :: "nat \<Rightarrow> nat \<Rightarrow> wire \<Rightarrow> wire rpc \<Rightarrow> wire rpc" where
  "put_left n j s st = (let ct = rp_clients st ! n in st\<lparr>rp_clients := (rp_clients st)[n :=
     ct\<lparr>ct_conns := (ct_conns ct)[j := (ct_conns ct ! j)\<lparr>cc_sock := Some s\<rparr>]\<rparr>]\<rparr>)"

definition put_right :: "nat \<Rightarrow> wire \<Rightarrow> wire server \<Rightarrow> wire server" where
  "put_right c s sv = sv\<lparr>sv_socks := (sv_socks sv)[ep_of sv c := s]\<rparr>"

definition to_server :: "nat \<Rightarrow> nat \<Rightarrow> nat \<Rightarrow> (world, unit) sm" where
  "to_server n j c = modify (\<lambda>(st, sv). case (left_sock n j st, sock_of sv c) of
     ((i, out), (i', out')) \<Rightarrow> (put_left n j (i, []) st, put_right c (i' @ out, out') sv))"

definition to_client :: "nat \<Rightarrow> nat \<Rightarrow> nat \<Rightarrow> (world, unit) sm" where
  "to_client n j c = modify (\<lambda>(st, sv). case (left_sock n j st, sock_of sv c) of
     ((i, out), (i', out')) \<Rightarrow> (put_left n j (i @ out', out) st, put_right c (i', []) sv))"

text \<open>
  An invocation with everything it sets going: the client sends, the server serves the request on
  connection \<open>c\<close> with \<open>fuel\<close> rounds of the responder, the receiver of the client takes the
  response, and the caller looks at its call. \<open>None\<close> is a call without a connection.
\<close>

definition remote_call :: "wire platform \<Rightarrow> nat \<Rightarrow> int \<Rightarrow> nat \<Rightarrow> nat \<Rightarrow> (wire rpc, nat \<times> nat option) sm \<Rightarrow>
    (world, writable option option) sm" where
  "remote_call P d now c fuel invoke = bind_sm (on_left invoke) (\<lambda>(n, r). case r of
       None \<Rightarrow> ret (Some None)
     | Some k \<Rightarrow>
         bind_sm (to_server n 0 c) (\<lambda>_.
         bind_sm (on_right (serve P d now c fuel)) (\<lambda>_.
         bind_sm (to_client n 0 c) (\<lambda>_.
         bind_sm (on_left (on_client n (recv_respond P d 0))) (\<lambda>_.
         on_left (gets (\<lambda>st. client_result k (rp_clients st ! n))))))))"

section \<open>A client between two calls\<close>

text \<open>
  \<open>n\<close> calls have been made, all to \<open>ep\<close>, and all are done; nothing is left on the socket.
\<close>

definition settled :: "wire platform \<Rightarrow> endpoint \<Rightarrow> nat \<Rightarrow> wire client \<Rightarrow> bool" where
  "settled P ep n ct \<longleftrightarrow> length (ct_calls ct) = n \<and>
     (if n = 0 then ct = client_new
      else ct_reg ct (conn_key P ep) = Some 0 \<and> open_conn ct 0 ([], []) \<and> \<not> cc_should_close (ct_conns ct ! 0) \<and>
        cc_last (ct_conns ct ! 0) = word_of_nat n \<and> (\<forall>i \<in> fst ` set (cc_calls (ct_conns ct ! 0)). unat i < n))"

text \<open>The call \<open>n\<close> has been sent, with socket \<open>s\<close>.\<close>

definition awaiting :: "wire platform \<Rightarrow> endpoint \<Rightarrow> nat \<Rightarrow> string \<Rightarrow> wire \<Rightarrow> wire client \<Rightarrow> bool" where
  "awaiting P ep n vc s ct \<longleftrightarrow> length (ct_calls ct) = Suc n \<and> cl_class (ct_calls ct ! n) = vc \<and>
     ct_reg ct (conn_key P ep) = Some 0 \<and> open_conn ct 0 s \<and> \<not> cc_should_close (ct_conns ct ! 0) \<and>
     cc_last (ct_conns ct ! 0) = word_of_nat (Suc n) \<and>
     map_of (cc_calls (ct_conns ct ! 0)) (word_of_nat n) = Some n \<and>
     (\<forall>i \<in> fst ` set (cc_calls (ct_conns ct ! 0)). unat i < Suc n)"

lemma begin_again:
  assumes P: "duplex P fst snd" and p: "initialised p" and n: "n < 2 ^ 31 - 1" "n \<noteq> 0" and ct: "settled P ep n ct"
  shows "\<exists>ct'. client_begin P True p vc ep ct = (Inr (Some n), ct') \<and>
    awaiting P ep n vc ([], i32_bytes (word_of_nat n) @ enc p) ct'"
proof -
  let ?conn = "ct_conns ct ! 0" and ?i = "word_of_nat n :: i32"
  let ?call = "(client_call_new p vc)\<lparr>cl_id := ?i, cl_conn := Some 0\<rparr>"
  let ?conn' = "?conn\<lparr>cc_last := ?i + 1, cc_calls := (?i, n) # cc_calls ?conn\<rparr>"
  let ?ct = "ct\<lparr>ct_calls := ct_calls ct @ [?call], ct_conns := (ct_conns ct)[0 := ?conn']\<rparr>"
  have u: "unat ?i = n" using n by (intro unat_i32) simp
  have st: "length (ct_calls ct) = n" "ct_reg ct (conn_key P ep) = Some 0" "0 < length (ct_conns ct)"
    "\<not> cc_wild ?conn" "cc_sock ?conn = Some ([], [])" "\<not> cc_should_close ?conn" "cc_last ?conn = ?i"
    and ids: "\<forall>i \<in> fst ` set (cc_calls ?conn). unat i < n"
    using ct n(2) by (simp_all add: settled_def open_conn_def)
  have si: "sint ?i = int n" using n by (intro sint_i32) simp
  have add: "add_i32 ?i 1 = Inr (?i + 1)" using n by (intro add_i32_ok) (simp_all add: si)
  have new: "map_of (cc_calls ?conn) ?i = None" using ids u by (auto simp: map_of_eq_None_iff)
  have top: "(ct_calls ct @ [y]) ! n = y" "(ct_calls ct @ [y])[n := z] = ct_calls ct @ [z]" for y z
    using st(1) by (auto simp: list_update_append nth_append)
  have get: "get_connection P True ep n (ct\<lparr>ct_calls := ct_calls ct @ [client_call_new p vc]\<rparr>) = (Inr (Some 0), ?ct)"
    using st new by (simp add: get_connection_def find_cconn_def sm_simps connect_def cconn_at_def add_call_def add
        set_call_def set_cconn_def insert_call_def top)
  from call_write_sends [OF P, of ?call "([], [])"] p obtain s' where
    w: "call_write_to P ?call ((), Some ([], [])) = (Inr True, ((), Some s'))"
      "snd s' = i32_bytes ?i @ enc p" "fst s' = []" by (auto simp: client_call_new_def)
  let ?ct' = "ct\<lparr>ct_calls := ct_calls ct @ [?call], ct_conns := (ct_conns ct)[0 := ?conn'\<lparr>cc_sock := Some s'\<rparr>]\<rparr>"
  have send: "send_call P n ?ct = (Inr True, ?ct')"
    using st w(1) by (simp add: send_call_def call_at_def top sm_simps on_sock_def cconn_at_def)
  have "client_begin P True p vc ep ct = (Inr (Some n), ?ct')"
    using st(1) get send by (simp add: client_begin_def sm_simps)
  moreover have "awaiting P ep n vc ([], i32_bytes ?i @ enc p) ?ct'"
    using st ids w(2,3) u by (auto simp: awaiting_def top open_conn_def prod_eq_iff client_call_new_def)
  ultimately show ?thesis by blast
qed

lemma begin_first:
  assumes P: "duplex P fst snd" and conn: "asio_connect P (asio_socket P) ep = (True, ([], []))" and p: "initialised p"
  shows "\<exists>ct'. client_begin P True p vc ep client_new = (Inr (Some 0), ct') \<and>
    awaiting P ep 0 vc ([], i32_bytes 0 @ enc p) ct'"
proof -
  from client_begin_sends [OF P conn p, of vc] obtain s' where
    run: "client_begin P True p vc ep client_new =
      (Inr (Some 0), \<lparr>ct_calls = [first_call p vc], ct_conns = [first_conn ep s'],
        ct_reg = (\<lambda>_. None)(conn_key P ep := Some 0), ct_index = 1\<rparr>)"
    and s': "snd s' = i32_bytes 0 @ enc p" "fst s' = []" by auto
  show ?thesis
    by (intro exI conjI, rule run)
      (use s' in \<open>simp add: awaiting_def first_call_def first_conn_def client_call_new_def client_conn_new_def
        open_conn_def prod_eq_iff\<close>)
qed

lemma begin_sends:
  assumes "duplex P fst snd" and "asio_connect P (asio_socket P) ep = (True, ([], []))" and "initialised p"
    and "n < 2 ^ 31 - 1" and "settled P ep n ct"
  shows "\<exists>ct'. client_begin P True p vc ep ct = (Inr (Some n), ct') \<and>
    awaiting P ep n vc ([], i32_bytes (word_of_nat n) @ enc p) ct'"
proof (cases "n = 0")
  case True
  then show ?thesis using begin_first [OF assms(1-3)] assms(5) by (simp add: settled_def)
next
  case False
  then show ?thesis by (rule begin_again [OF assms(1,3,4) _ assms(5)])
qed

text \<open>The response arrives.\<close>

lemma receive_settles:
  assumes P: "duplex P fst snd" "5 \<le> max_alloc P" and ct: "awaiting P ep n ''IntWritable'' s ct"
    and rx: "fst s = enc_response (word_of_nat n) (i32_bytes x)" "snd s = []"
  shows "\<exists>ct'. recv_respond P (Suc d) 0 ct = (Inr (), ct') \<and> settled P ep (Suc n) ct' \<and>
    client_result n ct' = Some (Some (IntWritable (Some (trunc8 x))))"
proof -
  have conn: "open_conn ct 0 s" and n: "n < length (ct_calls ct)" using ct by (simp_all add: awaiting_def)
  have "fst s = enc_response (word_of_nat n) (i32_bytes x) @ []" using rx by simp
  from recv_respond_delivers [OF P conn _ n _ this, of d] ct obtain s' where
    run: "recv_respond P (Suc d) 0 ct = (Inr (), delivered 0 s' n x ct)" and s': "s' = ([], [])"
    using rx(2) by (auto simp: awaiting_def prod_eq_iff)
  have "settled P ep (Suc n) (delivered 0 s' n x ct)"
    using ct s' by (simp add: settled_def awaiting_def open_conn_def delivered_def)
  moreover have "client_result n (delivered 0 s' n x ct) = Some (Some (IntWritable (Some (trunc8 x))))"
    using n by (simp add: client_result_def delivered_def)
  ultimately show ?thesis using run by blast
qed

section \<open>One call through both programs\<close>

definition rpc_settled :: "wire platform \<Rightarrow> endpoint \<Rightarrow> nat \<Rightarrow> wire rpc \<Rightarrow> bool" where
  "rpc_settled P ep n st \<longleftrightarrow> (if n = 0 then st = rpc_new
     else rp_reg st ''standard'' = Some 0 \<and> (\<exists>ct. rp_clients st = [ct] \<and> settled P ep n ct))"

definition linked :: "wire server \<Rightarrow> nat \<Rightarrow> bool" where
  "linked sv c \<longleftrightarrow> idle sv c \<and> sock_of sv c = ([], [])"

lemma put_right_simps:
  assumes "live sv c"
  shows "sock_of (put_right c s sv) c = s" "idle (put_right c s sv) c = idle sv c"
  using assms by (simp_all add: put_right_def sock_of_def ep_of_def live_def idle_def queue_of_def)

lemma awaiting_put:
  "awaiting P ep n vc s ct \<Longrightarrow>
   awaiting P ep n vc s' (ct\<lparr>ct_conns := (ct_conns ct)[0 := (ct_conns ct ! 0)\<lparr>cc_sock := Some s'\<rparr>]\<rparr>)"
  by (simp add: awaiting_def open_conn_def)

lemma ints_initialised: "list_all initialised (ints xs)"
  by (induction xs) (simp_all add: ints_def)

lemma ints_print: "list_all (\<lambda>w. \<exists>str. print_to_string w = Inr str) (ints xs)"
  by (induction xs) (simp_all add: ints_def print_to_string_def)

lemma invoke_sends:
  assumes P: "duplex P fst snd" "asio_connect P (asio_socket P) ep = (True, ([], []))"
    and n: "n < 2 ^ 31 - 1" and st: "rpc_settled P ep n st"
  shows "\<exists>st' ct. rpc_invoke P True ''standard'' ep vc cn m (ints xs) st = (Inr (0, Some n), st') \<and>
     rp_reg st' ''standard'' = Some 0 \<and> rp_clients st' = [ct] \<and>
     awaiting P ep n vc ([], enc_request (word_of_nat n) cn m (ints xs)) ct"
proof -
  obtain st0 ct0 where get: "get_client ''standard'' st = (Inr 0, st0)" and st0: "rp_clients st0 = [ct0]"
    "rp_reg st0 ''standard'' = Some 0" and ct0: "settled P ep n ct0"
    using st by (cases "n = 0") (auto simp: rpc_settled_def get_client_def rpc_new_def settled_def client_new_def)
  have p: "initialised (MethodWritable cn m (ints xs))" using ints_initialised by simp
  from begin_sends [OF P p n ct0, of vc] obtain ct where
    run: "client_begin P True (MethodWritable cn m (ints xs)) vc ep ct0 = (Inr (Some n), ct)"
    and ct: "awaiting P ep n vc ([], enc_request (word_of_nat n) cn m (ints xs)) ct"
    by (auto simp: enc_request_def)
  have "rpc_invoke P True ''standard'' ep vc cn m (ints xs) st = (Inr (0, Some n), st0\<lparr>rp_clients := [ct]\<rparr>)"
    by (simp add: rpc_invoke_def sm_simps get on_client_def st0(1) invocation_invoke_def
        get_params_all [OF ints_print] run)
  with ct st0 show ?thesis by auto
qed

lemma remote_int_call:
  assumes P: "duplex P fst snd" "sends_some P fst snd" "asio_connect P (asio_socket P) ep = (True, ([], []))" "5 \<le> max_alloc P"
    and ok: "wire_ok (max_alloc P) (MethodWritable cn m (ints xs))" "nest (MethodWritable cn m (ints xs)) \<le> Suc (Suc d)"
    and res: "method_call (c_str cn) (c_str m) (map wire_image (ints xs)) = Inr (Some (IntWritable (Some r)))"
    and n: "n < 2 ^ 31 - 1" and st: "rpc_settled P ep n st" and sv: "linked sv c"
  shows "\<exists>st' sv'. remote_call P (Suc d) now c 3 (rpc_invoke P True ''standard'' ep ''IntWritable'' cn m (ints xs)) (st, sv) =
      (Inr (Some (Some (IntWritable (Some (trunc8 r))))), (st', sv')) \<and>
     rpc_settled P ep (Suc n) st' \<and> linked sv' c"
proof -
  let ?i = "word_of_nat n :: i32" and ?resp = "enc_response (word_of_nat n) (i32_bytes r)"
  let ?ct = "\<lambda>s ct :: wire client. ct\<lparr>ct_conns := (ct_conns ct)[0 := (ct_conns ct ! 0)\<lparr>cc_sock := Some s\<rparr>]\<rparr>"
  from invoke_sends [OF P(1,3) n st, of "''IntWritable''" cn m xs] obtain st1 ct where
    inv: "rpc_invoke P True ''standard'' ep ''IntWritable'' cn m (ints xs) st = (Inr (0, Some n), st1)"
    and st1: "rp_reg st1 ''standard'' = Some 0" "rp_clients st1 = [ct]"
    and ct: "awaiting P ep n ''IntWritable'' ([], enc_request ?i cn m (ints xs)) ct" by blast
  have live: "live sv c" and sv0: "idle sv c" "sock_of sv c = ([], [])" using sv by (simp_all add: linked_def idle_def)
  have left: "left_sock 0 0 st1 = ([], enc_request ?i cn m (ints xs))"
    using ct by (simp add: left_sock_def st1(2) awaiting_def open_conn_def)
  let ?st2 = "st1\<lparr>rp_clients := [?ct ([], []) ct]\<rparr>" and ?sv2 = "put_right c (enc_request ?i cn m (ints xs), []) sv"
  have carry: "to_server 0 0 c (st1, sv) = (Inr (), (?st2, ?sv2))"
    by (simp add: to_server_def sm_simps left sv0(2)) (simp add: put_left_def Let_def st1(2))
  have sv2: "idle ?sv2 c" "fst (sock_of ?sv2 c) = enc_request ?i cn m (ints xs) @ []" "snd (sock_of ?sv2 c) = []"
    using sv0 by (simp_all add: put_right_simps [OF live])
  from serve_request [OF P(1,2) sv2(1,2) ok res, of now] sv2(3) obtain sv3 where
    serve: "serve P (Suc d) now c 3 ?sv2 = (Inr (), sv3)" and sv3: "sock_of sv3 c = ([], ?resp)" "idle sv3 c"
    by (auto simp: prod_eq_iff)
  let ?st4 = "st1\<lparr>rp_clients := [?ct (?resp, []) ct]\<rparr>" and ?sv4 = "put_right c ([], []) sv3"
  have "left_sock 0 0 ?st2 = ([], [])" using ct by (simp add: left_sock_def awaiting_def open_conn_def)
  then have home: "to_client 0 0 c (?st2, sv3) = (Inr (), (?st4, ?sv4))"
    using ct by (simp add: to_client_def sm_simps sv3(1)) (simp add: put_left_def Let_def awaiting_def open_conn_def)
  from receive_settles [OF P(1,4) awaiting_put [OF ct], of "(?resp, [])" r d] obtain ct5 where
    recv: "recv_respond P (Suc d) 0 (?ct (?resp, []) ct) = (Inr (), ct5)" and ct5: "settled P ep (Suc n) ct5"
    "client_result n ct5 = Some (Some (IntWritable (Some (trunc8 r))))" by auto
  have "remote_call P (Suc d) now c 3 (rpc_invoke P True ''standard'' ep ''IntWritable'' cn m (ints xs)) (st, sv) =
      (Inr (Some (Some (IntWritable (Some (trunc8 r))))), (st1\<lparr>rp_clients := [ct5]\<rparr>, ?sv4))"
    using inv carry serve home recv ct5(2) by (simp add: remote_call_def sm_simps on_client_def)
  moreover have "rpc_settled P ep (Suc n) (st1\<lparr>rp_clients := [ct5]\<rparr>)"
    using st1 ct5 by (simp add: rpc_settled_def)
  moreover have "linked ?sv4 c"
    using sv3(2) put_right_simps [of sv3 c] by (simp add: linked_def idle_def)
  ultimately show ?thesis by blast
qed

section \<open>Any number of calls\<close>

text \<open>What \<open>create\<close> answers, and what of it the client gets.\<close>

definition create_answer :: "i32 list \<Rightarrow> i32" where
  "create_answer xs = trunc8 (word_of_int (sum_list (map (\<lambda>x. sint (trunc8 x)) xs)))"

primrec remote_creates :: "wire platform \<Rightarrow> nat \<Rightarrow> int \<Rightarrow> nat \<Rightarrow> endpoint \<Rightarrow> (i32 \<times> i32 \<times> i32 \<times> i32) list \<Rightarrow>
    (world, writable option option list) sm" where
  "remote_creates P d now c ep [] = ret []"
| "remote_creates P d now c ep (q # qs) = (case q of (x0, x1, x2, x3) \<Rightarrow>
     bind_sm (remote_call P d now c 3 (protocol_create P True ep (IntWritable (Some x0)) (IntWritable (Some x1))
       (IntWritable (Some x2)) (IntWritable (Some x3)))) (\<lambda>v.
     bind_sm (remote_creates P d now c ep qs) (\<lambda>vs. ret (v # vs))))"

lemma ints_wire_ok:
  assumes "str_ok M cn" and "str_ok M m" and "16 * length xs \<le> M" and "length xs \<le> 100" and "12 \<le> M"
  shows "wire_ok M (MethodWritable cn m (ints xs))"
proof -
  have "list_all (\<lambda>w. str_ok M (get_class w) \<and> wire_ok M w) (ints xs)"
    using assms(5) by (induction xs) (simp_all add: ints_def str_ok_def)
  then show ?thesis using assms by (simp add: ints_def vector_max_size_def)
qed

lemma ints_nest: "nest (MethodWritable cn m (ints xs)) \<le> Suc (Suc d)"
  by (induction xs) (simp_all add: ints_def)

lemma create_result:
  "method_call ''NameNode'' ''create'' (map wire_image (ints [x0, x1, x2, x3])) =
     Inr (Some (IntWritable (Some (word_of_int (sum_list (map (\<lambda>x. sint (trunc8 x)) [x0, x1, x2, x3]))))))"
proof -
  let ?p = "\<lambda>x. IntWritable (Some (trunc8 x))"
  have "int8_tree (?p x)" for x using sint_trunc8_bounds [of x] by simp
  then have "list_all int8_tree [?p x0, ?p x1, ?p x2, ?p x3]" by simp
  from create_sums [OF this, of "sint (trunc8 x0)" "sint (trunc8 x1)" "sint (trunc8 x2)" "sint (trunc8 x3)"] obtain r where
    r: "method_call ''NameNode'' ''create'' [?p x0, ?p x1, ?p x2, ?p x3] = Inr (Some (IntWritable (Some r)))"
    "sint r = sint (trunc8 x0) + sint (trunc8 x1) + sint (trunc8 x2) + sint (trunc8 x3)"
    by (auto simp: int_param_def)
  have "r = word_of_int (sum_list (map (\<lambda>x. sint (trunc8 x)) [x0, x1, x2, x3]))"
    using arg_cong [OF r(2), of "word_of_int :: int \<Rightarrow> i32"] by (simp add: add.assoc)
  with r(1) show ?thesis by (simp add: ints_def)
qed

lemma remote_create:
  assumes P: "duplex P fst snd" "sends_some P fst snd" "asio_connect P (asio_socket P) ep = (True, ([], []))" "64 \<le> max_alloc P"
    and n: "n < 2 ^ 31 - 1" and st: "rpc_settled P ep n st" and sv: "linked sv c"
  shows "\<exists>st' sv'. remote_call P (Suc d) now c 3 (protocol_create P True ep (IntWritable (Some x0)) (IntWritable (Some x1))
       (IntWritable (Some x2)) (IntWritable (Some x3))) (st, sv) =
      (Inr (Some (Some (IntWritable (Some (create_answer [x0, x1, x2, x3]))))), (st', sv')) \<and>
     rpc_settled P ep (Suc n) st' \<and> linked sv' c"
proof -
  have "str_ok (max_alloc P) ''NameNode''" "str_ok (max_alloc P) ''create''" using P(4) by (simp_all add: str_ok_def)
  then have ok: "wire_ok (max_alloc P) (MethodWritable ''NameNode'' ''create'' (ints [x0, x1, x2, x3]))"
    using P(4) by (intro ints_wire_ok) simp_all
  have res: "method_call (c_str ''NameNode'') (c_str ''create'') (map wire_image (ints [x0, x1, x2, x3])) =
     Inr (Some (IntWritable (Some (word_of_int (sum_list (map (\<lambda>x. sint (trunc8 x)) [x0, x1, x2, x3]))))))"
    using create_result by (simp add: c_str_def)
  have "5 \<le> max_alloc P" using P(4) by simp
  from remote_int_call [OF P(1-3) this ok ints_nest res n st sv, where now = now] P(4) show ?thesis
    by (simp add: protocol_create_def ints_def create_answer_def)
qed

lemma remote_creates_run:
  assumes P: "duplex P fst snd" "sends_some P fst snd" "asio_connect P (asio_socket P) ep = (True, ([], []))" "64 \<le> max_alloc P"
  shows "n + length qs < 2 ^ 31 \<Longrightarrow> rpc_settled P ep n st \<Longrightarrow> linked sv c \<Longrightarrow>
    \<exists>st' sv'. remote_creates P (Suc d) now c ep qs (st, sv) =
      (Inr (map (\<lambda>(x0, x1, x2, x3). Some (Some (IntWritable (Some (create_answer [x0, x1, x2, x3]))))) qs), (st', sv')) \<and>
     rpc_settled P ep (n + length qs) st' \<and> linked sv' c"
proof (induction qs arbitrary: n st sv)
  case Nil
  then show ?case by (simp add: sm_simps)
next
  case (Cons q qs)
  obtain x0 x1 x2 x3 where q: "q = (x0, x1, x2, x3)" by (metis prod.exhaust)
  from remote_create [OF P _ Cons.prems(2,3), where d = d and now = now and ?x0.0 = x0 and ?x1.0 = x1 and ?x2.0 = x2 and ?x3.0 = x3] Cons.prems(1) obtain st1 sv1 where
    1: "remote_call P (Suc d) now c 3 (protocol_create P True ep (IntWritable (Some x0)) (IntWritable (Some x1))
       (IntWritable (Some x2)) (IntWritable (Some x3))) (st, sv) =
      (Inr (Some (Some (IntWritable (Some (create_answer [x0, x1, x2, x3]))))), (st1, sv1))"
      "rpc_settled P ep (Suc n) st1" "linked sv1 c" by auto
  from Cons.IH [OF _ 1(2,3)] Cons.prems(1) show ?case by (auto simp: q sm_simps 1(1))
qed

text \<open>All that is left of a sum on its way is its lowest byte, so losing the rest twice does no more harm.\<close>

definition stb :: "int \<Rightarrow> int" where
  "stb = signed_take_bit 7"

lemma stb_add: "stb (stb a + b) = stb (a + b)" "stb (a + stb b) = stb (a + b)"
  unfolding stb_def by (metis signed_take_bit_add signed_take_bit_signed_take_bit min.idem)+

lemma stb_cong: "stb b = stb b' \<Longrightarrow> stb (a + b) = stb (a + b')"
  by (metis stb_add(2))

lemma stb_word: "stb (signed_take_bit 31 a) = stb a"
  by (simp add: stb_def signed_take_bit_signed_take_bit)

lemma create_answer_sum: "create_answer [x0, x1, x2, x3] = trunc8 (x0 + x1 + x2 + x3)"
proof -
  have s: "sint (trunc8 x) = stb (sint x)" for x by (simp add: sint_trunc8 stb_def)
  have w: "sint (word_of_int k :: i32) = signed_take_bit 31 k" for k by (simp add: signed_of_int)
  have p: "sint (a + b) = signed_take_bit 31 (sint a + sint b)" for a b :: i32 by (simp add: sint_word_ariths)
  have "sint (create_answer [x0, x1, x2, x3]) = stb (stb (sint x0) + (stb (sint x1) + (stb (sint x2) + stb (sint x3))))"
    unfolding create_answer_def s w stb_word by (simp only: list.map sum_list.Cons sum_list.Nil add_0_right s)
  also have "\<dots> = stb (sint x0 + (sint x1 + (sint x2 + sint x3)))"
    using stb_cong [OF stb_cong [OF stb_add(1) [of "sint x2" "stb (sint x3)"]]] by (metis stb_add stb_cong)
  also have "\<dots> = sint (trunc8 (x0 + x1 + x2 + x3))"
    unfolding s p by (simp add: stb_word stb_add p add.assoc) (metis stb_word stb_add(1) add.assoc)
  finally show ?thesis by (simp add: signed_word_eqI)
qed


lemma linked_demo: "linked demo_server 0"
proof -
  have "bq_items (queue_of demo_server 0) = []" "bq_max (queue_of demo_server 0) \<noteq> 0"
    "bq_items (sv_responds demo_server) = []" "bq_max (sv_responds demo_server) \<noteq> 0"
    "bq_items (sv_calls demo_server) = []" "bq_max (sv_calls demo_server) \<noteq> 0"
    "sock_of demo_server 0 = ([], [])" by code_simp+
  then show ?thesis using live_demo_server by (simp add: linked_def idle_def)
qed

lemma slow_machine_fields [simp]:
  "max_alloc (slow_machine M) = M" "asio_connect (slow_machine M) s ep = (True, s)" "asio_socket (slow_machine M) = ([], [])"
  by (simp_all add: slow_machine_def machine_def)


section \<open>The programs that call\<close>

text \<open>
  The loops of \<open>Test2::test21\<close> and \<open>Test1::test10\<close>, for one thread: what they log of each result.
  A result that is null is dereferenced, and a call that does not return (\<open>None\<close>) stops the loop.
\<close>

primrec repeat_call :: "('st, writable option option) sm \<Rightarrow> nat \<Rightarrow> ('st, string list option) sm" where
  "repeat_call m 0 = ret (Some [])"
| "repeat_call m (Suc n) = bind_sm m (\<lambda>v. case v of
       None \<Rightarrow> ret None
     | Some None \<Rightarrow> fail (Undefined NullDeref)
     | Some (Some w) \<Rightarrow> bind_sm (lift_sum (print_to_string w)) (\<lambda>str.
         bind_sm (repeat_call m n) (\<lambda>strs. ret (map_option ((#) str) strs))))"

definition test21 :: "wire platform \<Rightarrow> nat \<Rightarrow> int \<Rightarrow> nat \<Rightarrow> (string \<Rightarrow> u32 option) \<Rightarrow> string \<Rightarrow> i32 \<Rightarrow> nat \<Rightarrow>
    (world, string list option) sm" where
  "test21 P d now c parse server_host port n = repeat_call
     (remote_call P d now c 3 (protocol_create P True (protocol_endpoint parse server_host port)
       (IntWritable (Some 12)) (IntWritable (Some 23)) (IntWritable (Some 34)) (IntWritable (Some 45)))) n"

definition test10 :: "wire platform \<Rightarrow> nat \<Rightarrow> int \<Rightarrow> nat \<Rightarrow> (string \<Rightarrow> u32 option) \<Rightarrow> string \<Rightarrow> i32 \<Rightarrow> nat \<Rightarrow>
    (world, string list option) sm" where
  "test10 P d now c parse server_host port n = repeat_call
     (remote_call P d now c 3 (rpc_invoke P True ''standard'' (protocol_endpoint parse server_host port)
       ''IntWritable'' ''FSNameSystem'' ''create'' [IntWritable (Some 10), IntWritable (Some 20)])) n"

text \<open>A call that succeeds in every settled state succeeds as often as it is made.\<close>

lemma repeat_call_run:
  assumes "\<And>k st sv. k < 2 ^ 31 - 1 \<Longrightarrow> rpc_settled P ep k st \<Longrightarrow> linked sv c \<Longrightarrow>
      \<exists>st' sv'. m (st, sv) = (Inr (Some (Some (IntWritable (Some x)))), (st', sv')) \<and> rpc_settled P ep (Suc k) st' \<and> linked sv' c"
  shows "k + n < 2 ^ 31 \<Longrightarrow> rpc_settled P ep k st \<Longrightarrow> linked sv c \<Longrightarrow>
    fst (repeat_call m n (st, sv)) = Inr (Some (replicate n (dec_int (sint x))))"
proof (induction n arbitrary: k st sv)
  case 0
  then show ?case by (simp add: sm_simps)
next
  case (Suc n)
  from assms [OF _ Suc.prems(2,3)] Suc.prems(1) obtain st1 sv1 where
    1: "m (st, sv) = (Inr (Some (Some (IntWritable (Some x)))), (st1, sv1))" "rpc_settled P ep (Suc k) st1" "linked sv1 c"
    by auto
  from Suc.IH [OF _ 1(2,3)] Suc.prems(1) obtain w where
    "repeat_call m n (st1, sv1) = (Inr (Some (replicate n (dec_int (sint x)))), w)" by (metis add_Suc_shift prod.collapse)
  with 1(1) show ?case by (simp add: sm_simps print_to_string_def)
qed

lemma fs_create_result:
  "method_call (c_str ''FSNameSystem'') (c_str ''create'') ps = Inr (Some (IntWritable (Some 32)))"
  by (simp add: method_call_def c_str_def)

text \<open>
  What the programs of the repository print with one thread: \<open>Test2\<close> gets 114, the sum of its parameters, and
  \<open>Test1\<close> gets 32, for every call they make.
\<close>

theorem test_programs_print:
  assumes "duplex P fst snd" and "sends_some P fst snd"
    and "asio_connect P (asio_socket P) (protocol_endpoint parse server_host port) = (True, ([], []))"
    and "64 \<le> max_alloc P" and "n < 2 ^ 31" and "linked sv c"
  shows "fst (test21 P (Suc d) now c parse server_host port n (rpc_new, sv)) = Inr (Some (replicate n ''114'')) \<and>
    fst (test10 P (Suc d) now c parse server_host port n (rpc_new, sv)) = Inr (Some (replicate n ''32''))"
proof
  let ?ep = "protocol_endpoint parse server_host port"
  have st: "rpc_settled P ?ep 0 rpc_new" by (simp add: rpc_settled_def)
  have n: "0 + n < 2 ^ 31" using assms(5) by simp
  have shown: "dec_int (sint (create_answer [12, 23, 34, 45])) = ''114''" "dec_int (sint (trunc8 32)) = ''32''"
    by code_simp+
  show "fst (test21 P (Suc d) now c parse server_host port n (rpc_new, sv)) = Inr (Some (replicate n ''114''))"
    unfolding test21_def shown(1) [symmetric]
    by (rule repeat_call_run [OF _ n st assms(6)], rule remote_create [OF assms(1-4)])
  have ints: "[IntWritable (Some 10), IntWritable (Some 20)] = ints [10, 20]" by (simp add: ints_def)
  have "str_ok (max_alloc P) ''FSNameSystem''" "str_ok (max_alloc P) ''create''" using assms(4) by (simp_all add: str_ok_def)
  then have ok: "wire_ok (max_alloc P) (MethodWritable ''FSNameSystem'' ''create'' (ints [10, 20]))"
    using assms(4) by (intro ints_wire_ok) simp_all
  have "5 \<le> max_alloc P" using assms(4) by simp
  note call = remote_int_call [OF assms(1-3) this ok ints_nest fs_create_result]
  show "fst (test10 P (Suc d) now c parse server_host port n (rpc_new, sv)) = Inr (Some (replicate n ''32''))"
    unfolding test10_def shown(2) [symmetric] ints by (rule repeat_call_run [OF _ n st assms(6)], rule call)
qed

theorem test_programs_print_witness:
  "fst (test21 (machine 100) (Suc 0) 9 0 (\<lambda>_. Some 1) ''10.0.0.1'' 4096 50 (rpc_new, demo_server)) =
     Inr (Some (replicate 50 ''114''))"
proof -
  have "asio_connect (machine 100) (asio_socket (machine 100)) (protocol_endpoint (\<lambda>_. Some 1) ''10.0.0.1'' 4096) = (True, ([], []))"
    by (simp add: machine_def)
  from test_programs_print [OF duplex_machine sends_some_machine this _ _ linked_demo, of 50 0 9] show ?thesis by simp
qed

end
