(* ===== verification/Test_Programs.thy ===== *)
theory Test_Programs
  imports Concurrent_Calls Remote_Call
begin

text \<open>
  The client programs of the repository (\<open>src/Test1.cpp\<close>, \<open>src/Test2.cpp\<close>; \<open>main.cpp\<close> runs
  \<open>Test2::test20\<close> with 32 threads of 50 calls) as they run: threads that call again and again,
  over one client with its callers and receivers, against a server with all its threads.

  A thread makes a call with \<open>NewCall\<close> of \<open>Client_Core\<close>, whose thread of a call is from then on
  its own, and waits until it has returned; its loop then logs the value. The cache of clients
  gives all threads the one client of type \<open>standard\<close>, made by the first of them. A fault of any
  thread is the end of the process and of the run; where \<open>invoke\<close> catches an exception of the call
  it aborts, so it ends the process as well.
\<close>

section \<open>Threads that call\<close>

text \<open>A thread: the calls it still has to make, the one it waits for, and what it has logged.\<close>

record tester =
  te_left :: nat
  te_call :: "nat option"
  te_log :: "string list"

record 's program =
  pg_client :: "'s cl_config"
  pg_testers :: "tester list"

text \<open>
  The parameter of each call: \<open>Invocation::invoke\<close> with its \<open>getParams\<close>, where an exception aborts the
  program, or in \<open>Test1::test1\<close> a vector.
\<close>

definition invocation_param :: "string \<Rightarrow> string \<Rightarrow> writable list \<Rightarrow> fault + writable" where
  "invocation_param class_name method_name args = (case get_params [] args of
       Inl (Throw e) \<Rightarrow> Inl Aborted
     | Inl e \<Rightarrow> Inl e
     | Inr params \<Rightarrow> Inr (MethodWritable class_name method_name params))"

definition test21_param :: "fault + writable" where
  "test21_param = invocation_param ''NameNode'' ''create''
     [IntWritable (Some 12), IntWritable (Some 23), IntWritable (Some 34), IntWritable (Some 45)]"

definition test10_param :: "fault + writable" where
  "test10_param = invocation_param ''FSNameSystem'' ''create'' [IntWritable (Some 10), IntWritable (Some 20)]"

definition test1_param :: "fault + writable" where
  "test1_param = Inr (MethodWritable ''FSNameSystem'' ''create'' [IntWritable (Some 10), IntWritable (Some 20)])"

text \<open>
  The start of \<open>test20\<close> and \<open>test2\<close>: a vector of threads, whose size is a negative \<open>int\<close> that has
  become a huge \<open>size_t\<close> when \<open>thread\<close> is below zero. A loop up to a negative \<open>rep\<close> makes no calls.
\<close>

definition testers_start :: "i32 \<Rightarrow> i32 \<Rightarrow> fault + tester list" where
  "testers_start thread rep = (if sint thread < 0 then Inl (Throw LengthError)
     else Inr (replicate (nat (sint thread)) \<lparr>te_left = nat (sint rep), te_call = None, te_log = []\<rparr>))"

definition program_start :: "i32 \<Rightarrow> i32 \<Rightarrow> fault + 's program" where
  "program_start thread rep = bind_sum (testers_start thread rep) (\<lambda>ts. Inr \<lparr>pg_client = cl_init, pg_testers = ts\<rparr>)"

text \<open>One move of thread \<open>t\<close>: it makes a call, or logs the value of the call that has returned.\<close>

definition tester_calls :: "'s platform \<Rightarrow> bool \<Rightarrow> nat \<Rightarrow> endpoint \<Rightarrow> fault + writable \<Rightarrow> nat \<Rightarrow> 's program \<Rightarrow> (fault + 's program) option" where
  "tester_calls P zeroed d ep job t pg = (case job of
       Inl e \<Rightarrow> Some (Inl e)
     | Inr p \<Rightarrow> map_option (map_sum id (\<lambda>cg. pg\<lparr>pg_client := cg, pg_testers := (pg_testers pg)
         [t := (pg_testers pg ! t)\<lparr>te_call := Some (length (cg_callers (pg_client pg)))\<rparr>]\<rparr>))
         (client_step P zeroed d (NewCall p ''IntWritable'' ep) (pg_client pg)))"

definition tester_logs :: "nat \<Rightarrow> nat \<Rightarrow> 's program \<Rightarrow> (fault + 's program) option" where
  "tester_logs t k pg = (case cg_callers (pg_client pg) ! k of
       CDone \<Rightarrow> Some (case cl_value (ct_calls (cg_client (pg_client pg)) ! k) of
           None \<Rightarrow> Inl (Undefined NullDeref)
         | Some w \<Rightarrow> bind_sum (print_to_string w) (\<lambda>str. let te = pg_testers pg ! t in
             Inr (pg\<lparr>pg_testers := (pg_testers pg)[t := \<lparr>te_left = te_left te - 1, te_call = None, te_log = te_log te @ [str]\<rparr>]\<rparr>)))
     | CNull \<Rightarrow> Some (Inl (Undefined NullDeref))
     | _ \<Rightarrow> None)"

definition tester_step :: "'s platform \<Rightarrow> bool \<Rightarrow> nat \<Rightarrow> endpoint \<Rightarrow> fault + writable \<Rightarrow> nat \<Rightarrow> 's program \<Rightarrow> (fault + 's program) option" where
  "tester_step P zeroed d ep job t pg = (case te_call (pg_testers pg ! t) of
       Some k \<Rightarrow> tester_logs t k pg
     | None \<Rightarrow> if te_left (pg_testers pg ! t) = 0 then None else tester_calls P zeroed d ep job t pg)"

datatype 's program_action =
    Tester nat
  | Inner "'s cl_action" \<comment> \<open>a move of a caller, a receiver or the network\<close>

fun inner_action :: "'s cl_action \<Rightarrow> bool" where
  "inner_action (NewCall p vc ep) \<longleftrightarrow> False"
| "inner_action _ \<longleftrightarrow> True"

fun program_step :: "'s platform \<Rightarrow> bool \<Rightarrow> nat \<Rightarrow> endpoint \<Rightarrow> fault + writable \<Rightarrow> 's program_action \<Rightarrow> 's program \<Rightarrow>
    (fault + 's program) option" where
  "program_step P zeroed d ep job (Tester t) pg =
     (if t < length (pg_testers pg) then tester_step P zeroed d ep job t pg else None)"
| "program_step P zeroed d ep job (Inner a) pg =
     (if inner_action a then map_option (map_sum id (\<lambda>cg. pg\<lparr>pg_client := cg\<rparr>)) (client_step P zeroed d a (pg_client pg)) else None)"

fun program_run :: "'s platform \<Rightarrow> bool \<Rightarrow> nat \<Rightarrow> endpoint \<Rightarrow> fault + writable \<Rightarrow> 's program_action list \<Rightarrow> 's program \<Rightarrow>
    (fault + 's program) option" where
  "program_run P zeroed d ep job [] pg = Some (Inr pg)"
| "program_run P zeroed d ep job (a # as) pg = (case program_step P zeroed d ep job a pg of
       None \<Rightarrow> None
     | Some (Inl e) \<Rightarrow> Some (Inl e)
     | Some (Inr pg') \<Rightarrow> program_run P zeroed d ep job as pg')"

text \<open>All threads have been joined.\<close>

definition joined :: "'s program \<Rightarrow> bool" where
  "joined pg \<longleftrightarrow> list_all (\<lambda>te. te_left te = 0 \<and> te_call te = None) (pg_testers pg)"

text \<open>A program run, with the responses that have arrived on each connection.\<close>

inductive program_runs :: "'s platform \<Rightarrow> ('s \<Rightarrow> string) \<Rightarrow> ('s \<Rightarrow> string) \<Rightarrow> bool \<Rightarrow> nat \<Rightarrow> endpoint \<Rightarrow> fault + writable \<Rightarrow>
    i32 \<Rightarrow> i32 \<Rightarrow> (nat \<Rightarrow> (i32 \<times> i32) list) \<Rightarrow> 's program \<Rightarrow> bool" for P rx tx zeroed d ep job thread rep where
  start: "program_start thread rep = Inr pg \<Longrightarrow> program_runs P rx tx zeroed d ep job thread rep (\<lambda>_. []) pg"
| arrive: "program_runs P rx tx zeroed d ep job thread rep got pg \<Longrightarrow>
    program_step P zeroed d ep job (Inner (Arrive c s)) pg = Some (Inr pg') \<Longrightarrow>
    rx s = unread_on rx (ct_conns (cg_client (pg_client pg)) ! c) @ response_bytes rs \<Longrightarrow>
    tx s = sent_on tx (ct_conns (cg_client (pg_client pg)) ! c) \<Longrightarrow>
    program_runs P rx tx zeroed d ep job thread rep (got(c := got c @ rs)) pg'"
| move: "program_runs P rx tx zeroed d ep job thread rep got pg \<Longrightarrow> \<forall>c s. a \<noteq> Inner (Arrive c s) \<Longrightarrow>
    program_step P zeroed d ep job a pg = Some (Inr pg') \<Longrightarrow> program_runs P rx tx zeroed d ep job thread rep got pg'"

text \<open>
  \<open>Test1::test2\<close>: each of its threads runs \<open>test1\<close>, which makes a client of its own, so it is as many
  programs with one thread, all running at once.
\<close>

definition test2_start :: "i32 \<Rightarrow> i32 \<Rightarrow> fault + 's program list" where
  "test2_start thread rep = (if sint thread < 0 then Inl (Throw LengthError)
     else bind_sum (program_start 1 rep) (\<lambda>pg. Inr (replicate (nat (sint thread)) pg)))"

inductive test2_runs :: "'s platform \<Rightarrow> ('s \<Rightarrow> string) \<Rightarrow> ('s \<Rightarrow> string) \<Rightarrow> bool \<Rightarrow> nat \<Rightarrow> endpoint \<Rightarrow>
    i32 \<Rightarrow> i32 \<Rightarrow> (nat \<Rightarrow> nat \<Rightarrow> (i32 \<times> i32) list) \<Rightarrow> 's program list \<Rightarrow> bool" for P rx tx zeroed d ep thread rep where
  start: "test2_start thread rep = Inr pgs \<Longrightarrow> test2_runs P rx tx zeroed d ep thread rep (\<lambda>_ _. []) pgs"
| arrive: "test2_runs P rx tx zeroed d ep thread rep gots pgs \<Longrightarrow> i < length pgs \<Longrightarrow>
    program_step P zeroed d ep test1_param (Inner (Arrive c s)) (pgs ! i) = Some (Inr pg') \<Longrightarrow>
    rx s = unread_on rx (ct_conns (cg_client (pg_client (pgs ! i))) ! c) @ response_bytes rs \<Longrightarrow>
    tx s = sent_on tx (ct_conns (cg_client (pg_client (pgs ! i))) ! c) \<Longrightarrow>
    test2_runs P rx tx zeroed d ep thread rep (gots(i := (gots i)(c := gots i c @ rs))) (pgs[i := pg'])"
| move: "test2_runs P rx tx zeroed d ep thread rep gots pgs \<Longrightarrow> i < length pgs \<Longrightarrow> \<forall>c s. a \<noteq> Inner (Arrive c s) \<Longrightarrow>
    program_step P zeroed d ep test1_param a (pgs ! i) = Some (Inr pg') \<Longrightarrow>
    test2_runs P rx tx zeroed d ep thread rep gots (pgs[i := pg'])"

text \<open>Each of them runs as it would on its own.\<close>

lemma test2_each_runs:
  assumes "test2_runs P rx tx zeroed d ep thread rep gots pgs" and "i < length pgs"
  shows "program_runs P rx tx zeroed d ep test1_param 1 rep (gots i) (pgs ! i)"
  using assms
proof (induction arbitrary: i)
  case (start pgs)
  then have "program_start 1 rep = Inr (pgs ! i)" by (auto simp: test2_start_def bind_sum_eq_Inr split: if_splits)
  then show ?case by (rule program_runs.start)
next
  case (arrive gots pgs j c s pg' rs)
  show ?case
  proof (cases "i = j")
    case True
    with arrive.hyps(2) program_runs.arrive [OF arrive.IH [OF arrive.hyps(2)] arrive.hyps(3-5)] show ?thesis by (simp add: fun_upd_def)
  next
    case False
    with arrive.IH [of i] arrive.prems show ?thesis by simp
  qed
next
  case (move gots pgs j a pg')
  show ?case
  proof (cases "i = j")
    case True
    with move.hyps(2) program_runs.move [OF move.IH [OF move.hyps(2)] move.hyps(3,4)] show ?thesis by simp
  next
    case False
    with move.IH [of i] move.prems show ?thesis by simp
  qed
qed

section \<open>Programs and their client\<close>

lemma program_receives:
  assumes "program_runs P rx tx zeroed d ep (Inr p) thread rep got pg" and "initialised p"
  shows "receives P rx tx zeroed d got (pg_client pg)"
  using assms(1)
proof induction
  case (start pg)
  then have "pg_client pg = cl_init" by (auto simp: program_start_def bind_sum_eq_Inr)
  then show ?case by (simp add: receives.start)
next
  case (arrive got pg c s pg' rs)
  have "client_step P zeroed d (Arrive c s) (pg_client pg) = Some (Inr (pg_client pg'))"
    using arrive.hyps(2) by (auto simp: map_sum_eq_Inr simp del: client_step.simps)
  from receives.arrive [OF arrive.IH this arrive.hyps(3,4)] show ?case .
next
  case (move got pg a pg')
  show ?case
  proof (cases a)
    case (Tester t)
    show ?thesis
    proof (cases "te_call (pg_testers pg ! t)")
      case None
      with move.hyps(3) Tester have "client_step P zeroed d (NewCall p ''IntWritable'' ep) (pg_client pg) = Some (Inr (pg_client pg'))"
        by (auto simp: tester_step_def tester_calls_def split: if_splits)
      with assms(2) show ?thesis by (intro receives.move [OF move.IH, of "NewCall p ''IntWritable'' ep"]) simp_all
    next
      case (Some k)
      with move.hyps(3) Tester have "pg_client pg' = pg_client pg"
        by (auto simp: tester_step_def tester_logs_def bind_sum_eq_Inr Let_def split: if_splits caller_pc.splits option.splits)
      with move.IH show ?thesis by simp
    qed
  next
    case (Inner b)
    with move.hyps(3) have "client_step P zeroed d b (pg_client pg) = Some (Inr (pg_client pg'))" and "inner_action b"
      by (auto simp: map_sum_eq_Inr simp del: client_step.simps split: if_splits)
    moreover have "plain_action b" "fair_action tx b (pg_client pg)"
      using \<open>inner_action b\<close> move.hyps(2) Inner by (cases b; simp)+
    ultimately show ?thesis by (intro receives.move [OF move.IH])
  qed
qed

text \<open>What a step of the client leaves of the calls that have been made.\<close>

definition calls_kept :: "'s cl_config \<Rightarrow> 's cl_config \<Rightarrow> bool" where
  "calls_kept cg cg' \<longleftrightarrow> length (cg_callers cg) \<le> length (cg_callers cg') \<and>
     (\<forall>k < length (cg_callers cg). (cg_callers cg ! k = CDone \<longrightarrow> cg_callers cg' ! k = CDone) \<and>
       cl_param (ct_calls (cg_client cg') ! k) = cl_param (ct_calls (cg_client cg) ! k) \<and>
       (call_added (cg_callers cg ! k) \<longrightarrow> cl_id (ct_calls (cg_client cg') ! k) = cl_id (ct_calls (cg_client cg) ! k) \<and>
          cl_conn (ct_calls (cg_client cg') ! k) = cl_conn (ct_calls (cg_client cg) ! k)))"

lemma caller_callers:
  "caller_step P zeroed k pc cg = Some (Inr cg') \<Longrightarrow> pc \<noteq> CDone \<and> (\<exists>pc'. cg_callers cg' = (cg_callers cg)[k := pc'])"
  by (cases pc) (auto simp: cmoment_Inr pad_receivers_def caller_to_def split: if_splits)

lemma receiver_calls:
  assumes net: "client_net P rx tx" and inv: "client_inv tx cg"
    and c: "c < length (cg_receivers cg)" "cc_recv_started (ct_conns (cg_client cg) ! c)"
    and st: "receiver_step P d c (cg_receivers cg ! c) cg = Some (Inr cg')"
  shows "cg_callers cg' = cg_callers cg \<and> (\<forall>k. cl_param (ct_calls (cg_client cg') ! k) = cl_param (ct_calls (cg_client cg) ! k) \<and>
    cl_id (ct_calls (cg_client cg') ! k) = cl_id (ct_calls (cg_client cg) ! k) \<and>
    cl_conn (ct_calls (cg_client cg') ! k) = cl_conn (ct_calls (cg_client cg) ! k))"
proof -
  have c': "c < length (ct_conns (cg_client cg))" using c(1) inv_lengths(2) [OF inv] by simp
  have sock: "cc_sock (ct_conns (cg_client cg) ! c) \<noteq> None"
    using inv_lengths(4) [OF inv] c(2) c' by (simp add: socks_ok_def)
  have same: ?thesis if "same_view tx (cg_client cg) ct" "cg' = receiver_to c pc (cg\<lparr>cg_client := ct\<rparr>)" for ct pc
    using that by (simp add: same_view_def receiver_to_def)
  from st c' show ?thesis
  proof (cases rule: receiver_stepE)
    case (read i ct)
    show ?thesis by (rule same [OF recv_id_effect [OF net read(2) sock] read(3)])
  next
    case (dropped k e ct)
    show ?thesis by (rule same [OF recv_value_effect [OF net dropped(2) sock] dropped(3)])
  next
    case (valued k w ct)
    show ?thesis by (rule same [OF recv_value_effect [OF net valued(2) sock] valued(3)])
  next
    case (set k w b ct)
    have "cl_param (ct_calls ct ! j) = cl_param (ct_calls (cg_client cg) ! j) \<and> cl_id (ct_calls ct ! j) = cl_id (ct_calls (cg_client cg) ! j) \<and>
      cl_conn (ct_calls ct ! j) = cl_conn (ct_calls (cg_client cg) ! j)" for j
      unfolding set(4) by (cases "k < length (ct_calls (cg_client cg))"; cases "j = k") (simp_all add: list_update_beyond)
    then show ?thesis by (simp add: set(5) receiver_to_def)
  next
    case (closed u ct)
    show ?thesis by (rule same [OF close_sock_effect [OF net] closed(3)]) (use closed(2) in simp_all)
  next
    case (removed ep u ct)
    show ?thesis by (rule same [OF remove_connection_effect [OF removed(3)] removed(4)])
  qed (simp_all add: receiver_to_def)
qed

lemma client_step_keeps_calls:
  assumes net: "client_net P rx tx" and inv: "client_inv tx cg" and st: "client_step P zeroed d a cg = Some (Inr cg')"
  shows "calls_kept cg cg'"
proof (cases a)
  case (NewCall p vc ep)
  with st inv_lengths(1) [OF inv] show ?thesis by (auto simp: calls_kept_def nth_append)
next
  case (CallerMove k)
  with st have k: "k < length (cg_callers cg)" and r: "caller_step P zeroed k (cg_callers cg ! k) cg = Some (Inr cg')"
    by (auto split: if_splits)
  obtain pc' where callers: "cg_callers cg ! k \<noteq> CDone" "cg_callers cg' = (cg_callers cg)[k := pc']" using caller_callers [OF r] by blast
  obtain i c where calls: "ct_calls (cg_client cg') = ct_calls (cg_client cg) \<or> \<not> call_added (cg_callers cg ! k) \<and>
    ct_calls (cg_client cg') = (ct_calls (cg_client cg))[k := (ct_calls (cg_client cg) ! k)\<lparr>cl_id := i, cl_conn := Some c\<rparr>]"
    using caller_calls [OF net inv k r] by blast
  show ?thesis unfolding calls_kept_def
  proof (intro conjI allI impI)
    fix j
    assume j: "j < length (cg_callers cg)"
    show "cg_callers cg' ! j = CDone" if "cg_callers cg ! j = CDone" using that callers by (cases "j = k") simp_all
    show "cl_param (ct_calls (cg_client cg') ! j) = cl_param (ct_calls (cg_client cg) ! j)"
      using calls j inv_lengths(1) [OF inv] by (cases "j = k") auto
    show "cl_id (ct_calls (cg_client cg') ! j) = cl_id (ct_calls (cg_client cg) ! j)"
      "cl_conn (ct_calls (cg_client cg') ! j) = cl_conn (ct_calls (cg_client cg) ! j)" if "call_added (cg_callers cg ! j)"
      using that calls by (cases "j = k"; auto)+
  qed (use callers in simp)
next
  case (ReceiverMove c)
  with st receiver_calls [OF net inv, of c d cg'] show ?thesis by (auto simp: calls_kept_def split: if_splits)
next
  case (Arrive c s)
  with st show ?thesis by (auto simp: calls_kept_def split: if_splits)
qed

section \<open>What the threads log\<close>

text \<open>A line that has been logged is the value a response has brought to a call that has returned.\<close>

definition logged :: "(nat \<Rightarrow> (i32 \<times> i32) list) \<Rightarrow> 's cl_config \<Rightarrow> string \<Rightarrow> bool" where
  "logged got cg str \<longleftrightarrow> (\<exists>k c x. k < length (cg_callers cg) \<and> cg_callers cg ! k = CDone \<and>
     cl_conn (ct_calls (cg_client cg) ! k) = Some c \<and> (cl_id (ct_calls (cg_client cg) ! k), x) \<in> set (got c) \<and>
     str = dec_int (sint (trunc8 x)))"

definition tester_inv :: "(nat \<Rightarrow> (i32 \<times> i32) list) \<Rightarrow> i32 \<Rightarrow> 's cl_config \<Rightarrow> tester \<Rightarrow> bool" where
  "tester_inv got rep cg te \<longleftrightarrow> length (te_log te) + te_left te = nat (sint rep) \<and> list_all (logged got cg) (te_log te) \<and>
     (\<forall>k. te_call te = Some k \<longrightarrow> 0 < te_left te \<and> k < length (cg_callers cg))"

definition program_inv :: "(nat \<Rightarrow> (i32 \<times> i32) list) \<Rightarrow> writable \<Rightarrow> i32 \<Rightarrow> 's program \<Rightarrow> bool" where
  "program_inv got p rep pg \<longleftrightarrow> (\<forall>k < length (cg_callers (pg_client pg)). cl_param (ct_calls (cg_client (pg_client pg)) ! k) = p) \<and>
     list_all (tester_inv got rep (pg_client pg)) (pg_testers pg)"

lemma logged_kept:
  assumes "logged got cg str" and kept: "calls_kept cg cg'" and got: "\<And>c. set (got c) \<subseteq> set (got' c)"
  shows "logged got' cg' str"
proof -
  obtain k c x where k: "k < length (cg_callers cg)" "cg_callers cg ! k = CDone" "cl_conn (ct_calls (cg_client cg) ! k) = Some c"
    and x: "(cl_id (ct_calls (cg_client cg) ! k), x) \<in> set (got c)" "str = dec_int (sint (trunc8 x))"
    using assms(1) by (auto simp: logged_def)
  have "k < length (cg_callers cg')" "cg_callers cg' ! k = CDone" "cl_conn (ct_calls (cg_client cg') ! k) = Some c"
    "cl_id (ct_calls (cg_client cg') ! k) = cl_id (ct_calls (cg_client cg) ! k)"
    using k kept by (auto simp: calls_kept_def)
  with x got [of c] show ?thesis unfolding logged_def by (intro exI [of _ k] exI [of _ c] exI [of _ x]) auto
qed

lemma tester_inv_kept:
  assumes te: "tester_inv got rep cg te" and kept: "calls_kept cg cg'" and got: "\<And>c. set (got c) \<subseteq> set (got' c)"
  shows "tester_inv got' rep cg' te"
proof -
  have "list_all (logged got' cg') (te_log te)"
    using te logged_kept [OF _ kept got] by (simp add: tester_inv_def list_all_iff)
  with te kept show ?thesis by (auto simp: tester_inv_def calls_kept_def intro: less_le_trans)
qed

lemma program_inv_client:
  assumes inv: "program_inv got p rep pg" and kept: "calls_kept (pg_client pg) cg" and len: "length (cg_callers cg) = length (cg_callers (pg_client pg))"
    and got: "\<And>c. set (got c) \<subseteq> set (got' c)"
  shows "program_inv got' p rep (pg\<lparr>pg_client := cg\<rparr>)"
  using inv kept len tester_inv_kept [OF _ kept got] by (auto simp: program_inv_def calls_kept_def list_all_iff)

lemma inner_length:
  "client_step P zeroed d a cg = Some (Inr cg') \<Longrightarrow> inner_action a \<Longrightarrow> client_net P rx tx \<Longrightarrow> client_inv tx cg \<Longrightarrow>
   length (cg_callers cg') = length (cg_callers cg)"
  by (cases a) (auto split: if_splits dest!: caller_callers receiver_calls)

lemma tester_calls_inv:
  assumes net: "client_net P rx tx" and inv: "client_inv tx (pg_client pg)" and prog: "program_inv got p rep pg"
    and t: "t < length (pg_testers pg)" "te_left (pg_testers pg ! t) \<noteq> 0"
    and st: "tester_calls P zeroed d ep (Inr p) t pg = Some (Inr pg')"
  shows "program_inv got p rep pg'"
proof -
  let ?cg = "pg_client pg" and ?te = "(pg_testers pg ! t)\<lparr>te_call := Some (length (cg_callers (pg_client pg)))\<rparr>"
  obtain cg' where new: "client_step P zeroed d (NewCall p ''IntWritable'' ep) ?cg = Some (Inr cg')"
    and pg': "pg' = pg\<lparr>pg_client := cg', pg_testers := (pg_testers pg)[t := ?te]\<rparr>"
    using st by (auto simp: tester_calls_def map_sum_eq_Inr simp del: client_step.simps)
  note kept = client_step_keeps_calls [OF net inv new]
  have more: "length (cg_callers cg') = Suc (length (cg_callers ?cg))" using new by auto
  have old: "tester_inv got rep cg' te" if "te \<in> set (pg_testers pg)" for te
    using prog that by (intro tester_inv_kept [where got = got, OF _ kept]) (simp_all add: program_inv_def list_all_iff)
  have "tester_inv got rep cg' ?te"
    using old [OF nth_mem [OF t(1)]] t(2) more by (simp add: tester_inv_def)
  then have "list_all (tester_inv got rep cg') ((pg_testers pg)[t := ?te])"
    using old by (intro list_all_update) (simp_all add: list_all_iff)
  moreover have "cl_param (ct_calls (cg_client cg') ! k) = p" if "k < length (cg_callers cg')" for k
    using that prog more new kept inv_lengths(1) [OF inv]
    by (cases "k = length (cg_callers ?cg)") (auto simp: program_inv_def calls_kept_def client_call_new_def nth_append less_Suc_eq)
  ultimately show ?thesis by (simp add: program_inv_def pg')
qed

lemma tester_logs_inv:
  assumes net: "client_net P rx tx" "net_fresh P rx" "5 \<le> max_alloc P" and rec: "receives P rx tx zeroed (Suc d) got (pg_client pg)"
    and prog: "program_inv got p rep pg" and t: "t < length (pg_testers pg)" "te_call (pg_testers pg ! t) = Some k"
    and st: "tester_logs t k pg = Some (Inr pg')"
  shows "program_inv got p rep pg'"
proof -
  let ?cg = "pg_client pg" and ?te = "pg_testers pg ! t"
  have te: "tester_inv got rep ?cg ?te" using prog t(1) by (simp add: program_inv_def list_all_length)
  then have k: "k < length (cg_callers ?cg)" "0 < te_left ?te" using t(2) by (simp_all add: tester_inv_def)
  have dn: "cg_callers ?cg ! k = CDone" using st by (auto simp: tester_logs_def split: caller_pc.splits)
  obtain c x where x: "cl_conn (ct_calls (cg_client ?cg) ! k) = Some c" "(cl_id (ct_calls (cg_client ?cg) ! k), x) \<in> set (got c)"
    "cl_value (ct_calls (cg_client ?cg) ! k) = Some (IntWritable (Some (trunc8 x)))"
    using done_value [OF net rec k(1) dn] by blast
  let ?te' = "\<lparr>te_left = te_left ?te - 1, te_call = None, te_log = te_log ?te @ [dec_int (sint (trunc8 x))]\<rparr>"
  have pg': "pg' = pg\<lparr>pg_testers := (pg_testers pg)[t := ?te']\<rparr>"
    using st dn x(3) by (simp add: tester_logs_def print_to_string_def Let_def)
  have "logged got ?cg (dec_int (sint (trunc8 x)))" using k(1) dn x(1,2) by (auto simp: logged_def)
  moreover have "length (te_log ?te @ [dec_int (sint (trunc8 x))]) + (te_left ?te - 1) = nat (sint rep)"
    using te k(2) unfolding tester_inv_def by simp linarith
  ultimately have "tester_inv got rep ?cg ?te'" using te by (simp add: tester_inv_def)
  with prog show ?thesis by (simp add: program_inv_def pg' list_all_update)
qed

lemma program_runs_inv:
  assumes net: "client_net P rx tx" "net_fresh P rx" "5 \<le> max_alloc P" and p: "initialised p"
    and run: "program_runs P rx tx zeroed (Suc d) ep (Inr p) thread rep got pg"
  shows "program_inv got p rep pg"
  using run
proof induction
  case (start pg)
  then show ?case
    by (auto simp: program_start_def testers_start_def bind_sum_eq_Inr program_inv_def tester_inv_def cl_init_def list_all_iff split: if_splits)
next
  case (arrive got pg c s pg' rs)
  have inv: "client_inv tx (pg_client pg)"
    by (rule client_reachable_inv [OF net(1) receives_reachable [OF program_receives [OF arrive.hyps(1) p]]])
  obtain cg where st: "client_step P zeroed (Suc d) (Arrive c s) (pg_client pg) = Some (Inr cg)" and pg': "pg' = pg\<lparr>pg_client := cg\<rparr>"
    using arrive.hyps(2) by (auto simp: map_sum_eq_Inr simp del: client_step.simps)
  show ?case unfolding pg'
    by (rule program_inv_client [OF arrive.IH client_step_keeps_calls [OF net(1) inv st] inner_length [OF st _ net(1) inv]]) auto
next
  case (move got pg a pg')
  note rec = program_receives [OF move.hyps(1) p]
  have inv: "client_inv tx (pg_client pg)" by (rule client_reachable_inv [OF net(1) receives_reachable [OF rec]])
  show ?case
  proof (cases a)
    case (Tester t)
    with move.hyps(3) have t: "t < length (pg_testers pg)" and st: "tester_step P zeroed (Suc d) ep (Inr p) t pg = Some (Inr pg')"
      by (auto split: if_splits)
    show ?thesis
    proof (cases "te_call (pg_testers pg ! t)")
      case None
      with st have "te_left (pg_testers pg ! t) \<noteq> 0" "tester_calls P zeroed (Suc d) ep (Inr p) t pg = Some (Inr pg')"
        by (auto simp: tester_step_def split: if_splits)
      from tester_calls_inv [OF net(1) inv move.IH t this] show ?thesis .
    next
      case (Some k)
      with st have "tester_logs t k pg = Some (Inr pg')" by (simp add: tester_step_def)
      from tester_logs_inv [OF net rec move.IH t Some this] show ?thesis .
    qed
  next
    case (Inner b)
    then obtain cg where st: "client_step P zeroed (Suc d) b (pg_client pg) = Some (Inr cg)" "inner_action b" and pg': "pg' = pg\<lparr>pg_client := cg\<rparr>"
      using move.hyps(3) by (auto simp: map_sum_eq_Inr simp del: client_step.simps split: if_splits)
    show ?thesis unfolding pg'
      by (rule program_inv_client [OF move.IH client_step_keeps_calls [OF net(1) inv st(1)] inner_length [OF st net(1) inv]]) auto
  qed
qed

section \<open>The programs of the repository\<close>

lemma test21_param_eq: "test21_param = Inr (MethodWritable ''NameNode'' ''create'' (ints [12, 23, 34, 45]))"
  by (simp add: test21_param_def invocation_param_def print_to_string_def ints_def)

lemma test10_param_eq: "test10_param = Inr (MethodWritable ''FSNameSystem'' ''create'' (ints [10, 20]))"
  by (simp add: test10_param_def invocation_param_def print_to_string_def ints_def)

lemma test1_param_eq: "test1_param = Inr (MethodWritable ''FSNameSystem'' ''create'' (ints [10, 20]))"
  by (simp add: test1_param_def ints_def)

text \<open>The line a program logs for each call.\<close>

definition program_line :: "fault + writable \<Rightarrow> string" where
  "program_line job = (if job = test21_param then ''114'' else ''32'')"

lemma program_params:
  assumes "job \<in> {test21_param, test10_param, test1_param}" and "64 \<le> M"
  obtains cn m xs r where "job = Inr (MethodWritable cn m (ints xs))"
    and "\<And>i. request_ok M (Suc d) (i, cn, m, ints xs)"
    and "method_call (c_str cn) (c_str m) (map wire_image (ints xs)) = Inr (Some (IntWritable (Some r)))"
    and "dec_int (sint (trunc8 r)) = program_line job"
proof (cases "job = test21_param")
  case True
  let ?r = "word_of_int (sum_list (map (\<lambda>x. sint (trunc8 x)) [12, 23, 34, 45])) :: i32"
  have "request_ok M (Suc d) (i, ''NameNode'', ''create'', ints [12, 23, 34, 45])" for i
    using assms(2) ints_wire_ok [of M "''NameNode''" "''create''" "[12, 23, 34, 45]"] ints_nest [of "''NameNode''" "''create''" _ d]
    by (simp add: request_ok_def str_ok_def)
  moreover have "dec_int (sint (trunc8 ?r)) = ''114''" by code_simp
  moreover have "c_str ''NameNode'' = ''NameNode''" "c_str ''create'' = ''create''" by code_simp+
  ultimately show ?thesis
    using True create_result [of 12 23 34 45] by (intro that [OF test21_param_eq [folded True]]) (simp_all add: program_line_def)
next
  case False
  then have job: "job = Inr (MethodWritable ''FSNameSystem'' ''create'' (ints [10, 20]))"
    using assms(1) test10_param_eq test1_param_eq by auto
  have "request_ok M (Suc d) (i, ''FSNameSystem'', ''create'', ints [10, 20])" for i
    using assms(2) ints_wire_ok [of M "''FSNameSystem''" "''create''" "[10, 20]"] ints_nest [of "''FSNameSystem''" "''create''" _ d]
    by (simp add: request_ok_def str_ok_def)
  moreover have "dec_int (sint (trunc8 32)) = ''32''" by code_simp
  ultimately show ?thesis using False fs_create_result by (intro that [OF job]) (simp_all add: program_line_def)
qed

text \<open>Each connection of the client is served by a socket of the server.\<close>

definition served_by :: "('s \<Rightarrow> string) \<Rightarrow> 's cl_config \<Rightarrow> (nat \<Rightarrow> (i32 \<times> i32) list) \<Rightarrow> ('t \<Rightarrow> string) \<Rightarrow> request list list \<Rightarrow> 't config \<Rightarrow> bool" where
  "served_by txc cg got tx reqs cf \<longleftrightarrow> (\<forall>c < length (ct_conns (cg_client cg)). \<exists>e < length reqs. \<exists>transit.
     sent_on txc (ct_conns (cg_client cg) ! c) = enc_requests (reqs ! e) \<and>
     tx (sv_socks (cf_server cf) ! e) = response_bytes (got c) @ transit)"

text \<open>What a thread has logged at any moment: one line, the right one, for each call it no longer has to make.\<close>

lemma thread_lines:
  assumes client: "client_net Pc rxc txc" "net_fresh Pc rxc" "5 \<le> max_alloc Pc"
      "program_runs Pc rxc txc zeroed (Suc dc) ep job thread rep got pg"
    and server: "duplex P rx tx" "sends_some P rx tx" "sends_all P" "close_quiet P rx tx" "serves P (Suc d) rx tx reqs cf"
    and link: "served_by txc (pg_client pg) got tx reqs cf"
    and job: "job \<in> {test21_param, test10_param, test1_param}" "64 \<le> max_alloc P"
    and te: "te \<in> set (pg_testers pg)"
  shows "\<exists>n. te_log te = replicate n (program_line job) \<and> n + te_left te = nat (sint rep)"
proof -
  obtain cn m xs r where p: "job = Inr (MethodWritable cn m (ints xs))" "\<And>i. request_ok (max_alloc P) (Suc d) (i, cn, m, ints xs)"
    "method_call (c_str cn) (c_str m) (map wire_image (ints xs)) = Inr (Some (IntWritable (Some r)))"
    "dec_int (sint (trunc8 r)) = program_line job"
    by (rule program_params [OF job]) blast
  let ?p = "MethodWritable cn m (ints xs)" and ?cg = "pg_client pg"
  have init: "initialised ?p" using ints_initialised by simp
  note run = client(4) [unfolded p(1)]
  have prog: "program_inv got ?p rep pg" by (rule program_runs_inv [OF client(1-3) init run])
  have inv: "client_inv txc ?cg" by (rule client_reachable_inv [OF client(1) receives_reachable [OF program_receives [OF run init]]])
  have param: "cl_param (ct_calls (cg_client ?cg) ! k) = ?p" if "k < length (ct_calls (cg_client ?cg))" for k
    using prog that inv_lengths(1) [OF inv] by (simp add: program_inv_def)
  have line: "str = program_line job" if "logged got ?cg str" for str
  proof -
    obtain k c x where k: "k < length (cg_callers ?cg)" "cg_callers ?cg ! k = CDone" "cl_conn (ct_calls (cg_client ?cg) ! k) = Some c"
      and x: "(cl_id (ct_calls (cg_client ?cg) ! k), x) \<in> set (got c)" "str = dec_int (sint (trunc8 x))"
      using \<open>logged got ?cg str\<close> by (auto simp: logged_def)
    have kk: "k < length (ct_calls (cg_client ?cg))" using k(1) inv_lengths(1) [OF inv] by simp
    have c: "c < length (ct_conns (cg_client ?cg))" using inv_call [OF inv kk] k(2,3) by (auto simp: call_inv_def)
    obtain e transit where e: "e < length reqs" "sent_on txc (ct_conns (cg_client ?cg) ! c) = enc_requests (reqs ! e)"
      "tx (sv_socks (cf_server cf) ! e) = response_bytes (got c) @ transit"
      using link c by (auto simp: served_by_def)
    have "sends_requests (max_alloc P) (Suc d) (ct_calls (cg_client ?cg) ! j)" if "j \<in> mine (ct_calls (cg_client ?cg)) (cg_callers ?cg) c call_sent" for j
      using param [of j] that p(2) by (simp add: mine_def sends_requests_def)
    moreover have "k \<in> mine (ct_calls (cg_client ?cg)) (cg_callers ?cg) c call_sent" using kk k by (simp add: mine_def)
    ultimately have "method_call (c_str cn) (c_str m) (map wire_image (ints xs)) = Inr (Some (IntWritable (Some x)))"
      using response_right [OF inv c server e _ _ param [OF kk] x(1)] by blast
    with p(3,4) x(2) show ?thesis by simp
  qed
  have "tester_inv got rep ?cg te" using prog te by (simp add: program_inv_def list_all_iff)
  then have "te_log te = replicate (length (te_log te)) (program_line job)" "length (te_log te) + te_left te = nat (sint rep)"
    using line by (auto simp: tester_inv_def list_all_iff intro: replicate_eqI)
  then show ?thesis by blast
qed

lemma program_threads:
  "program_runs P rx tx zeroed d ep job thread rep got pg \<Longrightarrow> length (pg_testers pg) = nat (sint thread)"
proof (induction rule: program_runs.induct)
  case (start pg)
  then show ?case by (auto simp: program_start_def testers_start_def bind_sum_eq_Inr split: if_splits)
next
  case (move got pg a pg')
  show ?case
  proof (cases a)
    case (Tester t)
    with move.hyps(3) move.IH show ?thesis
      by (cases job) (auto simp: tester_step_def tester_calls_def tester_logs_def bind_sum_eq_Inr map_sum_eq_Inr Let_def
        simp del: client_step.simps split: if_splits caller_pc.splits option.splits)
  next
    case (Inner b)
    with move.hyps(3) move.IH show ?thesis by (auto simp: map_sum_eq_Inr simp del: client_step.simps split: if_splits)
  qed
qed (auto simp: map_sum_eq_Inr simp del: client_step.simps)


text \<open>The same for each thread of \<open>Test1::test2\<close>.\<close>

lemma test2_lines:
  assumes client: "client_net Pc rxc txc" "net_fresh Pc rxc" "5 \<le> max_alloc Pc"
      "test2_runs Pc rxc txc zeroed (Suc dc) ep thread rep gots pgs" "i < length pgs"
    and server: "duplex P rx tx" "sends_some P rx tx" "sends_all P" "close_quiet P rx tx" "serves P (Suc d) rx tx reqs cf"
    and link: "served_by txc (pg_client (pgs ! i)) (gots i) tx reqs cf" "64 \<le> max_alloc P"
    and te: "te \<in> set (pg_testers (pgs ! i))"
  shows "\<exists>n. te_log te = replicate n ''32'' \<and> n + te_left te = nat (sint rep)"
proof -
  have "program_line test1_param = ''32''" by (simp add: program_line_def test1_param_eq test21_param_eq)
  with thread_lines [OF client(1-3) test2_each_runs [OF client(4,5)] server link(1) _ link(2) te] show ?thesis by simp
qed

section \<open>A run of \<open>Test1::test20\<close>\<close>

text \<open>Two threads that make one call each. The second is sent first.\<close>

definition run_ep :: endpoint where
  "run_ep = protocol_endpoint (\<lambda>_. Some 1) ''10.0.0.1'' 4096"

definition run_sends :: "wire program_action list" where
  "run_sends = [Tester 0, Tester 1] @ map (\<lambda>k. Inner (CallerMove k)) [0, 0, 1, 1, 1, 0]"

definition run_returns :: "wire program_action list" where
  "run_returns = replicate 10 (Inner (ReceiverMove 0)) @ [Inner (CallerMove 0), Inner (CallerMove 1), Tester 0, Tester 1]"

definition run_program :: "wire program_action list \<Rightarrow> wire program \<Rightarrow> wire program" where
  "run_program as pg = (case program_run (machine 100) True 1 run_ep test10_param as pg of Some (Inr pg') \<Rightarrow> pg' | _ \<Rightarrow> pg)"

definition run_start :: "wire program" where
  "run_start = \<lparr>pg_client = cl_init, pg_testers = replicate 2 \<lparr>te_left = 1, te_call = None, te_log = []\<rparr>\<rparr>"

definition run_sent :: "wire program" where
  "run_sent = run_program run_sends run_start"

definition run_responses :: "(i32 \<times> i32) list" where
  "run_responses = [(1, 32), (0, 32)]"

definition run_socket :: wire where
  "run_socket = (response_bytes run_responses, sent_on snd (ct_conns (cg_client (pg_client run_sent)) ! 0))"

definition run_arrived :: "wire program" where
  "run_arrived = run_program [Inner (Arrive 0 run_socket)] run_sent"

definition run_done :: "wire program" where
  "run_done = run_program run_returns run_arrived"

fun not_arrive :: "'s program_action \<Rightarrow> bool" where
  "not_arrive (Inner (Arrive c s)) = False"
| "not_arrive _ = True"

lemma program_run_runs:
  "program_runs P rx tx zeroed d ep job thread rep got pg \<Longrightarrow> list_all not_arrive as \<Longrightarrow>
   program_run P zeroed d ep job as pg = Some (Inr pg') \<Longrightarrow> program_runs P rx tx zeroed d ep job thread rep got pg'"
proof (induction as arbitrary: pg)
  case (Cons a as)
  then obtain pg1 where st: "program_step P zeroed d ep job a pg = Some (Inr pg1)" and rn: "program_run P zeroed d ep job as pg1 = Some (Inr pg')"
    by (auto split: option.splits sum.splits)
  have "\<forall>c s. a \<noteq> Inner (Arrive c s)" using Cons.prems(2) by auto
  from Cons.IH [OF program_runs.move [OF Cons.prems(1) this st] _ rn] Cons.prems(2) show ?case by simp
qed simp

lemma run_program_runs:
  assumes "program_runs (machine 100) fst snd True 1 run_ep test10_param 2 1 got pg" and "list_all not_arrive as"
  shows "program_runs (machine 100) fst snd True 1 run_ep test10_param 2 1 got (run_program as pg)"
  using assms program_run_runs [OF assms] by (auto simp: run_program_def split: option.splits sum.splits)

lemma runs_start: "program_runs (machine 100) fst snd True 1 run_ep test10_param 2 1 (\<lambda>_. []) run_start"
proof (rule program_runs.start)
  have "nat (sint (2 :: i32)) = 2" "nat (sint (1 :: i32)) = 1" "\<not> sint (2 :: i32) < 0" by code_simp+
  then show "program_start 2 1 = Inr run_start" by (simp add: program_start_def testers_start_def run_start_def)
qed

text \<open>What the program has done, from one evaluation of its run.\<close>

definition run_check :: "wire program \<Rightarrow> bool" where
  "run_check pg \<longleftrightarrow> joined pg \<and> length (ct_conns (cg_client (pg_client pg))) = 1 \<and>
     sent_on snd (ct_conns (cg_client (pg_client pg)) ! 0) =
       enc_requests (map (\<lambda>i. (i, ''FSNameSystem'', ''create'', ints [10, 20])) [1, 0])"

lemma run_checked: "run_check run_done"
proof -
  have "case program_run (machine 100) True 1 run_ep test10_param run_returns run_arrived of Some (Inr pg) \<Rightarrow> run_check pg | _ \<Rightarrow> False"
    by code_simp
  then show ?thesis unfolding run_done_def run_program_def by (auto split: option.splits sum.splits)
qed

lemma runs_done: "program_runs (machine 100) fst snd True 1 run_ep test10_param 2 1 ((\<lambda>_. [])(0 := run_responses)) run_done"
proof -
  have sent: "program_runs (machine 100) fst snd True 1 run_ep test10_param 2 1 (\<lambda>_. []) run_sent"
    unfolding run_sent_def by (rule run_program_runs [OF runs_start]) code_simp
  have "case program_step (machine 100) True 1 run_ep test10_param (Inner (Arrive 0 run_socket)) run_sent of Some (Inr pg) \<Rightarrow> True | _ \<Rightarrow> False"
    by code_simp
  then have st: "program_step (machine 100) True 1 run_ep test10_param (Inner (Arrive 0 run_socket)) run_sent = Some (Inr run_arrived)"
    unfolding run_arrived_def run_program_def by (auto simp del: program_step.simps split: option.splits sum.splits)
  have "fst run_socket = unread_on fst (ct_conns (cg_client (pg_client run_sent)) ! 0) @ response_bytes run_responses" by code_simp
  moreover have "snd run_socket = sent_on snd (ct_conns (cg_client (pg_client run_sent)) ! 0)" by (simp add: run_socket_def)
  ultimately have "program_runs (machine 100) fst snd True 1 run_ep test10_param 2 1 ((\<lambda>_. [])(0 := [] @ run_responses)) run_arrived"
    by (rule program_runs.arrive [OF sent st])
  then show ?thesis unfolding run_done_def by (intro run_program_runs) (simp, code_simp)
qed

definition run_requests :: "request list" where
  "run_requests = map (\<lambda>i. (i, ''FSNameSystem'', ''create'', ints [10, 20])) [1, 0]"

definition run_served :: "wire config" where
  "run_served = serve_client run_requests (two_actions @ replicate 5 (HandlerMove 0))"

lemma serves_run_requests: "serves (machine 100) 3 fst snd [run_requests] run_served \<and>
    snd (sv_socks (cf_server run_served) ! 0) = response_bytes run_responses"
  unfolding run_served_def by (rule serves_client) code_simp+


end
