(* ===== verification/Log.thy ===== *)
theory Log
  imports Writables
begin

text \<open>
  The log (\<open>include/Log.h\<close>, \<open>src/Log.cpp\<close>): levels, the four overloads of \<open>write\<close>, and the
  formatting of a message in a buffer of fixed size.

  Setting the library up, the destructor and the two examples of its use come last.

  The methods of the root category of log4cpp are fields of a record over the state of the
  library; \<open>vsnprintf\<close> is given by its result, the complete text or an error.
\<close>

section \<open>Levels\<close>

datatype log_level = DEBUG | INFO | NOTICE | WARN | ERROR | CRIT | ALERT | FATAL

text \<open>The values of the enumeration, by which levels are compared.\<close>

fun level_value :: "log_level \<Rightarrow> nat" where
  "level_value DEBUG = 0"
| "level_value INFO = 1"
| "level_value NOTICE = 2"
| "level_value WARN = 3"
| "level_value ERROR = 4"
| "level_value CRIT = 5"
| "level_value ALERT = 6"
| "level_value FATAL = 7"

lemma level_value_inject: "level_value l = level_value l' \<longleftrightarrow> l = l'"
  by (cases l; cases l') simp_all

instantiation log_level :: linorder
begin

definition less_eq_log_level :: "log_level \<Rightarrow> log_level \<Rightarrow> bool" where
  "less_eq_log_level l l' \<longleftrightarrow> level_value l \<le> level_value l'"

definition less_log_level :: "log_level \<Rightarrow> log_level \<Rightarrow> bool" where
  "less_log_level l l' \<longleftrightarrow> level_value l < level_value l'"

instance
  by standard (auto simp: less_eq_log_level_def less_log_level_def level_value_inject)

end

definition default_log_level :: log_level where
  "default_log_level = INFO"

section \<open>Writing\<close>

record 'w log4cpp =
  root_debug :: "string \<Rightarrow> 'w \<Rightarrow> 'w"
  root_info :: "string \<Rightarrow> 'w \<Rightarrow> 'w"
  root_notice :: "string \<Rightarrow> 'w \<Rightarrow> 'w"
  root_warn :: "string \<Rightarrow> 'w \<Rightarrow> 'w"
  root_error :: "string \<Rightarrow> 'w \<Rightarrow> 'w"

definition log_line :: "int \<Rightarrow> string \<Rightarrow> string" where
  "log_line tid msg = ''<'' @ dec_int tid @ ''> '' @ msg"

text \<open>The switch over the level that every overload ends with.\<close>

definition log_emit :: "'w log4cpp \<Rightarrow> log_level \<Rightarrow> string \<Rightarrow> 'w \<Rightarrow> 'w" where
  "log_emit L level str = (case level of
       DEBUG \<Rightarrow> root_debug L str
     | INFO \<Rightarrow> root_info L str
     | NOTICE \<Rightarrow> root_notice L str
     | WARN \<Rightarrow> root_warn L str
     | ERROR \<Rightarrow> root_error L str
     | _ \<Rightarrow> root_error L str)"

definition log_write :: "'w log4cpp \<Rightarrow> int \<Rightarrow> string \<Rightarrow> 'w \<Rightarrow> 'w" where
  "log_write L tid msg = log_emit L default_log_level (log_line tid msg)"

definition log_write_level :: "'w log4cpp \<Rightarrow> int \<Rightarrow> log_level \<Rightarrow> string \<Rightarrow> 'w \<Rightarrow> 'w" where
  "log_write_level L tid level msg = log_emit L level (log_line tid msg)"

text \<open>
  \<open>getString\<close>: \<open>out\<close> is the formatted text, \<open>None\<close> an error of \<open>vsnprintf\<close>. The second result is
  the number of bytes that are not given back.
\<close>

definition buffer_size :: nat where
  "buffer_size = 1024"

definition get_string :: "string option \<Rightarrow> string \<Rightarrow> string \<times> nat" where
  "get_string out str = (case out of
       None \<Rightarrow> (str, buffer_size)
     | Some text \<Rightarrow> if length text < buffer_size then (c_str text, 0) else (str, buffer_size))"

definition log_format :: "'w log4cpp \<Rightarrow> int \<Rightarrow> string option \<Rightarrow> 'w \<Rightarrow> 'w \<times> nat" where
  "log_format L tid out w = (case get_string out [] of (str, leak) \<Rightarrow>
     (log_emit L default_log_level (log_line tid str) w, leak))"

definition log_format_level :: "'w log4cpp \<Rightarrow> int \<Rightarrow> log_level \<Rightarrow> string option \<Rightarrow> 'w \<Rightarrow> 'w \<times> nat" where
  "log_format_level L tid level out w = (case get_string out [] of (str, leak) \<Rightarrow>
     (log_emit L level (log_line tid str) w, leak))"

section \<open>What is logged\<close>

text \<open>A library that keeps what it is given, with the severity of the method.\<close>

definition recorder :: "(log_level \<times> string) list log4cpp" where
  "recorder = \<lparr>root_debug = (\<lambda>str w. w @ [(DEBUG, str)]), root_info = (\<lambda>str w. w @ [(INFO, str)]),
     root_notice = (\<lambda>str w. w @ [(NOTICE, str)]), root_warn = (\<lambda>str w. w @ [(WARN, str)]),
     root_error = (\<lambda>str w. w @ [(ERROR, str)])\<rparr>"

lemma log_emit_recorder: "log_emit recorder level str w = w @ [(min level ERROR, str)]"
  by (cases level) (simp_all add: log_emit_def recorder_def min_def less_eq_log_level_def)

text \<open>
  Every message is logged once, under its level or under \<open>ERROR\<close> where its level is above
  that; but a formatted message of 1024 bytes or more is logged without its text, and its buffer
  is never given back. Two such messages cannot be told apart.
\<close>

theorem formatted_messages:
  "log_format_level recorder tid level out w =
     (case out of
        Some text \<Rightarrow> if length text < 1024
          then (w @ [(min level ERROR, log_line tid (c_str text))], 0)
          else (w @ [(min level ERROR, log_line tid [])], 1024)
      | None \<Rightarrow> (w @ [(min level ERROR, log_line tid [])], 1024))"
  by (simp add: log_format_level_def get_string_def buffer_size_def log_emit_recorder split: option.split)

section \<open>Setting the library up\<close>

text \<open>
  \<open>init\<close>, the destructor and the two examples \<open>simple\<close> and \<open>Properties\<close> call log4cpp and keep
  nothing themselves. The library is the argument \<open>lib\<close>, which runs a call on its state and may
  throw; an appender is known by its name, a category by the name it is found under.
\<close>

datatype category = Root | Category string

datatype lib_output = Console | File string

datatype lib_call =
    Configure string
  | NewAppender string lib_output \<comment> \<open>with a basic layout\<close>
  | GetCategory category
  | SetPriority category log_level
  | AddAppender category string
  | Emit category log_level string
  | EmitFormat category log_level string "string list"
  | Stream category log_level string
  | Shutdown

fun lib_calls :: "(lib_call \<Rightarrow> ('w, unit) sm) \<Rightarrow> lib_call list \<Rightarrow> ('w, unit) sm" where
  "lib_calls lib [] = ret ()"
| "lib_calls lib (c # cs) = bind_sm (lib c) (\<lambda>_. lib_calls lib cs)"

definition log_init :: "(lib_call \<Rightarrow> ('w, unit) sm) \<Rightarrow> string \<Rightarrow> ('w, unit) sm" where
  "log_init lib conf = lib (Configure conf)"

definition log_destroy :: "(lib_call \<Rightarrow> ('w, unit) sm) \<Rightarrow> ('w, unit) sm" where
  "log_destroy lib = try_catch (lib_calls lib [GetCategory Root, Shutdown]) (\<lambda>_. fail Aborted)"

definition log_simple :: "(lib_call \<Rightarrow> ('w, unit) sm) \<Rightarrow> ('w, unit) sm" where
  "log_simple lib = (let root = Root; sub1 = Category ''sub1'' in lib_calls lib
     [NewAppender ''console'' Console,
      NewAppender ''default'' (File ''program.log''),
      GetCategory root, SetPriority root WARN, AddAppender root ''console'',
      GetCategory sub1, AddAppender sub1 ''default'',
      Emit root ERROR ''root error'',
      Emit root INFO ''root info'',
      Emit sub1 ERROR ''sub1 error'',
      Emit sub1 WARN ''sub1 warn'',
      EmitFormat root WARN ''%d + %d == %s ?'' [dec_int 1, dec_int 1, ''two''],
      Stream root ERROR ''Streamed root error'',
      Stream root INFO ''Streamed root info'',
      Stream sub1 ERROR ''Streamed sub1 error'',
      Stream sub1 WARN ''Streamed sub1 warn'',
      Stream root ERROR ''Another streamed error''])"

definition log_properties :: "(lib_call \<Rightarrow> ('w, unit) sm) \<Rightarrow> ('w, unit) sm" where
  "log_properties lib = (let root = Root; sub1 = Category ''sub1''; sub2 = Category ''sub1.sub2'' in lib_calls lib
     [Configure ''/home/eltonsky/cpp/pfs/conf/log4cpp.properties'',
      GetCategory root, GetCategory sub1, GetCategory sub2,
      Emit root WARN ''Storm is coming'',
      Emit sub1 DEBUG ''Received storm warning'',
      Emit sub1 INFO ''Closing all hatches'',
      Emit sub2 DEBUG ''Hiding solar panels'',
      Emit sub2 ERROR ''Solar panels are blocked'',
      Emit sub2 DEBUG ''Applying protective shield'',
      Emit sub2 WARN ''Unfolding protective shield'',
      Emit sub2 INFO ''Solar panels are shielded'',
      Emit sub1 INFO ''All hatches closed'',
      Emit root INFO ''Ready for storm.'',
      Shutdown])"

text \<open>No exception leaves the destructor, whatever the library throws.\<close>

lemma log_destroy_no_throw: "fst (log_destroy lib w) \<noteq> Inl (Throw e)"
  unfolding log_destroy_def try_catch_def by (auto simp: fail_def split: prod.split sum.split fault.split)

text \<open>The calls are made in order up to the first that throws, and none after it.\<close>

lemma lib_calls_prefix:
  assumes "\<And>c w. snd (lib c w) = w @ [c]"
  shows "\<exists>n. snd (lib_calls lib cs w) = w @ take n cs \<and> (\<forall>u. fst (lib_calls lib cs w) = Inr u \<longrightarrow> n = length cs)"
proof (induction cs arbitrary: w)
  case (Cons c cs)
  obtain r where r: "lib c w = (r, w @ [c])" using assms by (metis prod.collapse)
  from Cons.IH [of "w @ [c]"] obtain n where
    n: "snd (lib_calls lib cs (w @ [c])) = (w @ [c]) @ take n cs" "\<forall>u. fst (lib_calls lib cs (w @ [c])) = Inr u \<longrightarrow> n = length cs"
    by blast
  show ?case
  proof (cases r)
    case (Inl e)
    with r show ?thesis by (intro exI [of _ 1]) (simp add: sm_simps)
  next
    case (Inr u)
    with r n show ?thesis by (intro exI [of _ "Suc n"]) (simp add: sm_simps)
  qed
qed (simp add: sm_simps)

end
