(* ===== verification/Main_Program.thy ===== *)
theory Main_Program
  imports RPC
begin

text \<open>
  The program (\<open>main.cpp\<close>): its arguments, the steps by which it starts as a client or a server,
  and the handler of signals that stops the server. \<open>atoi\<close> and the conversion of a number to a
  port are those of the language and its library; \<open>Utils::getTime\<close> is the clock.
\<close>

section \<open>Numbers as text\<close>

definition is_space :: "char \<Rightarrow> bool" where
  "is_space c \<longleftrightarrow> (of_char c :: nat) = 32 \<or> (9 \<le> (of_char c :: nat) \<and> (of_char c :: nat) \<le> 13)"

definition is_digit :: "char \<Rightarrow> bool" where
  "is_digit c \<longleftrightarrow> 48 \<le> (of_char c :: nat) \<and> (of_char c :: nat) \<le> 57"

definition digits_value :: "string \<Rightarrow> nat" where
  "digits_value str = foldl (\<lambda>v c. v * 10 + (of_char c - 48)) 0 str"

text \<open>\<open>atoi\<close>: what does not fit into an \<open>int\<close> is undefined.\<close>

definition atoi :: "string \<Rightarrow> fault + i32" where
  "atoi str =
     (let s = dropWhile is_space str;
          neg = (s \<noteq> [] \<and> hd s = CHR ''-'');
          s' = (if s \<noteq> [] \<and> (hd s = CHR ''-'' \<or> hd s = CHR ''+'') then tl s else s);
          v = int (digits_value (takeWhile is_digit s'));
          x = (if neg then - v else v) in
      if - (2 ^ 31) \<le> x \<and> x < 2 ^ 31 then Inr (word_of_int x) else Inl (Undefined SignedOverflow))"

lemma digit_char: "n < 10 \<Longrightarrow> (of_char (char_of (48 + n) :: char) :: nat) = 48 + n"
  by (simp add: of_char_of)

lemma digits_value_append: "digits_value (str @ [c]) = digits_value str * 10 + (of_char c - 48)"
  by (simp add: digits_value_def)

lemma dec_nat_value: "list_all is_digit (dec_nat n) \<and> dec_nat n \<noteq> [] \<and> digits_value (dec_nat n) = n"
proof (induction n rule: dec_nat.induct)
  case (1 n)
  show ?case
  proof (cases "n < 10")
    case True
    then show ?thesis
      by (subst dec_nat.simps, subst dec_nat.simps) (simp add: is_digit_def digits_value_def digit_char dec_nat.simps)
  next
    case False
    have dec: "dec_nat n = dec_nat (n div 10) @ [char_of (48 + n mod 10)]" using False by (simp add: dec_nat.simps [of n])
    have "(of_char (char_of (48 + n mod 10) :: char) :: nat) = 48 + n mod 10" by (rule digit_char) simp
    moreover have "n mod 10 < 10" by simp
    ultimately show ?thesis using 1 [OF False] unfolding dec
      by (simp add: digits_value_append is_digit_def)
  qed
qed

lemma takeWhile_all: "list_all p xs \<Longrightarrow> takeWhile p xs = xs"
  by (simp add: list_all_iff takeWhile_eq_all_conv)

lemma atoi_dec_nat:
  assumes "n < 2 ^ 31"
  shows "atoi (dec_nat n) = Inr (word_of_nat n)"
proof -
  obtain c cs where d: "dec_nat n = c # cs" using dec_nat_value [of n] by (cases "dec_nat n") auto
  then have c: "is_digit c" using dec_nat_value [of n] by simp
  then have "\<not> is_space c" "c \<noteq> CHR ''-''" "c \<noteq> CHR ''+''" by (auto simp: is_digit_def is_space_def)
  then have "atoi (c # cs) = Inr (word_of_nat n)"
    using assms dec_nat_value [of n] unfolding d by (simp add: atoi_def takeWhile_all)
  then show ?thesis by (simp add: d)
qed

section \<open>Arguments\<close>

datatype start =
    Refused string
  | RunClient string i32
  | RunServer i32

definition parse_args :: "string list \<Rightarrow> fault + start" where
  "parse_args argv =
     (if length argv < 2 then Inr (Refused ''Is this client or server? <type> required.'')
      else if argv ! 1 = ''-c'' then
        if length argv < 4 then Inr (Refused ''Client Usage: ./bin <type> <server_host> <port>'')
        else bind_sum (atoi (argv ! 3)) (\<lambda>port. Inr (RunClient (argv ! 2) port))
      else if argv ! 1 = ''-s'' then
        if length argv < 3 then Inr (Refused ''Server Usage: ./bin <type> <port>'')
        else bind_sum (atoi (argv ! 2)) (\<lambda>port. Inr (RunServer port))
      else Inr (Refused (''Unrecognized type '' @ [CHR 0x27] @ argv ! 1 @ [CHR 0x27])))"

text \<open>The endpoint the listener accepts on, \<open>tcp::endpoint(tcp::v4(), port)\<close>.\<close>

definition listener_endpoint :: "i32 \<Rightarrow> endpoint" where
  "listener_endpoint port = \<lparr>ep_address = 0, ep_port = ucast port\<rparr>"

lemma port_value:
  assumes "n < 2 ^ 31"
  shows "unat (ucast (word_of_nat n :: i32) :: u16) = n mod 2 ^ 16"
proof -
  have "unat (word_of_nat n :: i32) = n" using assms by (intro unat_i32) simp
  then show ?thesis by (simp add: unsigned_ucast_eq take_bit_eq_mod)
qed

text \<open>
  The port of the command line: a server and a client started with the same number meet on
  the same port, which is the number itself when it is below 65536 and its remainder otherwise.
\<close>

theorem ports_agree:
  assumes "n < 2 ^ 31"
  shows "\<exists>port. parse_args [prog, ''-s'', dec_nat n] = Inr (RunServer port) \<and>
    parse_args [prog, ''-c'', host, dec_nat n] = Inr (RunClient host port) \<and>
    ep_port (protocol_endpoint parse host port) = ep_port (listener_endpoint port) \<and>
    unat (ep_port (listener_endpoint port)) = n mod 2 ^ 16"
  by (intro exI [of _ "word_of_nat n"])
    (simp add: parse_args_def atoi_dec_nat [OF assms] listener_endpoint_def protocol_endpoint_def port_value [OF assms])

theorem ports_agree_witness:
  "\<exists>port. parse_args [''p_rpc'', ''-s'', ''65616''] = Inr (RunServer port) \<and>
    ep_port (protocol_endpoint (\<lambda>_. None) ''localhost'' port) = ep_port (listener_endpoint port) \<and>
    unat (ep_port (listener_endpoint port)) = 80"
proof -
  have "dec_nat 65616 = ''65616''" by code_simp
  with ports_agree [of 65616 "''p_rpc''" "''localhost''" "\<lambda>_. None"] show ?thesis by auto
qed

section \<open>Starting and stopping\<close>

text \<open>\<open>Utils::getTime\<close>, in milliseconds, from the seconds and microseconds of \<open>gettimeofday\<close>.\<close>

definition get_time :: "int \<Rightarrow> int \<Rightarrow> int" where
  "get_time sec usec = sec * 1000 + usec div 1000"

lemma get_time_mono:
  assumes "sec < sec' \<or> (sec = sec' \<and> usec \<le> usec')" and "0 \<le> usec'" and "usec < 1000000"
  shows "get_time sec usec \<le> get_time sec' usec'"
proof (cases "sec = sec'")
  case True
  with assms(1) show ?thesis by (simp add: get_time_def zdiv_mono1)
next
  case False
  have "usec div 1000 < 1000" "0 \<le> usec' div 1000" using assms(2,3) by simp_all
  with False assms(1) show ?thesis by (simp add: get_time_def)
qed

text \<open>The steps of \<open>main\<close> after the arguments.\<close>

datatype main_act =
    InitLog string
  | RunTest string i32 nat nat
  | InstallHandler
  | NewServer i32
  | SetServerPtr
  | StartServer

fun main_acts :: "start \<Rightarrow> main_act list" where
  "main_acts (Refused msg) = []"
| "main_acts (RunClient host port) = [InitLog ''./conf/client.properties'', RunTest host port 32 50]"
| "main_acts (RunServer port) =
     [InitLog ''./conf/server.properties'', InstallHandler, NewServer port, SetServerPtr, StartServer]"

text \<open>The exit code of \<open>main\<close>; \<open>throws\<close> says that a step has thrown an exception.\<close>

definition main_result :: "start \<Rightarrow> bool \<Rightarrow> int" where
  "main_result st throws = (case st of Refused msg \<Rightarrow> - 1 | _ \<Rightarrow> if throws then - 1 else 0)"

text \<open>
  \<open>terminate\<close>: its globals, and what one signal does. \<open>Stop\<close> is a complete \<open>Server::stop\<close>, after
  which the process exits; a handler that runs while another one is still stopping the server finds
  \<open>teminated\<close> set.
\<close>

record signal_state =
  sg_terminated :: bool \<comment> \<open>\<open>teminated\<close>\<close>
  sg_server :: bool \<comment> \<open>\<open>server_ptr\<close> is not null\<close>

datatype signal_outcome = Stop | Ignored

definition sigint :: i32 where
  "sigint = 2"

definition terminate :: "i32 \<Rightarrow> (signal_state, signal_outcome) sm" where
  "terminate signum = (\<lambda>sg.
     if signum = sigint \<and> \<not> sg_terminated sg then
       (if sg_server sg then Inr Stop else Inl (Undefined NullDeref), sg\<lparr>sg_terminated := True, sg_server := False\<rparr>)
     else (Inr Ignored, sg))"

primrec signals :: "i32 list \<Rightarrow> (signal_state, signal_outcome list) sm" where
  "signals [] = ret []"
| "signals (s # ss) = bind_sm (terminate s) (\<lambda>r. bind_sm (signals ss) (\<lambda>rs. ret (r # rs)))"

text \<open>The effect of the start on what the handler of signals sees.\<close>

fun act_on :: "main_act \<Rightarrow> signal_state \<Rightarrow> signal_state" where
  "act_on SetServerPtr sg = sg\<lparr>sg_server := True\<rparr>"
| "act_on a sg = sg"

definition signal_start :: signal_state where
  "signal_start = \<lparr>sg_terminated = False, sg_server = False\<rparr>"

text \<open>A signal after the first \<open>k\<close> steps: \<open>None\<close> where the handler is not installed.\<close>

definition signal_after :: "nat \<Rightarrow> start \<Rightarrow> i32 \<Rightarrow> (fault + signal_outcome) option" where
  "signal_after k st s =
     (if InstallHandler \<in> set (take k (main_acts st))
      then Some (fst (terminate s (fold act_on (take k (main_acts st)) signal_start))) else None)"

lemma signals_ignored: "sg_terminated sg \<Longrightarrow> signals ss sg = (Inr (replicate (length ss) Ignored), sg)"
  by (induction ss) (simp_all add: sm_simps terminate_def)

definition first_stops :: "nat \<Rightarrow> nat \<Rightarrow> signal_outcome list" where
  "first_stops n m = map (\<lambda>i. if i = n then Stop else Ignored) [0..<m]"

lemma first_stops_simps:
  "first_stops 0 (Suc m) = Stop # replicate m Ignored" "first_stops (Suc n) (Suc m) = Ignored # first_stops n m"
proof -
  have upt: "[0..<Suc m] = 0 # map Suc [0..<m]" by (simp add: upt_conv_Cons map_Suc_upt)
  have "map (\<lambda>i. Ignored) [0..<m] = replicate m Ignored" by (simp add: map_replicate_const)
  then show "first_stops 0 (Suc m) = Stop # replicate m Ignored"
    unfolding first_stops_def upt by (simp add: comp_def)
  show "first_stops (Suc n) (Suc m) = Ignored # first_stops n m"
    unfolding first_stops_def upt by simp
qed

lemma signals_running:
  "fst (signals ss \<lparr>sg_terminated = False, sg_server = True\<rparr>) =
     Inr (first_stops (length (takeWhile (\<lambda>s. s \<noteq> sigint) ss)) (length ss))"
proof (induction ss)
  case Nil
  then show ?case by (simp add: first_stops_def sm_simps)
next
  case (Cons s ss)
  then obtain sg where "signals ss \<lparr>sg_terminated = False, sg_server = True\<rparr> =
      (Inr (first_stops (length (takeWhile (\<lambda>s. s \<noteq> sigint) ss)) (length ss)), sg)" by (metis prod.collapse)
  then show ?case
    by (cases "s = sigint") (simp_all add: sm_simps terminate_def signals_ignored first_stops_simps)
qed


end
