(* ===== verification/Spec2Isabelle.thy ===== *)
theory Spec2Isabelle
  imports Listener_Connections Test_Programs Log Main_Program
begin

text \<open>
  A verification development of \<^emph>\<open>p_rpc\<close>, a framework for remote calls in C++ on Boost.Asio.

  \<^bold>\<open>The program.\<close> A client object keeps a connection for each endpoint, each with the table of its
  calls and a thread that receives responses; a call is sent as an id and a \<open>MethodWritable\<close>, and
  its thread waits until the receiver has set its value. The server is a pipeline: the listener
  runs the callbacks of Asio and gives connections that have something to read to two readers in
  turn; a reader reads one call and puts it into \<open>_bq_call\<close>; two handlers take calls from there,
  run the method by its name and put the response into the queue of its connection, sending it at
  once when it is alone there; otherwise the responder sends it, told by \<open>_bq_respond\<close> which
  connection has something to send.

  \<^bold>\<open>The model.\<close> Methods are functions in a state monad with faults (theory \<open>Prelude\<close>): a C++
  exception is \<open>Throw\<close>, undefined behaviour is \<open>Undefined\<close> with its cause, \<open>std::abort\<close> is
  \<open>Aborted\<close>, so every throw, early return and abort of the code is a branch. An \<open>int\<close> is a
  32 bit word whose overflow is undefined, \<open>size_t\<close> a 64 bit word that wraps, an \<open>unsigned\<close> a
  32 bit word. An object that is shared by pointers is a position in a list of objects. Sockets
  and the heap are fields of a record \<open>platform\<close> (theory \<open>Platform\<close>), whose documented behaviour
  is the hypotheses \<open>duplex\<close>, \<open>sends_some\<close>, \<open>sends_all\<close>, \<open>close_silent\<close>, \<open>close_quiet\<close>,
  \<open>client_net\<close> and \<open>net_fresh\<close>; \<open>machine\<close> and
  \<open>slow_machine\<close> satisfy them, and the witnesses evaluate on these.

  \<^bold>\<open>Theories and code.\<close>
  \<^item> \<open>Writables\<close>, \<open>Wire_Format\<close>, \<open>Wire_Safety\<close>: \<open>Writable.cpp\<close>, \<open>IntWritable.cpp\<close>,
    \<open>MethodWritable.cpp\<close>, \<open>Method::getNewInstance\<close>. The round trip over the wire, with exactly
    what the format loses; stack use, the range of integers, malformed lengths.
  \<^item> \<open>Methods\<close>: \<open>Method::call\<close>, \<open>NameNode::create\<close>, and all their outcomes.
  \<^item> \<open>Block_Queue\<close>: \<open>BlockQueue.h\<close>. The queue refines a bounded queue (locale \<open>bounded_fifo\<close>,
    interpreted on it), and the blocking operations, given what other threads do while they wait,
    take effect at one moment.
  \<^item> \<open>Server_Call\<close>, \<open>Server_Connection\<close>: \<open>Call.cpp\<close>, \<open>Connection.cpp\<close>. Reading a request,
    sending a response piecewise.
  \<^item> \<open>Server_State\<close>, \<open>Responder\<close>, \<open>Handler\<close>, \<open>Listener\<close>: the shared state of the server and the
    operations of \<open>Responder.cpp\<close>, \<open>Handler.cpp\<close>, \<open>Listener.cpp\<close> and \<open>Listener.h\<close>, each cut into
    the moments between which other threads may run, and put together for a thread on its own.
  \<^item> \<open>Server_Core\<close>: the threads as program counters, \<open>Server.cpp\<close> with \<open>stop\<close> and every
    \<open>waitToFinish\<close>, and the step relation \<open>reachable\<close> over all interleavings.
  \<^item> \<open>Server_Effects\<close>, \<open>Server_Invariant\<close>, \<open>Server_Sending\<close>: what each moment changes; the
    invariant of read tokens, of responses owed and of pointers; what is sent.
  \<^item> \<open>Server_Safety\<close>, \<open>Listener_Connections\<close>: the properties of the running server that follow,
    and the schedules in which its design fails.
  \<^item> \<open>Server_Answers\<close>: the books of the running server. Each request of a client is to be read, on
    its way or answered, and is answered once, over its own socket, with what its method returns.
  \<^item> \<open>Registry\<close>: the interface of the three caches of the program, interpreted on the connections
    of a client (\<open>Client_Calls\<close>), the clients of \<open>RPC\<close> and the connections of the server
    (\<open>Listener_Connections\<close>).
  \<^item> \<open>Client\<close>, \<open>Client_Calls\<close>: \<open>Client.h\<close>, \<open>Client.cpp\<close>. Ids, connections, responses in any
    order, waiting and closing, and the failures of sending and receiving.
  \<^item> \<open>Client_Core\<close>: the threads of one client, a caller for each call and a receiver for each
    connection, as program counters, with the step relation \<open>client_reachable\<close> over all
    interleavings. \<open>Client_Invariant\<close>: the tables of calls and what has been sent.
    \<open>Client_Life\<close>: the flags of a connection, its socket and the lock. \<open>Client_Values\<close>: the
    classes of values. \<open>Client_Safety\<close>, \<open>Client_Faults\<close>: the properties that follow, and exactly
    how a client can go wrong.
    \<open>Client_Answers\<close>: what has arrived on a connection and what its receiver has not read yet.
  \<^item> \<open>Concurrent_Calls\<close>: such a client and such a server joined by a connection. In every
    interleaving of the threads of both, a call that returns has the value of its own method.
  \<^item> \<open>RPC\<close>: \<open>RPC.h\<close>, \<open>Invocation.h\<close>, \<open>DataNodeProtocol.h\<close>.
  \<^item> \<open>End_To_End\<close>, \<open>Remote_Call\<close>: a request through the stages of the server, and any number of
    calls of one thread of a client program to a server.
  \<^item> \<open>Test_Programs\<close>: \<open>Test1.cpp\<close> and \<open>Test2.cpp\<close>, whose threads call over one client with all its
    threads, or each over its own, against a server with all its threads; what they print.
  \<^item> \<open>Log\<close>: \<open>Log.cpp\<close>. \<open>Main_Program\<close>: \<open>main.cpp\<close>, \<open>Utils.cpp\<close>.

  \<^bold>\<open>Bounds and fuel.\<close> The argument \<open>d\<close> of \<open>read_fields\<close> is the number of nested calls the stack can
  hold; two are enough for a call whose parameters are integers, and \<open>Wire_Safety\<close> shows how many
  a message needs. \<open>respond_rounds\<close> is given as many rounds as the value has bytes, as each round
  sends at least one. The blocking operations are given the finite part of the behaviour of the
  other threads that falls into their waits; a result \<open>None\<close> is a call that has not returned yet,
  and the theorems about them say when they return.

  \<^bold>\<open>What is assumed.\<close> A new connection of a client is made in memory that happens to be zero
  (argument \<open>zeroed\<close>), where the theorems about calls say so; without it the first call reads an
  uninitialised pointer, which is a theorem of \<open>Client_Calls\<close>. The steps of the server and
  of a client are sequentially consistent, and one step is what the code does under a lock or on data of its own
  thread; timing out while a queue stays full is one step. In \<open>Server_Answers\<close>, \<open>Concurrent_Calls\<close> and \<open>Test_Programs\<close> all that a
  client sends to the server during the run is there to be read when the client is accepted, and
  responses arrive at a client whole; a read of bytes that are still to come would block. In \<open>Remote_Call\<close> the stages of the
  server take their turn one after the other; other orders are the subject of \<open>Server_Safety\<close>.

  \<^bold>\<open>Not modelled.\<close> The inside of Boost.Asio (\<open>io_service\<close>, the acceptor) beyond its documented
  behaviour; log lines, except where the arguments of one call a method that can fail; log4cpp, which
  is an argument of \<open>Log\<close>; identifiers of threads; memory that is never freed. A \<open>shared_ptr\<close> keeps its object, so a pointer in the model stays valid.
\<close>

end
